(* ===== verification/Prelude.thy ===== *)
theory Prelude
  imports Main
begin

text \<open>
  The vocabulary every other theory of the development uses: what a Rust operation may
  answer (a value, an \<open>Err\<close>, a panic, or no answer within the fuel), operations that thread
  a mutable state, the combinators the models are written with, the weakest-precondition
  calculus their proofs are written with, and facts on lists and maps that several
  components share.
\<close>

section \<open>Outcomes and effects\<close>

text \<open>
  A Rust function of this repository ends in one of three ways: it returns a value, it
  returns \<open>Err\<close> (the \<open>?\<close> operator hands it on), or it panics (\<open>assert!\<close>, \<open>unwrap\<close>,
  \<open>expect\<close>, \<open>panic!\<close>). \<open>Diverge\<close> is the answer of a model that ran out of fuel. A panic
  carries the message of the source, or the name of the failed check when it has none.
\<close>

type_synonym error = string

datatype 'a outcome = Ok 'a | Err error | Panic string | Diverge

text \<open>
  An operation on \<open>&mut self\<close> maps the state to an outcome and the state it leaves behind;
  the state survives an \<open>Err\<close> or a panic, as the mutations made before it do.
\<close>

type_synonym ('s, 'a) eff = "'s \<Rightarrow> 'a outcome \<times> 's"

definition ret :: "'a \<Rightarrow> ('s, 'a) eff" where
  "ret a = (\<lambda>s. (Ok a, s))"

definition fail :: "error \<Rightarrow> ('s, 'a) eff" where
  "fail e = (\<lambda>s. (Err e, s))"

definition panic :: "string \<Rightarrow> ('s, 'a) eff" where
  "panic p = (\<lambda>s. (Panic p, s))"

definition diverge :: "('s, 'a) eff" where
  "diverge = (\<lambda>s. (Diverge, s))"

definition bnd :: "('s, 'a) eff \<Rightarrow> ('a \<Rightarrow> ('s, 'b) eff) \<Rightarrow> ('s, 'b) eff" where
  "bnd m f = (\<lambda>s. case m s of
     (Ok a, t) \<Rightarrow> f a t
   | (Err e, t) \<Rightarrow> (Err e, t)
   | (Panic p, t) \<Rightarrow> (Panic p, t)
   | (Diverge, t) \<Rightarrow> (Diverge, t))"

definition thn :: "('s, 'a) eff \<Rightarrow> ('s, 'b) eff \<Rightarrow> ('s, 'b) eff" where
  "thn m n = bnd m (\<lambda>_. n)"

definition gets :: "('s \<Rightarrow> 'a) \<Rightarrow> ('s, 'a) eff" where
  "gets f = (\<lambda>s. (Ok (f s), s))"

definition upd :: "('s \<Rightarrow> 's) \<Rightarrow> ('s, unit) eff" where
  "upd f = (\<lambda>s. (Ok (), f s))"

text \<open>\<open>match\<close> on a \<open>Result\<close>: an \<open>Err\<close> becomes a value the caller looks at.\<close>

definition attempt :: "('s, 'a) eff \<Rightarrow> ('s, error + 'a) eff" where
  "attempt m = (\<lambda>s. case m s of
     (Ok a, t) \<Rightarrow> (Ok (Inr a), t)
   | (Err e, t) \<Rightarrow> (Ok (Inl e), t)
   | (Panic p, t) \<Rightarrow> (Panic p, t)
   | (Diverge, t) \<Rightarrow> (Diverge, t))"

text \<open>\<open>assert!\<close>, \<open>Option::expect\<close> and \<open>Result::unwrap\<close>.\<close>

definition ensure :: "string \<Rightarrow> bool \<Rightarrow> ('s, unit) eff" where
  "ensure p b = (if b then ret () else panic p)"

definition expect :: "string \<Rightarrow> 'a option \<Rightarrow> ('s, 'a) eff" where
  "expect p x = (case x of Some a \<Rightarrow> ret a | None \<Rightarrow> panic p)"

definition unwrap :: "('s, 'a) eff \<Rightarrow> ('s, 'a) eff" where
  "unwrap m = (\<lambda>s. case m s of
     (Err e, t) \<Rightarrow> (Panic e, t)
   | (Ok a, t) \<Rightarrow> (Ok a, t)
   | (Panic p, t) \<Rightarrow> (Panic p, t)
   | (Diverge, t) \<Rightarrow> (Diverge, t))"

text \<open>A \<open>for\<close> loop over a list, and an operation on a component of a larger state.\<close>

primrec for_each :: "'x list \<Rightarrow> ('x \<Rightarrow> ('s, unit) eff) \<Rightarrow> ('s, unit) eff" where
  "for_each [] f = ret ()"
| "for_each (x # xs) f = thn (f x) (for_each xs f)"

definition zoom :: "('s \<Rightarrow> 't) \<Rightarrow> ('t \<Rightarrow> 's \<Rightarrow> 's) \<Rightarrow> ('t, 'a) eff \<Rightarrow> ('s, 'a) eff" where
  "zoom get put m = (\<lambda>s. case m (get s) of (r, t) \<Rightarrow> (r, put t s))"

text \<open>An answer computed without the state.\<close>

definition answer :: "'a outcome \<Rightarrow> ('s, 'a) eff" where
  "answer r = (\<lambda>s. (r, s))"

text \<open>
  A call to the operating system or another party outside the program: on a state of its own
  it answers an error or a value, and never panics.
\<close>

type_synonym ('s, 'a) call = "'s \<Rightarrow> (error + 'a) \<times> 's"

definition from_call :: "('s, 'a) call \<Rightarrow> ('s, 'a) eff" where
  "from_call c = (\<lambda>s. case c s of (Inl e, t) \<Rightarrow> (Err e, t) | (Inr a, t) \<Rightarrow> (Ok a, t))"

named_theorems eff_defs "the effect combinators, unfolded to evaluate a run"

lemmas combinator_defs [eff_defs] =
  ret_def fail_def panic_def diverge_def bnd_def thn_def gets_def upd_def ensure_def
  expect_def unwrap_def zoom_def answer_def from_call_def attempt_def

lemma thn_thn: "thn (thn m n) k = thn m (thn n k)"
  by (auto simp: thn_def bnd_def fun_eq_iff split: prod.split outcome.split)

lemma bnd_bnd: "bnd (bnd m f) g = bnd m (\<lambda>a. bnd (f a) g)"
  by (rule ext) (simp add: bnd_def split: prod.split outcome.split)

lemma bnd_thn: "bnd (thn m n) f = thn m (bnd n f)"
  by (auto simp: thn_def bnd_def fun_eq_iff split: prod.split outcome.split)

lemma bnd_ret: "bnd (ret a) f = f a"
  by (simp add: bnd_def ret_def)

lemma bnd_OkD: "bnd m f s = (Ok a, t) \<Longrightarrow> \<exists>b u. m s = (Ok b, u) \<and> f b u = (Ok a, t)"
  by (auto simp: bnd_def split: prod.splits outcome.splits)

lemma thn_OkD: "thn m n s = (Ok a, t) \<Longrightarrow> \<exists>b u. m s = (Ok b, u) \<and> n u = (Ok a, t)"
  unfolding thn_def by (rule bnd_OkD)

section \<open>Weakest preconditions\<close>

text \<open>
  \<open>wp m Q E P s\<close>: run from \<open>s\<close>, \<open>m\<close> answers (it does not run out of fuel), a value and the
  state left satisfy \<open>Q\<close>, an \<open>Err\<close> and the state left satisfy \<open>E\<close>, a panic and the state
  left satisfy \<open>P\<close>. It is a total-correctness statement for all three endings.
\<close>

definition wp :: "('s, 'a) eff \<Rightarrow> ('a \<Rightarrow> 's \<Rightarrow> bool) \<Rightarrow> (error \<Rightarrow> 's \<Rightarrow> bool) \<Rightarrow>
    (string \<Rightarrow> 's \<Rightarrow> bool) \<Rightarrow> 's \<Rightarrow> bool" where
  "wp m Q E P s = (case m s of
     (Ok a, t) \<Rightarrow> Q a t
   | (Err e, t) \<Rightarrow> E e t
   | (Panic p, t) \<Rightarrow> P p t
   | (Diverge, t) \<Rightarrow> False)"

text \<open>
  \<open>returns m Q s\<close>: the run returns a value, with \<open>Q\<close>. \<open>no_panic m Q E s\<close>: it returns a value
  or an \<open>Err\<close>.
\<close>

abbreviation returns :: "('s, 'a) eff \<Rightarrow> ('a \<Rightarrow> 's \<Rightarrow> bool) \<Rightarrow> 's \<Rightarrow> bool" where
  "returns m Q s \<equiv> wp m Q (\<lambda>_ _. False) (\<lambda>_ _. False) s"

abbreviation no_panic :: "('s, 'a) eff \<Rightarrow> ('a \<Rightarrow> 's \<Rightarrow> bool) \<Rightarrow> (error \<Rightarrow> 's \<Rightarrow> bool) \<Rightarrow> 's \<Rightarrow> bool" where
  "no_panic m Q E s \<equiv> wp m Q E (\<lambda>_ _. False) s"

named_theorems wp_simps "weakest preconditions of the combinators, as equations"

lemma wp_ret [wp_simps]: "wp (ret a) Q E P s = Q a s"
  by (simp add: wp_def ret_def)

lemma wp_fail [wp_simps]: "wp (fail e) Q E P s = E e s"
  by (simp add: wp_def fail_def)

lemma wp_panic [wp_simps]: "wp (panic p) Q E P s = P p s"
  by (simp add: wp_def panic_def)

lemma wp_diverge [wp_simps]: "wp diverge Q E P s = False"
  by (simp add: wp_def diverge_def)

lemma wp_bnd [wp_simps]: "wp (bnd m f) Q E P s = wp m (\<lambda>a. wp (f a) Q E P) E P s"
  by (simp add: wp_def bnd_def split: prod.splits outcome.splits)

lemma wp_thn [wp_simps]: "wp (thn m n) Q E P s = wp m (\<lambda>_. wp n Q E P) E P s"
  by (simp add: thn_def wp_bnd)

lemma wp_gets [wp_simps]: "wp (gets f) Q E P s = Q (f s) s"
  by (simp add: wp_def gets_def)

lemma wp_upd [wp_simps]: "wp (upd f) Q E P s = Q () (f s)"
  by (simp add: wp_def upd_def)

lemma wp_ensure [wp_simps]: "wp (ensure p b) Q E P s = (if b then Q () s else P p s)"
  by (simp add: ensure_def wp_simps)

lemma wp_expect [wp_simps]:
  "wp (expect p x) Q E P s = (case x of Some a \<Rightarrow> Q a s | None \<Rightarrow> P p s)"
  by (simp add: expect_def wp_simps split: option.splits)

lemma wp_unwrap [wp_simps]: "wp (unwrap m) Q E P s = wp m Q P P s"
  by (simp add: wp_def unwrap_def split: prod.splits outcome.splits)

lemma wp_attempt [wp_simps]: "wp (attempt m) Q E P s = wp m (\<lambda>a. Q (Inr a)) (\<lambda>e. Q (Inl e)) P s"
  by (simp add: wp_def attempt_def split: prod.splits outcome.splits)

lemma wp_zoom [wp_simps]:
  "wp (zoom get put m) Q E P s =
     wp m (\<lambda>a t. Q a (put t s)) (\<lambda>e t. E e (put t s)) (\<lambda>p t. P p (put t s)) (get s)"
  by (simp add: wp_def zoom_def split: prod.splits outcome.splits)

lemma wp_answer [wp_simps]:
  "wp (answer r) Q E P s = (case r of
     Ok a \<Rightarrow> Q a s | Err e \<Rightarrow> E e s | Panic p \<Rightarrow> P p s | Diverge \<Rightarrow> False)"
  by (simp add: wp_def answer_def split: outcome.splits)

lemma wp_from_call [wp_simps]:
  "wp (from_call c) Q E P s = (case c s of (Inl e, t) \<Rightarrow> E e t | (Inr a, t) \<Rightarrow> Q a t)"
  by (simp add: wp_def from_call_def split: prod.splits sum.splits)

lemma wp_if [wp_simps]:
  "wp (if b then m else n) Q E P s = (if b then wp m Q E P s else wp n Q E P s)"
  by simp

lemma wp_answers: "wp m (\<lambda>_ _. True) (\<lambda>_ _. True) (\<lambda>_ _. True) s \<longleftrightarrow> fst (m s) \<noteq> Diverge"
  by (simp add: wp_def split: prod.split outcome.split)

lemma wp_mono:
  assumes "wp m Q E P s"
    and "\<And>a t. Q a t \<Longrightarrow> Q' a t" and "\<And>e t. E e t \<Longrightarrow> E' e t" and "\<And>p t. P p t \<Longrightarrow> P' p t"
  shows "wp m Q' E' P' s"
  using assms by (auto simp: wp_def split: prod.splits outcome.splits)

lemma wp_conj:
  "wp m Q E P s \<Longrightarrow> wp m Q' E' P' s \<Longrightarrow>
   wp m (\<lambda>a t. Q a t \<and> Q' a t) (\<lambda>e t. E e t \<and> E' e t) (\<lambda>p t. P p t \<and> P' p t) s"
  by (auto simp: wp_def split: prod.splits outcome.splits)

lemma wp_runD: "wp m Q E P s \<Longrightarrow> m s = (Ok a, t) \<Longrightarrow> Q a t"
  by (simp add: wp_def)

lemma returnsD: "returns m Q s \<Longrightarrow> \<exists>a t. m s = (Ok a, t) \<and> Q a t"
  by (auto simp: wp_def split: prod.splits outcome.splits)

text \<open>Sequential composition, with what the first part establishes given.\<close>

lemma wp_bndI:
  assumes "wp m R E' P' s" and "\<And>a t. R a t \<Longrightarrow> wp (f a) Q E P t"
    and "\<And>e t. E' e t \<Longrightarrow> E e t" and "\<And>p t. P' p t \<Longrightarrow> P p t"
  shows "wp (bnd m f) Q E P s"
  unfolding wp_bnd using assms by (rule wp_mono)

lemma wp_bnd_pairI:
  assumes "wp m (\<lambda>(a, b). R a b) E' P' s" and "\<And>a b t. R a b t \<Longrightarrow> wp (f a b) Q E P t"
    and "\<And>e t. E' e t \<Longrightarrow> E e t" and "\<And>p t. P' p t \<Longrightarrow> P p t"
  shows "wp (bnd m (\<lambda>(a, b). f a b)) Q E P s"
  by (rule wp_bndI [OF assms(1)]) (use assms(2-4) in auto)

text \<open>The rule for a \<open>for\<close> loop: an invariant on the elements still to come.\<close>

lemma wp_for_each:
  assumes step: "\<And>x ys s. I (x # ys) s \<Longrightarrow> wp (f x) (\<lambda>_. I ys) E P s"
    and "I xs s"
  shows "wp (for_each xs f) (\<lambda>_. I []) E P s"
  using assms(2)
proof (induction xs arbitrary: s)
  case Nil
  then show ?case by (simp add: wp_simps)
next
  case (Cons x xs)
  from step [OF Cons.prems] show ?case
    by (auto simp: wp_simps intro: wp_mono dest: Cons.IH)
qed

lemma wp_for_each_upd [wp_simps]:
  "wp (for_each xs (\<lambda>x. upd (f x))) Q E P s = Q () (fold f xs s)"
  by (induction xs arbitrary: s) (simp_all add: wp_simps)

section \<open>What an operation leaves alone\<close>

text \<open>
  Wherever an operation ends, also in an error or a panic, the state it leaves is related to the
  one it found. For a relation that is reflexive and transitive this goes through the combinators.
\<close>

definition within :: "('s \<Rightarrow> 's \<Rightarrow> bool) \<Rightarrow> ('s, 'a) eff \<Rightarrow> bool" where
  "within R m \<longleftrightarrow> (\<forall>s. R s (snd (m s)))"

lemma withinD: "within R m \<Longrightarrow> m s = (r, t) \<Longrightarrow> R s t"
  unfolding within_def by (metis snd_conv)

locale frame =
  fixes R :: "'s \<Rightarrow> 's \<Rightarrow> bool"
  assumes frame_refl: "R s s" and frame_trans: "R s t \<Longrightarrow> R t u \<Longrightarrow> R s u"
begin

lemma within_basic:
  "within R (ret a)" "within R (fail e)" "within R (panic p)" "within R diverge" "within R (gets f)" "within R (ensure p b)"
  "within R (expect p x)" "within R (answer r)"
  by (simp_all add: within_def frame_refl ret_def fail_def panic_def diverge_def gets_def ensure_def expect_def answer_def
      split: option.split)

lemma within_bnd: "within R m \<Longrightarrow> (\<And>a. within R (f a)) \<Longrightarrow> within R (bnd m f)"
  unfolding within_def bnd_def
proof
  fix s
  assume m: "\<forall>s. R s (snd (m s))" and f: "\<And>a. \<forall>s. R s (snd (f a s))"
  obtain r t where run: "m s = (r, t)" by fastforce
  with m have "R s t" by (metis snd_conv)
  with run f frame_trans [of s t] show "R s (snd (case m s of (Ok a, t) \<Rightarrow> f a t | (Err e, t) \<Rightarrow> (Err e, t)
      | (Panic p, t) \<Rightarrow> (Panic p, t) | (Diverge, t) \<Rightarrow> (Diverge, t)))"
    by (cases r) auto
qed

lemma within_thn: "within R m \<Longrightarrow> within R k \<Longrightarrow> within R (thn m k)"
  unfolding thn_def by (rule within_bnd)

lemma within_same: "within R m \<Longrightarrow> within R (unwrap m)" "within R m \<Longrightarrow> within R (attempt m)"
  unfolding within_def by (auto simp: unwrap_def attempt_def split: prod.split outcome.split dest: spec)
    (metis snd_conv)+

lemma within_upd: "(\<And>s. R s (f s)) \<Longrightarrow> within R (upd f)"
  by (simp add: within_def upd_def)

lemma within_for_each: "(\<And>x. within R (f x)) \<Longrightarrow> within R (for_each xs f)"
  by (induction xs) (simp_all add: within_basic within_thn)

lemmas within_intros = within_basic within_bnd within_thn within_same within_upd within_for_each

end

section \<open>Lists and maps\<close>

lemma map_upd_fresh_eq: "m k = None \<Longrightarrow> (m(k \<mapsto> v))(k := None) = m"
  by (auto simp: fun_eq_iff)

lemma map_le_upd_fresh: "m k = None \<Longrightarrow> m \<subseteq>\<^sub>m m(k \<mapsto> v)"
  by (auto simp: map_le_def)

lemma length_filter_key_less:
  "k \<in> fst ` set xs \<Longrightarrow> length (filter (\<lambda>p. fst p \<noteq> k) xs) < length xs"
  by (induction xs) (auto simp: le_imp_less_Suc)

lemma map_of_filter_key:
  "map_of (filter (\<lambda>p. fst p \<noteq> k) xs) = (map_of xs)(k := None)"
  by (induction xs) (auto simp: fun_eq_iff)

end
