(* ===== verification/Rust_String.thy ===== *)
theory Rust_String
  imports Prelude "HOL-Library.Char_ord"
begin

text \<open>
  Rust's \<open>&str\<close> as the bytes of its UTF-8 encoding: which byte sequences are well formed, where
  the character boundaries are, and slicing, which panics off a boundary; and what is displayed of a path. The parser slices
  its input at byte positions, \<open>one_loop\<close> checks a directory name with \<open>String::from_utf8\<close>.
\<close>

section \<open>UTF-8\<close>

abbreviation code :: "char \<Rightarrow> nat" where
  "code c \<equiv> of_char c"

text \<open>A number as \<open>{}\<close> prints it.\<close>

fun show_nat :: "nat \<Rightarrow> string" where
  "show_nat n = (if n < 10 then [char_of (48 + n)] else show_nat (n div 10) @ [char_of (48 + n mod 10)])"

declare show_nat.simps [simp del]

definition cont_byte :: "char \<Rightarrow> bool" where
  "cont_byte c \<longleftrightarrow> 128 \<le> code c \<and> code c < 192"

definition in_range :: "nat \<Rightarrow> nat \<Rightarrow> char \<Rightarrow> bool" where
  "in_range lo hi c \<longleftrightarrow> lo \<le> code c \<and> code c \<le> hi"

text \<open>The table of well-formed sequences: one, two, three and four bytes.\<close>

definition two_byte :: "char \<Rightarrow> char \<Rightarrow> bool" where
  "two_byte a b \<longleftrightarrow> in_range 194 223 a \<and> cont_byte b"

definition three_byte :: "char \<Rightarrow> char \<Rightarrow> char \<Rightarrow> bool" where
  "three_byte a b c \<longleftrightarrow> cont_byte c \<and>
     (code a = 224 \<and> in_range 160 191 b \<or>
      (in_range 225 236 a \<or> in_range 238 239 a) \<and> cont_byte b \<or>
      code a = 237 \<and> in_range 128 159 b)"

definition four_byte :: "char \<Rightarrow> char \<Rightarrow> char \<Rightarrow> char \<Rightarrow> bool" where
  "four_byte a b c d \<longleftrightarrow> cont_byte c \<and> cont_byte d \<and>
     (code a = 240 \<and> in_range 144 191 b \<or>
      in_range 241 243 a \<and> cont_byte b \<or>
      code a = 244 \<and> in_range 128 143 b)"

fun valid_utf8 :: "string \<Rightarrow> bool" where
  "valid_utf8 [] = True"
| "valid_utf8 (a # s) =
     (if code a < 128 then valid_utf8 s
      else case s of
        [] \<Rightarrow> False
      | b # s2 \<Rightarrow>
          if two_byte a b then valid_utf8 s2
          else case s2 of
            [] \<Rightarrow> False
          | c # s3 \<Rightarrow>
              if three_byte a b c then valid_utf8 s3
              else case s3 of
                [] \<Rightarrow> False
              | d # s4 \<Rightarrow> four_byte a b c d \<and> valid_utf8 s4)"

section \<open>Boundaries and slices\<close>

definition is_char_boundary :: "string \<Rightarrow> nat \<Rightarrow> bool" where
  "is_char_boundary s i \<longleftrightarrow> i = 0 \<or> i = length s \<or> (i < length s \<and> \<not> cont_byte (s ! i))"

text \<open>\<open>s[a..b]\<close>: \<open>None\<close> is the panic.\<close>

definition str_slice :: "string \<Rightarrow> nat \<Rightarrow> nat \<Rightarrow> string option" where
  "str_slice s a b =
     (if a \<le> b \<and> b \<le> length s \<and> is_char_boundary s a \<and> is_char_boundary s b
      then Some (take (b - a) (drop a s)) else None)"

text \<open>
  What slicing next to an ASCII byte needs of the string: no continuation byte comes first or
  follows an ASCII byte. Every well-formed string has it.
\<close>

fun ascii_bounded :: "string \<Rightarrow> bool" where
  "ascii_bounded [] = True"
| "ascii_bounded [a] = True"
| "ascii_bounded (a # b # s) = ((code a < 128 \<longrightarrow> \<not> cont_byte b) \<and> ascii_bounded (b # s))"

definition boundary_safe :: "string \<Rightarrow> bool" where
  "boundary_safe s \<longleftrightarrow> ascii_bounded s \<and> (s = [] \<or> \<not> cont_byte (hd s))"

lemma ascii_bounded_Cons:
  "ascii_bounded (a # s) \<longleftrightarrow> (code a < 128 \<longrightarrow> s = [] \<or> \<not> cont_byte (hd s)) \<and> ascii_bounded s"
  by (cases s) auto

lemma valid_utf8_Cons_cases:
  assumes "valid_utf8 (a # t)"
  obtains (one) "code a < 128" "valid_utf8 t"
  | (two) b s2 where "t = b # s2" "two_byte a b" "valid_utf8 s2"
  | (three) b c s3 where "t = b # c # s3" "three_byte a b c" "valid_utf8 s3"
  | (four) b c d s4 where "t = b # c # d # s4" "four_byte a b c d" "valid_utf8 s4"
proof (cases "code a < 128")
  case True
  with assms one show thesis by simp
next
  case a: False
  with assms obtain b s2 where b: "t = b # s2" by (cases t) auto
  show thesis
  proof (cases "two_byte a b")
    case True
    with a b assms two show thesis by simp
  next
    case b2: False
    with a b assms obtain c s3 where c: "s2 = c # s3" by (cases s2) auto
    show thesis
    proof (cases "three_byte a b c")
      case True
      with a b b2 c assms three show thesis by simp
    next
      case False
      with a b b2 c assms obtain d s4 where "s3 = d # s4" by (cases s3) auto
      with False a b b2 c assms four show thesis by simp
    qed
  qed
qed

lemmas byte_defs = cont_byte_def in_range_def two_byte_def three_byte_def four_byte_def

lemma valid_utf8_boundary_safe: "valid_utf8 s \<Longrightarrow> boundary_safe s"
proof (induction s rule: length_induct)
  case (1 s)
  have IH: "boundary_safe u" if "valid_utf8 u" "length u < length s" for u
    using 1 that by blast
  show ?case
  proof (cases s)
    case Nil
    then show ?thesis by (simp add: boundary_safe_def)
  next
    case (Cons a t)
    from 1(2) have "valid_utf8 (a # t)" by (simp add: Cons)
    then show ?thesis
    proof (cases rule: valid_utf8_Cons_cases)
      case one
      with IH [of t] Cons show ?thesis
        by (auto simp: boundary_safe_def ascii_bounded_Cons cont_byte_def)
    next
      case (two b s2)
      then have "\<not> code a < 128" "\<not> code b < 128" "\<not> cont_byte a" by (auto simp: byte_defs)
      with two IH [of s2] Cons show ?thesis by (simp add: boundary_safe_def ascii_bounded_Cons)
    next
      case (three b c s3)
      then have "\<not> code a < 128" "\<not> code b < 128" "\<not> code c < 128" "\<not> cont_byte a"
        by (auto simp: byte_defs)
      with three IH [of s3] Cons show ?thesis by (simp add: boundary_safe_def ascii_bounded_Cons)
    next
      case (four b c d s4)
      then have "\<not> code a < 128" "\<not> code b < 128" "\<not> code c < 128" "\<not> code d < 128" "\<not> cont_byte a"
        by (auto simp: byte_defs)
      with four IH [of s4] Cons show ?thesis by (simp add: boundary_safe_def ascii_bounded_Cons)
    qed
  qed
qed

lemma ascii_bounded_nth:
  "ascii_bounded s \<Longrightarrow> Suc i < length s \<Longrightarrow> code (s ! i) < 128 \<Longrightarrow> \<not> cont_byte (s ! Suc i)"
  by (induction s arbitrary: i rule: ascii_bounded.induct) (auto simp: nth_Cons split: nat.splits)

lemma boundary_at_ascii:
  "i < length s \<Longrightarrow> code (s ! i) < 128 \<Longrightarrow> is_char_boundary s i"
  by (simp add: is_char_boundary_def cont_byte_def)

lemma boundary_after_ascii:
  "ascii_bounded s \<Longrightarrow> i < length s \<Longrightarrow> code (s ! i) < 128 \<Longrightarrow> is_char_boundary s (Suc i)"
  using ascii_bounded_nth [of s i] by (auto simp: is_char_boundary_def)

lemma ascii_bounded_append:
  "ascii_bounded (s @ t) \<longleftrightarrow> ascii_bounded s \<and> ascii_bounded t \<and>
     (s \<noteq> [] \<and> t \<noteq> [] \<and> code (last s) < 128 \<longrightarrow> \<not> cont_byte (hd t))"
  by (induction s) (auto simp: ascii_bounded_Cons hd_append)

lemma ascii_bounded_drop: "ascii_bounded s \<Longrightarrow> ascii_bounded (drop n s)"
  using ascii_bounded_append [of "take n s" "drop n s"] by simp

lemma ascii_bounded_take: "ascii_bounded s \<Longrightarrow> ascii_bounded (take n s)"
  using ascii_bounded_append [of "take n s" "drop n s"] by simp

section \<open>Lossy decoding\<close>

text \<open>
  What \<open>{}\<close> prints of a path's \<open>display()\<close>: its bytes, where each longest beginning of a character
  that does not go on as one, and each byte that begins none, becomes U+FFFD.
\<close>

definition replacement :: string where
  "replacement = [CHR 0xEF, CHR 0xBF, CHR 0xBD]"

definition opens_three :: "char \<Rightarrow> char \<Rightarrow> bool" where
  "opens_three a b \<longleftrightarrow> code a = 224 \<and> in_range 160 191 b \<or>
     (in_range 225 236 a \<or> in_range 238 239 a) \<and> cont_byte b \<or> code a = 237 \<and> in_range 128 159 b"

definition opens_four :: "char \<Rightarrow> char \<Rightarrow> bool" where
  "opens_four a b \<longleftrightarrow> code a = 240 \<and> in_range 144 191 b \<or> in_range 241 243 a \<and> cont_byte b \<or>
     code a = 244 \<and> in_range 128 143 b"

fun lossy :: "string \<Rightarrow> string" where
  "lossy [] = []"
| "lossy (a # s) =
     (if code a < 128 then a # lossy s
      else case s of
        [] \<Rightarrow> replacement
      | b # s2 \<Rightarrow>
          if two_byte a b then a # b # lossy s2
          else if \<not> opens_three a b \<and> \<not> opens_four a b then replacement @ lossy s
          else case s2 of
            [] \<Rightarrow> replacement
          | c # s3 \<Rightarrow>
              if \<not> cont_byte c then replacement @ lossy s2
              else if opens_three a b then a # b # c # lossy s3
              else case s3 of
                [] \<Rightarrow> replacement
              | d # s4 \<Rightarrow> if cont_byte d then a # b # c # d # lossy s4 else replacement @ lossy s3)"

lemma three_byte_opens: "three_byte a b c \<longleftrightarrow> cont_byte c \<and> opens_three a b"
  by (simp add: three_byte_def opens_three_def)

lemma four_byte_opens: "four_byte a b c d \<longleftrightarrow> cont_byte c \<and> cont_byte d \<and> opens_four a b"
  by (simp add: four_byte_def opens_four_def)

lemma opens_apart: "opens_three a b \<Longrightarrow> \<not> two_byte a b" "opens_four a b \<Longrightarrow> \<not> two_byte a b"
  "opens_four a b \<Longrightarrow> \<not> opens_three a b" "two_byte a b \<Longrightarrow> 128 \<le> code a"
  "opens_three a b \<Longrightarrow> 128 \<le> code a" "opens_four a b \<Longrightarrow> 128 \<le> code a"
  by (auto simp: opens_three_def opens_four_def two_byte_def in_range_def)

lemma lossy_valid: "valid_utf8 s \<Longrightarrow> lossy s = s"
proof (induction s rule: length_induct)
  case (1 s)
  show ?case
  proof (cases s)
    case (Cons a t)
    with 1 have IH: "valid_utf8 u \<Longrightarrow> length u \<le> length t \<Longrightarrow> lossy u = u" for u by simp
    from 1(2) Cons have "valid_utf8 (a # t)" by simp
    then show ?thesis
    proof (cases rule: valid_utf8_Cons_cases)
      case (three b c s3)
      with Cons IH [of s3] opens_apart(1,5) [of a b] show ?thesis by (simp add: three_byte_opens)
    next
      case (four b c d s4)
      with Cons IH [of s4] opens_apart(2,3,6) [of a b] show ?thesis by (simp add: four_byte_opens)
    next
      case one
      with Cons IH [of t] show ?thesis by simp
    next
      case (two b s2)
      with Cons IH [of s2] opens_apart(4) [of a b] show ?thesis by simp
    qed
  qed simp
qed

lemma lossy_examples: "lossy ''/a'' = ''/a''" "lossy [CHR 0xFF, CHR ''a''] = replacement @ ''a''"
  "lossy [CHR 0xE2, CHR 0x82, CHR ''a''] = replacement @ ''a''" "lossy [CHR 0xE0, CHR 0x80] = replacement @ replacement"
  by (code_simp)+

end
