(* ===== verification/Parse.thy ===== *)
theory Parse
  imports Rust_String
begin

text \<open>
  \<open>frontend/src/parse.rs\<close>: the abstract syntax of a command line and the recursive-descent
  parser over a byte position. The loops of the code are recursive functions on the \<open>Consume\<close>
  state; each comes with the fact that it advances, which its callers terminate by.
\<close>

section \<open>Abstract syntax\<close>

datatype stream = Stdout | Stderr

datatype shell_word = Normal string

definition expand_string :: "shell_word \<Rightarrow> string" where
  "expand_string w = (case w of Normal s \<Rightarrow> s)"

datatype sequence_type = Wait | And | Or

datatype shell_cmd = ShellCmd (cmd_remote: "string option") (cmd_words: "shell_word list")

datatype ast =
    Empty
  | Cmd shell_cmd
  | Sequence ast "sequence_clause list"
  | Redirect ast "redirect_clause list"
and sequence_clause = SequenceClause sequence_type ast
and redirect_clause = RedirectClause stream target
and target =
    File shell_word
  | Command ast

section \<open>The input\<close>

text \<open>The fields \<open>chars\<close> and \<open>text\<close> of \<open>Consume\<close> are one string, as characters and as bytes.\<close>

record consume =
  chars :: string
  pos :: nat

definition cur :: "consume \<Rightarrow> char option" where
  "cur i = (if pos i < length (chars i) then Some (chars i ! pos i) else None)"

definition consume_next :: "(consume, char option) eff" where
  "consume_next i = (if pos i < length (chars i)
     then (Ok (Some (chars i ! pos i)), i\<lparr>pos := pos i + 1\<rparr>)
     else (Ok None, i))"

function skip_whitespace :: "(consume, unit) eff" where
  "skip_whitespace i = (case cur i of
     Some c \<Rightarrow> if c \<noteq> CHR '' '' then (Ok (), i) else skip_whitespace (i\<lparr>pos := pos i + 1\<rparr>)
   | None \<Rightarrow> (Ok (), i))"
  by pat_completeness auto

termination
  by (relation "measure (\<lambda>i. length (chars i) - pos i)") (auto simp: cur_def split: if_splits)

declare skip_whitespace.simps [simp del]

text \<open>The loop of \<open>parse_quote\<close>: up to and including the closing quote.\<close>

function quote_loop :: "(consume, unit) eff" where
  "quote_loop i = (case consume_next i of
     (Ok (Some c), i') \<Rightarrow> if c = CHR 0x22 then (Ok (), i') else quote_loop i'
   | (_, i') \<Rightarrow> (Panic ''explicit panic'', i'))"
  by pat_completeness auto

termination
  by (relation "measure (\<lambda>i. length (chars i) - pos i)") (auto simp: consume_next_def split: if_splits)

declare quote_loop.simps [simp del]

definition slice_word :: "nat \<Rightarrow> nat \<Rightarrow> (consume, shell_word) eff" where
  "slice_word a b = bnd (gets chars) (\<lambda>cs.
     bnd (expect ''str slice'' (str_slice cs a b)) (\<lambda>s. ret (Normal s)))"

definition parse_quote :: "(consume, shell_word) eff" where
  "parse_quote = bnd consume_next (\<lambda>c.
     thn (ensure ''next == quote'' (c = Some CHR 0x22))
     (bnd (gets pos) (\<lambda>begin.
     thn quote_loop
     (bnd (gets pos) (\<lambda>p. slice_word begin (p - 1))))))"

definition special :: "char \<Rightarrow> bool" where
  "special c \<longleftrightarrow> c = CHR '';'' \<or> c = CHR ''|'' \<or> c = CHR ''>''"

text \<open>The loop of \<open>parse_word\<close>.\<close>

function word_loop :: "(consume, unit) eff" where
  "word_loop i = (case cur i of
     Some ch \<Rightarrow>
       if ch = CHR 0x22 then (Panic ''explicit panic'', i)
       else if ch = CHR '' '' \<or> special ch then (Ok (), i)
       else word_loop (snd (consume_next i))
   | None \<Rightarrow> (Ok (), i))"
  by pat_completeness auto

termination
  by (relation "measure (\<lambda>i. length (chars i) - pos i)")
    (auto simp: cur_def consume_next_def split: if_splits)

declare word_loop.simps [simp del]

definition parse_word :: "(consume, shell_word) eff" where
  "parse_word = bnd (gets cur) (\<lambda>c.
     if c = Some CHR 0x22 then parse_quote
     else bnd (gets pos) (\<lambda>begin.
       thn word_loop
       (bnd (gets pos) (\<lambda>p. slice_word begin p))))"

section \<open>Progress\<close>

text \<open>\<open>advances i i'\<close>: the same input, at or after the position.\<close>

definition advances :: "consume \<Rightarrow> consume \<Rightarrow> bool" where
  "advances i i' \<longleftrightarrow> chars i' = chars i \<and> pos i \<le> pos i' \<and>
     (pos i \<le> length (chars i) \<longrightarrow> pos i' \<le> length (chars i))"

lemma advances_refl [simp]: "advances i i"
  by (simp add: advances_def)

lemma advances_trans: "advances i j \<Longrightarrow> advances j k \<Longrightarrow> advances i k"
  by (auto simp: advances_def)

lemma skip_whitespace_advances:
  "advances i (snd (skip_whitespace i)) \<and> fst (skip_whitespace i) = Ok () \<and>
   cur (snd (skip_whitespace i)) \<noteq> Some CHR '' ''"
proof (induction i rule: skip_whitespace.induct)
  case (1 i)
  show ?case
    using 1 by (subst (1 2 3) skip_whitespace.simps)
      (auto simp: cur_def advances_def split: option.splits if_splits)
qed

lemma quote_loop_unfold:
  "quote_loop i = (case cur i of
     Some c \<Rightarrow> if c = CHR 0x22 then (Ok (), i\<lparr>pos := pos i + 1\<rparr>) else quote_loop (i\<lparr>pos := pos i + 1\<rparr>)
   | None \<Rightarrow> (Panic ''explicit panic'', i))"
  by (subst quote_loop.simps) (simp add: cur_def consume_next_def)

lemma quote_loop_advances: "advances i (snd (quote_loop i))"
proof (induction i rule: quote_loop.induct)
  case (1 i)
  show ?case
  proof (cases "cur i")
    case None
    then show ?thesis by (simp add: quote_loop_unfold)
  next
    case (Some c)
    let ?j = "i\<lparr>pos := pos i + 1\<rparr>"
    from Some have i: "pos i < length (chars i)" "c = chars i ! pos i"
      by (auto simp: cur_def split: if_splits)
    then have ij: "advances i ?j" by (simp add: advances_def)
    show ?thesis
    proof (cases "c = CHR 0x22")
      case True
      with Some ij show ?thesis by (subst quote_loop_unfold) simp
    next
      case False
      with 1 i have "advances ?j (snd (quote_loop ?j))" by (simp add: consume_next_def)
      with ij have "advances i (snd (quote_loop ?j))" by (rule advances_trans)
      with Some False show ?thesis by (subst quote_loop_unfold) simp
    qed
  qed
qed

lemma word_loop_advances: "advances i (snd (word_loop i))"
proof (induction i rule: word_loop.induct)
  case (1 i)
  show ?case
    using 1 by (subst word_loop.simps)
      (auto simp: cur_def consume_next_def advances_def split: option.splits if_splits)
qed

lemma slice_word_advances: "slice_word a b i = (r, i') \<Longrightarrow> i' = i"
  by (auto simp: slice_word_def eff_defs split: option.splits)

lemma parse_quote_advances:
  assumes "parse_quote i = (r, i')" and "cur i = Some CHR 0x22"
  shows "advances i i' \<and> pos i < pos i'"
proof -
  let ?j = "i\<lparr>pos := pos i + 1\<rparr>"
  obtain q k where q: "quote_loop ?j = (q, k)" by fastforce
  with quote_loop_advances [of ?j] have "advances ?j k" by simp
  moreover have "i' = k"
    using assms q by (auto simp: parse_quote_def consume_next_def cur_def eff_defs
        split: if_splits outcome.splits dest: slice_word_advances)
  moreover have "pos i < length (chars i)" using assms(2) by (simp add: cur_def split: if_splits)
  ultimately show ?thesis by (auto simp: advances_def)
qed

lemma word_loop_stops:
  assumes "cur i = Some c" and "c \<noteq> CHR '' ''" and "\<not> special c" and "c \<noteq> CHR 0x22"
  shows "pos i < pos (snd (word_loop i))"
proof -
  have "word_loop i = word_loop (i\<lparr>pos := pos i + 1\<rparr>)"
    using assms by (subst word_loop.simps) (auto simp: consume_next_def cur_def split: if_splits)
  with word_loop_advances [of "i\<lparr>pos := pos i + 1\<rparr>"] show ?thesis
    by (simp add: advances_def)
qed

lemma parse_word_bare:
  assumes "parse_word i = (r, i')" and "cur i \<noteq> Some CHR 0x22"
  shows "i' = snd (word_loop i)"
  using assms by (auto simp: parse_word_def eff_defs split: prod.splits outcome.splits
      dest: slice_word_advances)

lemma parse_word_advances:
  assumes "parse_word i = (r, i')"
  shows "advances i i'"
proof (cases "cur i = Some CHR 0x22")
  case True
  with assms have "parse_quote i = (r, i')" by (simp add: parse_word_def eff_defs)
  with True show ?thesis using parse_quote_advances by blast
next
  case False
  from parse_word_bare [OF assms False] word_loop_advances [of i] show ?thesis by simp
qed

lemma parse_word_progress:
  assumes "parse_word i = (r, i')" and "cur i = Some c" and "c \<noteq> CHR '' ''" and "\<not> special c"
  shows "pos i < pos i'"
proof (cases "c = CHR 0x22")
  case True
  with assms have "parse_quote i = (r, i')" by (simp add: parse_word_def eff_defs)
  with True assms(2) show ?thesis using parse_quote_advances by blast
next
  case False
  with assms(1,2) have "i' = snd (word_loop i)" by (intro parse_word_bare) auto
  with word_loop_stops [OF assms(2-4) False] show ?thesis by simp
qed

section \<open>Commands, pipelines, sequences\<close>

lemma cmd_loop_smaller:
  assumes "skip_whitespace i = (u, j)" and "cur j = Some c" and "\<not> special c"
    and "parse_word j = (Ok w, k)"
  shows "length (chars k) - pos k < length (chars i) - pos i"
proof -
  have "advances i j" "c \<noteq> CHR '' ''"
    using skip_whitespace_advances [of i] assms(1,2) by auto
  moreover have "advances j k" "pos j < pos k"
    using parse_word_advances [OF assms(4)] parse_word_progress [OF assms(4,2) _ assms(3)]
      \<open>c \<noteq> CHR '' ''\<close> by auto
  moreover have "pos j < length (chars j)" using assms(2) by (simp add: cur_def split: if_splits)
  ultimately show ?thesis by (auto simp: advances_def)
qed

function parse_cmd_loop :: "shell_word list \<Rightarrow> (consume, shell_word list) eff" where
  "parse_cmd_loop children i = (case skip_whitespace i of (_, j) \<Rightarrow>
     (case cur j of
        None \<Rightarrow> (Ok children, j)
      | Some c \<Rightarrow>
          if special c then (Ok children, j)
          else (case parse_word j of
              (Ok w, k) \<Rightarrow> parse_cmd_loop (children @ [w]) k
            | (Err e, k) \<Rightarrow> (Err e, k)
            | (Panic p, k) \<Rightarrow> (Panic p, k)
            | (Diverge, k) \<Rightarrow> (Diverge, k))))"
  by pat_completeness auto

termination
  by (relation "measure (\<lambda>(ws, i). length (chars i) - pos i)") (auto dest: cmd_loop_smaller [OF sym _ _ sym])

declare parse_cmd_loop.simps [simp del]

definition parse_cmd :: "(consume, shell_cmd) eff" where
  "parse_cmd = bnd parse_word (\<lambda>w.
     bnd (parse_cmd_loop [w]) (\<lambda>children. ret (ShellCmd None children)))"

lemma parse_cmd_loop_advances:
  "parse_cmd_loop ws i = (r, i') \<Longrightarrow> advances i i'"
proof (induction ws i arbitrary: r rule: parse_cmd_loop.induct)
  case (1 ws i)
  obtain u j where j: "skip_whitespace i = (u, j)" by fastforce
  with skip_whitespace_advances [of i] have ij: "advances i j" by simp
  show ?case
  proof (cases "\<exists>c. cur j = Some c \<and> \<not> special c")
    case False
    with 1(2) j ij show ?thesis
      by (subst (asm) parse_cmd_loop.simps) (auto split: option.splits if_splits)
  next
    case True
    then obtain c where c: "cur j = Some c" "\<not> special c" by blast
    obtain q k where k: "parse_word j = (q, k)" by fastforce
    from parse_word_advances [OF k] ij have ik: "advances i k" by (rule advances_trans [rotated])
    show ?thesis
    proof (cases q)
      case (Ok w)
      with 1 j c k have "advances k i'"
        by (subst (asm) (2) parse_cmd_loop.simps) auto
      with ik show ?thesis by (rule advances_trans)
    qed (use 1(2) j c k ik in \<open>subst (asm) parse_cmd_loop.simps, auto\<close>)+
  qed
qed

lemma parse_cmd_advances:
  assumes "parse_cmd i = (r, i')"
  shows "advances i i'"
proof -
  obtain q j where j: "parse_word i = (q, j)" by fastforce
  then have ij: "advances i j" by (rule parse_word_advances)
  show ?thesis
  proof (cases q)
    case (Ok w)
    obtain s k where k: "parse_cmd_loop [w] j = (s, k)" by fastforce
    with assms j Ok have "i' = k" by (auto simp: parse_cmd_def eff_defs split: outcome.splits)
    with parse_cmd_loop_advances [OF k] ij show ?thesis by (auto intro: advances_trans)
  qed (use assms j ij in \<open>auto simp: parse_cmd_def eff_defs\<close>)
qed

text \<open>
  One turn of the loop of \<open>parse_pipe\<close>: \<open>Some\<close> is the clause it pushes, \<open>None\<close> leaves the loop.
\<close>

definition pipe_step :: "(consume, redirect_clause option) eff" where
  "pipe_step = thn skip_whitespace (bnd (gets cur) (\<lambda>c. case c of
     None \<Rightarrow> ret None
   | Some ch \<Rightarrow>
       if ch = CHR ''|'' then
         thn consume_next (thn skip_whitespace (bnd parse_cmd (\<lambda>c.
           ret (Some (RedirectClause Stdout (Command (Cmd c)))))))
       else if ch = CHR ''>'' then
         thn consume_next (thn skip_whitespace (bnd parse_word (\<lambda>w.
           ret (Some (RedirectClause Stdout (File w))))))
       else if ch = CHR '';'' then ret None
       else panic (show_nat (code ch))))"

lemma pipe_step_smaller:
  assumes "pipe_step i = (Ok (Some cl), k)"
  shows "advances i k \<and> pos i < pos k \<and> pos i < length (chars i)"
proof -
  obtain u j where j: "skip_whitespace i = (u, j)" by fastforce
  with skip_whitespace_advances [of i] have ij: "advances i j" "u = Ok ()" by auto
  have lt: "pos j < length (chars j)"
    using assms j ij(2) by (auto simp: pipe_step_def eff_defs cur_def split: if_splits)
  let ?n = "j\<lparr>pos := pos j + 1\<rparr>"
  obtain v l where l: "skip_whitespace ?n = (v, l)" by fastforce
  with skip_whitespace_advances [of ?n] have nl: "advances ?n l" "v = Ok ()" by auto
  have "advances l k"
    using assms j ij(2) l nl(2) lt
    by (auto simp: pipe_step_def eff_defs cur_def consume_next_def
        split: if_splits outcome.splits prod.splits
        dest: parse_word_advances parse_cmd_advances)
  with ij nl lt show ?thesis by (auto simp: advances_def)
qed

function parse_pipe_loop :: "redirect_clause list \<Rightarrow> (consume, redirect_clause list) eff" where
  "parse_pipe_loop children i = (case pipe_step i of
     (Ok (Some cl), k) \<Rightarrow> parse_pipe_loop (children @ [cl]) k
   | (Ok None, k) \<Rightarrow> (Ok children, k)
   | (Err e, k) \<Rightarrow> (Err e, k)
   | (Panic p, k) \<Rightarrow> (Panic p, k)
   | (Diverge, k) \<Rightarrow> (Diverge, k))"
  by pat_completeness auto

termination
  by (relation "measure (\<lambda>(cs, i). length (chars i) - pos i)")
    (auto dest!: pipe_step_smaller [OF sym] simp: advances_def)

declare parse_pipe_loop.simps [simp del]

definition parse_pipe :: "(consume, ast) eff" where
  "parse_pipe = bnd parse_cmd (\<lambda>c. bnd (parse_pipe_loop []) (\<lambda>children.
     ret (if children = [] then Cmd c else Redirect (Cmd c) children)))"


lemma parse_pipe_loop_advances:
  "parse_pipe_loop cs i = (Ok r, i') \<Longrightarrow> advances i i'"
proof (induction cs i rule: parse_pipe_loop.induct)
  case (1 cs i)
  obtain q k where k: "pipe_step i = (q, k)" by fastforce
  consider (push) cl where "q = Ok (Some cl)" | (leave) "q = Ok None" | (stop) "\<forall>x. q \<noteq> Ok x"
    by (cases q) auto
  then show ?case
  proof cases
    case push
    with 1 k have "advances k i'" by (subst (asm) (2) parse_pipe_loop.simps) simp
    moreover have "advances i k" using pipe_step_smaller k push by blast
    ultimately show ?thesis by (auto intro: advances_trans)
  next
    case leave
    obtain u j where j: "skip_whitespace i = (u, j)" by fastforce
    with skip_whitespace_advances [of i] have "advances i j" "u = Ok ()" by auto
    moreover have "k = j"
      using k leave j \<open>u = Ok ()\<close>
      by (auto simp: pipe_step_def eff_defs consume_next_def
          split: if_splits option.splits outcome.splits prod.splits)
    moreover have "i' = k" using 1(2) k leave by (subst (asm) parse_pipe_loop.simps) simp
    ultimately show ?thesis by simp
  next
    case stop
    with 1(2) k show ?thesis
      by (cases q) (subst (asm) parse_pipe_loop.simps, simp)+
  qed
qed

lemma parse_pipe_advances:
  assumes "parse_pipe i = (Ok r, i')"
  shows "advances i i'"
proof -
  obtain c j where j: "parse_cmd i = (Ok c, j)"
    using assms by (auto simp: parse_pipe_def eff_defs split: outcome.splits prod.splits)
  with assms obtain cs where "parse_pipe_loop [] j = (Ok cs, i')"
    by (auto simp: parse_pipe_def eff_defs split: outcome.splits prod.splits)
  with parse_cmd_advances [OF j] show ?thesis
    by (blast intro: advances_trans parse_pipe_loop_advances)
qed

text \<open>One turn of the loop of \<open>parse_seq\<close>.\<close>

definition seq_step :: "(consume, sequence_clause option) eff" where
  "seq_step = thn skip_whitespace (bnd (gets cur) (\<lambda>c. case c of
     None \<Rightarrow> ret None
   | Some ch \<Rightarrow>
       if ch = CHR '';'' then
         thn consume_next (thn skip_whitespace (bnd parse_pipe (\<lambda>p.
           ret (Some (SequenceClause Wait p)))))
       else panic (show_nat (code ch))))"

lemma seq_step_smaller:
  assumes "seq_step i = (Ok (Some cl), k)"
  shows "advances i k \<and> pos i < pos k \<and> pos i < length (chars i)"
proof -
  obtain u j where j: "skip_whitespace i = (u, j)" by fastforce
  with skip_whitespace_advances [of i] have ij: "advances i j" "u = Ok ()" by auto
  have lt: "pos j < length (chars j)"
    using assms j ij(2) by (auto simp: seq_step_def eff_defs cur_def split: if_splits)
  let ?n = "j\<lparr>pos := pos j + 1\<rparr>"
  obtain v l where l: "skip_whitespace ?n = (v, l)" by fastforce
  with skip_whitespace_advances [of ?n] have nl: "advances ?n l" "v = Ok ()" by auto
  have "advances l k"
    using assms j ij(2) l nl(2) lt
    by (auto simp: seq_step_def eff_defs cur_def consume_next_def
        split: if_splits outcome.splits prod.splits dest: parse_pipe_advances)
  with ij nl lt show ?thesis by (auto simp: advances_def)
qed

function parse_seq_loop :: "sequence_clause list \<Rightarrow> (consume, sequence_clause list) eff" where
  "parse_seq_loop children i = (case seq_step i of
     (Ok (Some cl), k) \<Rightarrow> parse_seq_loop (children @ [cl]) k
   | (Ok None, k) \<Rightarrow> (Ok children, k)
   | (Err e, k) \<Rightarrow> (Err e, k)
   | (Panic p, k) \<Rightarrow> (Panic p, k)
   | (Diverge, k) \<Rightarrow> (Diverge, k))"
  by pat_completeness auto

termination
  by (relation "measure (\<lambda>(cs, i). length (chars i) - pos i)")
    (auto dest!: seq_step_smaller [OF sym] simp: advances_def)

declare parse_seq_loop.simps [simp del]

definition parse_seq :: "(consume, ast) eff" where
  "parse_seq = bnd parse_pipe (\<lambda>head. bnd (parse_seq_loop []) (\<lambda>children.
     ret (if children = [] then head else Sequence head children)))"

definition parse_line :: "(consume, ast) eff" where
  "parse_line = thn skip_whitespace (bnd (gets cur) (\<lambda>c.
     if c = None then ret Empty
     else bnd parse_seq (\<lambda>res.
       thn (bnd (gets (\<lambda>i. pos i = length (chars i))) (ensure ''input.pos == input.text.len()''))
       (ret res))))"

definition parse_input :: "string \<Rightarrow> ast outcome" where
  "parse_input input = fst (parse_line \<lparr>chars = input, pos = 0\<rparr>)"

end
