(* ===== verification/Grammar.thy ===== *)
theory Grammar
  imports Parse
begin

text \<open>
  The language the parser accepts, said without positions: a lexer that turns the line into
  words and the three separators, and a grammar on the tokens. The theory proves that the
  parser of \<open>Parse\<close> is the composition of the two on every line, and derives which lines it
  panics on, that it never slices a string off a character boundary, and that its result can
  be printed and parsed again.
\<close>

section \<open>Tokens\<close>

datatype token = TWord string | TPipe | TRedir | TSemi

definition special_token :: "char \<Rightarrow> token" where
  "special_token c = (if c = CHR ''|'' then TPipe else if c = CHR ''>'' then TRedir else TSemi)"

definition bare :: "char \<Rightarrow> bool" where
  "bare c \<longleftrightarrow> c \<noteq> CHR 0x22 \<and> c \<noteq> CHR '' '' \<and> \<not> special c"

text \<open>\<open>None\<close>: a quote that is never closed, or one in the middle of a bare word.\<close>

function lex :: "string \<Rightarrow> token list option" where
  "lex [] = Some []"
| "lex (c # s) =
     (if c = CHR '' '' then lex s
      else if special c then map_option (Cons (special_token c)) (lex s)
      else if c = CHR 0x22 then
        (case dropWhile (\<lambda>x. x \<noteq> CHR 0x22) s of
           [] \<Rightarrow> None
         | _ # r \<Rightarrow> map_option (Cons (TWord (takeWhile (\<lambda>x. x \<noteq> CHR 0x22) s))) (lex r))
      else
        (case dropWhile bare s of
           [] \<Rightarrow> Some [TWord (c # takeWhile bare s)]
         | q # r \<Rightarrow> if q = CHR 0x22 then None
             else map_option (Cons (TWord (c # takeWhile bare s))) (lex (q # r))))"
  by pat_completeness auto

termination
proof (relation "measure length", goal_cases)
  case (4 c s q r)
  have "length (dropWhile (\<lambda>x. x \<noteq> CHR 0x22) s) \<le> length s" by (rule length_dropWhile_le)
  with 4 show ?case by simp
next
  case (5 c s q r)
  have "length (dropWhile bare s) \<le> length s" by (rule length_dropWhile_le)
  with 5 show ?case by simp
qed auto

declare lex.simps [simp del]

section \<open>The grammar\<close>

fun words_of :: "token list \<Rightarrow> string list \<times> token list" where
  "words_of (TWord w # ts) = (case words_of ts of (ws, r) \<Rightarrow> (w # ws, r))"
| "words_of ts = ([], ts)"

definition g_word :: "token list \<Rightarrow> shell_word \<times> token list" where
  "g_word ts = (case ts of TWord w # r \<Rightarrow> (Normal w, r) | _ \<Rightarrow> (Normal [], ts))"

text \<open>A command has at least one word; where the line has none, the word is empty.\<close>

definition g_cmd :: "token list \<Rightarrow> shell_cmd \<times> token list" where
  "g_cmd ts = (case words_of ts of
     (ws, r) \<Rightarrow> (ShellCmd None (map Normal (if ws = [] then [[]] else ws)), r))"

lemma words_of_length: "length (snd (words_of ts)) \<le> length ts"
  by (induction ts rule: words_of.induct) (auto split: prod.splits)

lemma g_cmd_length: "length (snd (g_cmd ts)) \<le> length ts"
  using words_of_length [of ts] by (simp add: g_cmd_def case_prod_unfold)

lemma g_word_length: "length (snd (g_word ts)) \<le> length ts"
  by (simp add: g_word_def split: list.splits token.splits)

text \<open>One clause of a pipeline: \<open>Some (None, _)\<close> at its end, \<open>None\<close> at a stray word.\<close>

definition g_clause :: "token list \<Rightarrow> (redirect_clause option \<times> token list) option" where
  "g_clause ts = (case ts of
     [] \<Rightarrow> Some (None, ts)
   | TSemi # _ \<Rightarrow> Some (None, ts)
   | TPipe # r \<Rightarrow> (case g_cmd r of (c, r') \<Rightarrow>
       Some (Some (RedirectClause Stdout (Command (Cmd c))), r'))
   | TRedir # r \<Rightarrow> (case g_word r of (w, r') \<Rightarrow>
       Some (Some (RedirectClause Stdout (File w)), r'))
   | TWord _ # _ \<Rightarrow> None)"

lemma g_clause_length: "g_clause ts = Some (Some cl, r) \<Longrightarrow> length r < length ts"
  using g_cmd_length [of "tl ts"] g_word_length [of "tl ts"]
  by (auto simp: g_clause_def split: list.splits token.splits prod.splits)

function g_clauses :: "token list \<Rightarrow> (redirect_clause list \<times> token list) option" where
  "g_clauses ts = (case g_clause ts of
     None \<Rightarrow> None
   | Some (None, r) \<Rightarrow> Some ([], r)
   | Some (Some cl, r) \<Rightarrow> map_option (apfst (Cons cl)) (g_clauses r))"
  by pat_completeness auto

termination
  by (relation "measure length") (auto dest: g_clause_length)

declare g_clauses.simps [simp del]

definition g_pipe :: "token list \<Rightarrow> (ast \<times> token list) option" where
  "g_pipe ts = (case g_cmd ts of (c, r) \<Rightarrow>
     map_option (apfst (\<lambda>cls. if cls = [] then Cmd c else Redirect (Cmd c) cls)) (g_clauses r))"

lemma g_clauses_length: "g_clauses ts = Some (cls, r) \<Longrightarrow> length r \<le> length ts"
proof (induction ts arbitrary: cls rule: g_clauses.induct)
  case (1 ts)
  show ?case
  proof (cases "g_clause ts")
    case None
    with "1.prems" show ?thesis by (simp add: g_clauses.simps [of ts])
  next
    case (Some x)
    obtain o' r' where x: "x = (o', r')" by fastforce
    show ?thesis
    proof (cases o')
      case None
      with Some x "1.prems" show ?thesis
        by (auto simp: g_clauses.simps [of ts] g_clause_def split: list.splits token.splits prod.splits)
    next
      case (Some cl)
      with \<open>g_clause ts = Some x\<close> x "1.prems" obtain cls' where "g_clauses r' = Some (cls', r)"
        by (auto simp: g_clauses.simps [of ts])
      with "1.IH" \<open>g_clause ts = Some x\<close> x Some have "length r \<le> length r'" by blast
      with g_clause_length [of ts cl r'] \<open>g_clause ts = Some x\<close> x Some show ?thesis by simp
    qed
  qed
qed

lemma g_pipe_length: "g_pipe ts = Some (p, r) \<Longrightarrow> length r \<le> length ts"
  using g_cmd_length [of ts]
  by (auto simp: g_pipe_def split: prod.splits dest!: g_clauses_length)

function g_seq :: "token list \<Rightarrow> sequence_clause list option" where
  "g_seq ts = (case ts of
     [] \<Rightarrow> Some []
   | TSemi # r \<Rightarrow> (case g_pipe r of
         None \<Rightarrow> None
       | Some (p, r') \<Rightarrow> map_option (Cons (SequenceClause Wait p)) (g_seq r'))
   | _ \<Rightarrow> None)"
  by pat_completeness auto

termination
  by (relation "measure length") (auto dest: g_pipe_length simp: less_Suc_eq_le)

declare g_seq.simps [simp del]

definition grammar :: "token list \<Rightarrow> ast option" where
  "grammar ts = (if ts = [] then Some Empty
     else case g_pipe ts of
       None \<Rightarrow> None
     | Some (head, r) \<Rightarrow>
         map_option (\<lambda>cls. if cls = [] then head else Sequence head cls) (g_seq r))"


section \<open>Simulation\<close>

definition rest :: "consume \<Rightarrow> string" where
  "rest i = drop (pos i) (chars i)"

definition good :: "consume \<Rightarrow> bool" where
  "good i \<longleftrightarrow> boundary_safe (chars i) \<and> pos i \<le> length (chars i) \<and>
     is_char_boundary (chars i) (pos i)"

text \<open>\<open>moved n i\<close>: the position moved over \<open>n\<close> bytes.\<close>

definition moved :: "nat \<Rightarrow> consume \<Rightarrow> consume" where
  "moved n i = i\<lparr>pos := pos i + n\<rparr>"

lemma moved_simps [simp]:
  "chars (moved n i) = chars i" "pos (moved n i) = pos i + n" "moved 0 i = i"
  "rest (moved n i) = drop n (rest i)" "moved m (moved n i) = moved (n + m) i"
  by (simp_all add: moved_def rest_def add.commute add.left_commute)

lemma moved_Suc: "moved n (moved 1 i) = moved (Suc n) i"
  by simp

lemma cur_rest: "cur i = (case rest i of [] \<Rightarrow> None | c # _ \<Rightarrow> Some c)"
proof (cases "pos i < length (chars i)")
  case True
  then have "rest i = chars i ! pos i # drop (Suc (pos i)) (chars i)"
    by (simp add: rest_def Cons_nth_drop_Suc)
  with True show ?thesis by (simp add: cur_def)
next
  case False
  then show ?thesis by (simp add: cur_def rest_def)
qed

lemma cur_Cons: "cur i = Some c \<longleftrightarrow> (\<exists>s. rest i = c # s)"
  by (simp add: cur_rest split: list.split)

lemma consume_next_rest: "consume_next i = (Ok (cur i), if cur i = None then i else moved 1 i)"
  by (simp add: consume_next_def cur_def moved_def)

lemma rest_nth: "rest i = c # s \<Longrightarrow> pos i < length (chars i) \<and> chars i ! pos i = c"
  using cur_Cons [of i c] by (auto simp: cur_def split: if_splits)

lemma rest_length: "pos i \<le> length (chars i) \<Longrightarrow> length (rest i) = length (chars i) - pos i"
  by (simp add: rest_def)

lemma good_moved_ascii:
  assumes "good i" and "rest i = u @ [c]  @ v" and "code c < 128"
  shows "good (moved (length u) i)" and "good (moved (Suc (length u)) i)"
proof -
  have i: "pos i + length u < length (chars i)"
    using arg_cong [OF assms(2), of length] assms(1) by (simp add: good_def rest_length)
  have "chars i ! (pos i + length u) = rest i ! length u"
    using assms(1) by (simp add: good_def rest_def)
  then have c: "code (chars i ! (pos i + length u)) < 128" using assms(2,3) by simp
  from i c assms(1) show "good (moved (length u) i)"
    by (simp add: good_def boundary_at_ascii)
  from i c assms(1) show "good (moved (Suc (length u)) i)"
    using boundary_after_ascii [of "chars i" "pos i + length u"]
    by (simp add: good_def boundary_safe_def)
qed

lemma good_end: "good i \<Longrightarrow> good (moved (length (rest i)) i)"
  by (simp add: good_def rest_length is_char_boundary_def)

lemma pos_Suc: "i\<lparr>pos := Suc (pos i)\<rparr> = moved (Suc 0) i" "i\<lparr>pos := pos i + 1\<rparr> = moved (Suc 0) i"
  by (simp_all add: moved_def)

lemma rest_moved_Cons: "rest i = c # s \<Longrightarrow> rest (moved (Suc 0) i) = s"
  by simp

lemma skip_whitespace_rest:
  "rest i = s \<Longrightarrow> skip_whitespace i = (Ok (), moved (length (takeWhile (\<lambda>c. c = CHR '' '') s)) i)"
proof (induction s arbitrary: i)
  case Nil
  then show ?case by (subst skip_whitespace.simps) (simp add: cur_rest)
next
  case (Cons c s)
  from Cons.IH [OF rest_moved_Cons [OF Cons.prems]] Cons.prems show ?case
    by (subst skip_whitespace.simps) (simp add: cur_rest pos_Suc)
qed

lemma quote_loop_rest:
  "rest i = s \<Longrightarrow> quote_loop i = (case dropWhile (\<lambda>x. x \<noteq> CHR 0x22) s of
     [] \<Rightarrow> (Panic ''explicit panic'', moved (length s) i)
   | _ # _ \<Rightarrow> (Ok (), moved (Suc (length (takeWhile (\<lambda>x. x \<noteq> CHR 0x22) s))) i))"
proof (induction s arbitrary: i)
  case Nil
  then show ?case by (subst quote_loop_unfold) (simp add: cur_rest)
next
  case (Cons c s)
  from Cons.IH [OF rest_moved_Cons [OF Cons.prems]] Cons.prems show ?case
    by (subst quote_loop_unfold)
      (simp add: cur_rest pos_Suc del: dropWhile_eq_Nil_conv split: list.split)
qed

lemma word_loop_rest:
  "rest i = s \<Longrightarrow> word_loop i = (case dropWhile bare s of
       [] \<Rightarrow> (Ok (), moved (length (takeWhile bare s)) i)
     | q # _ \<Rightarrow> (if q = CHR 0x22 then Panic ''explicit panic'' else Ok (),
         moved (length (takeWhile bare s)) i))"
proof (induction s arbitrary: i)
  case Nil
  then show ?case by (subst word_loop.simps) (simp add: cur_rest)
next
  case (Cons c s)
  show ?case
  proof (cases "bare c")
    case True
    with Cons.prems have "word_loop i = word_loop (moved (Suc 0) i)"
      by (subst word_loop.simps) (simp add: cur_rest consume_next_rest bare_def)
    with Cons.IH [OF rest_moved_Cons [OF Cons.prems]] True show ?thesis
      by (simp del: dropWhile_eq_Nil_conv split: list.split)
  next
    case False
    with Cons.prems show ?thesis
      by (subst word_loop.simps) (auto simp: cur_rest bare_def)
  qed
qed


text \<open>
  \<open>sim m G i\<close>: on the line left at \<open>i\<close>, the parser \<open>m\<close> does what the grammar function \<open>G\<close> does
  on its tokens, and panics where \<open>G\<close> or the lexer refuses; where the lexer refuses, \<open>m\<close> may
  also stop short of the faulty place.
\<close>

definition after :: "consume \<Rightarrow> consume \<Rightarrow> bool" where
  "after i j \<longleftrightarrow> chars j = chars i \<and> good j"

definition sim :: "(consume, 'a) eff \<Rightarrow> (token list \<Rightarrow> ('a \<times> token list) option) \<Rightarrow> consume \<Rightarrow> bool" where
  "sim m G i \<longleftrightarrow> (case lex (rest i) of
     Some ts \<Rightarrow> (case G ts of
         Some (a, ts') \<Rightarrow> \<exists>j. m i = (Ok a, j) \<and> after i j \<and> lex (rest j) = Some ts'
       | None \<Rightarrow> \<exists>p j. m i = (Panic p, j))
   | None \<Rightarrow> (\<exists>p j. m i = (Panic p, j)) \<or> (\<exists>a j. m i = (Ok a, j) \<and> after i j \<and> lex (rest j) = None))"

lemma after_trans: "after i j \<Longrightarrow> after j k \<Longrightarrow> after i k"
  by (simp add: after_def)

lemma sim_ret:
  assumes "good i" and "\<And>ts. lex (rest i) = Some ts \<Longrightarrow> G ts = Some (a, ts)"
  shows "sim (ret a) G i"
  using assms by (simp add: sim_def ret_def after_def split: option.split)

lemma sim_bnd:
  assumes m: "sim m G i"
    and f: "\<And>a j. m i = (Ok a, j) \<Longrightarrow> after i j \<Longrightarrow> sim (f a) (H a) j"
    and K: "\<And>ts. K ts = Option.bind (G ts) (\<lambda>(a, ts'). H a ts')"
  shows "sim (bnd m f) K i"
proof (cases "lex (rest i)")
  case None
  with m consider (panic) p j where "m i = (Panic p, j)"
    | (stop) a j where "m i = (Ok a, j)" "after i j" "lex (rest j) = None"
    by (auto simp: sim_def)
  then show ?thesis
  proof cases
    case panic
    with None show ?thesis by (simp add: sim_def bnd_def)
  next
    case stop
    with f [of a j] None show ?thesis
      by (auto simp: sim_def bnd_def intro: after_trans)
  qed
next
  case (Some ts)
  show ?thesis
  proof (cases "G ts")
    case None
    with m Some K [of ts] show ?thesis by (auto simp: sim_def bnd_def)
  next
    case G: (Some at)
    obtain a ts' where at: "at = (a, ts')" by fastforce
    with m Some G obtain j where j: "m i = (Ok a, j)" "after i j" "lex (rest j) = Some ts'"
      by (auto simp: sim_def)
    with f [of a j] Some G at K [of ts] show ?thesis
      by (auto simp: sim_def bnd_def intro: after_trans split: option.splits)
  qed
qed

text \<open>Unary steps: a parser that runs as another one further on.\<close>

lemma sim_run:
  assumes "m i = n j" and "after i j" and "sim n H j"
    and "\<And>ts. lex (rest i) = Some ts \<Longrightarrow> \<exists>us. lex (rest j) = Some us \<and> G ts = H us"
    and "lex (rest i) = None \<Longrightarrow> lex (rest j) = None"
  shows "sim m G i"
  using assms by (fastforce simp: sim_def intro: after_trans split: option.splits)

lemma rest_dropWhile:
  "rest i = s \<Longrightarrow> rest (moved (length (takeWhile P s)) i) = dropWhile P s"
  by (simp add: dropWhile_eq_drop)

lemma lex_spaces: "lex (dropWhile (\<lambda>c. c = CHR '' '') s) = lex s"
  by (induction s) (simp_all add: lex.simps)

lemma good_moved_spaces:
  assumes "good i" and "rest i = s"
  shows "good (moved (length (takeWhile (\<lambda>c. c = CHR '' '') s)) i)"
proof (cases "takeWhile (\<lambda>c. c = CHR '' '') s" rule: rev_cases)
  case Nil
  with assms show ?thesis by simp
next
  case (snoc u c)
  then have "c = CHR '' ''" by (metis in_set_conv_decomp set_takeWhileD)
  moreover have "rest i = u @ [c] @ dropWhile (\<lambda>c. c = CHR '' '') s"
    using snoc assms(2) takeWhile_dropWhile_id [of "\<lambda>c. c = CHR '' ''" s] by simp
  ultimately have "good (moved (Suc (length u)) i)"
    using good_moved_ascii(2) [OF assms(1), of u c] by simp
  with snoc show ?thesis by simp
qed

lemma skip_whitespace_after:
  assumes "good i"
  obtains j where "skip_whitespace i = (Ok (), j)" "after i j"
    "rest j = dropWhile (\<lambda>c. c = CHR '' '') (rest i)" "lex (rest j) = lex (rest i)"
    "cur j \<noteq> Some CHR '' ''"
proof
  let ?j = "moved (length (takeWhile (\<lambda>c. c = CHR '' '') (rest i))) i"
  show "skip_whitespace i = (Ok (), ?j)" by (rule skip_whitespace_rest) simp
  show "after i ?j" using good_moved_spaces [OF assms] by (simp add: after_def)
  show *: "rest ?j = dropWhile (\<lambda>c. c = CHR '' '') (rest i)" by (rule rest_dropWhile) simp
  then show "lex (rest ?j) = lex (rest i)" by (simp only: lex_spaces)
  show "cur ?j \<noteq> Some CHR '' ''"
    unfolding cur_rest * by (auto split: list.split dest: dropWhile_eq_Cons_conv [THEN iffD1])
qed


section \<open>The parser is the grammar after the lexer\<close>

lemma slice_moved:
  assumes "good i" and "good (moved n i)" and "n \<le> length (rest i)" and "chars k = chars i"
  shows "slice_word (pos i) (pos i + n) k = (Ok (Normal (take n (rest i))), k)"
  using assms by (simp add: slice_word_def eff_defs str_slice_def good_def rest_def)

lemma code_special: "c = CHR 0x22 \<or> c = CHR '' '' \<or> special c \<Longrightarrow> code c < 128"
  by (auto simp: special_def)

lemma parse_word_quoted:
  assumes "good i" and "rest i = CHR 0x22 # s"
  shows "case dropWhile (\<lambda>x. x \<noteq> CHR 0x22) s of
     [] \<Rightarrow> \<exists>p j. parse_word i = (Panic p, j)
   | q # r \<Rightarrow> \<exists>j. parse_word i = (Ok (Normal (takeWhile (\<lambda>x. x \<noteq> CHR 0x22) s)), j) \<and>
       after i j \<and> rest j = r"
proof -
  have start: "parse_word i = bnd (gets pos) (\<lambda>begin. thn quote_loop
      (bnd (gets pos) (\<lambda>p. slice_word begin (p - 1)))) (moved 1 i)"
    using assms(2)
    by (simp add: parse_word_def parse_quote_def consume_next_rest cur_rest eff_defs)
  have rest1: "rest (moved 1 i) = s" using assms(2) by simp
  have good1: "good (moved 1 i)"
    using good_moved_ascii(2) [of i "[]" "CHR 0x22" s] assms by simp
  show ?thesis
  proof (cases "dropWhile (\<lambda>x. x \<noteq> CHR 0x22) s")
    case Nil
    with quote_loop_rest [OF rest1] show ?thesis
      by (simp add: start eff_defs del: dropWhile_eq_Nil_conv)
  next
    case (Cons q r)
    let ?w = "takeWhile (\<lambda>x. x \<noteq> CHR 0x22) s"
    have q: "q = CHR 0x22" using Cons by (auto dest: dropWhile_eq_Cons_conv [THEN iffD1])
    have s: "s = ?w @ [q] @ r" using takeWhile_dropWhile_id [of "\<lambda>x. x \<noteq> CHR 0x22" s] Cons by simp
    let ?j = "moved (Suc (length ?w)) (moved 1 i)"
    have g: "good (moved (length ?w) (moved 1 i))" "good ?j"
      using good_moved_ascii [OF good1, of ?w q r] rest1 s q by auto
    have "slice_word (pos (moved 1 i)) (pos (moved 1 i) + length ?w) ?j = (Ok (Normal ?w), ?j)"
      using slice_moved [OF good1 g(1), of ?j] rest1 s
      by (metis append_eq_conv_conj length_takeWhile_le moved_simps(1))
    moreover have "rest ?j = r"
      using rest1 by (subst moved_simps(4), simp only: rest1, subst s, simp)
    ultimately show ?thesis
      using quote_loop_rest [OF rest1] Cons g(2)
      by (simp add: start eff_defs after_def)
  qed
qed

lemma parse_word_bare_run:
  assumes "good i" and "cur i \<noteq> Some CHR 0x22"
  shows "case dropWhile bare (rest i) of
     [] \<Rightarrow> \<exists>j. parse_word i = (Ok (Normal (rest i)), j) \<and> after i j \<and> rest j = []
   | q # r \<Rightarrow> if q = CHR 0x22 then \<exists>p j. parse_word i = (Panic p, j)
       else \<exists>j. parse_word i = (Ok (Normal (takeWhile bare (rest i))), j) \<and> after i j \<and> rest j = q # r"
proof -
  let ?w = "takeWhile bare (rest i)" and ?j = "moved (length (takeWhile bare (rest i))) i"
  have start: "parse_word i = bnd (gets pos) (\<lambda>begin. thn word_loop
      (bnd (gets pos) (\<lambda>p. slice_word begin p))) i"
    using assms(2) by (simp add: parse_word_def eff_defs)
  have slice: "slice_word (pos i) (pos i + length ?w) ?j = (Ok (Normal ?w), ?j)" if "good ?j"
    using slice_moved [OF assms(1) that, of ?j] by (simp add: length_takeWhile_le takeWhile_eq_take [symmetric])
  show ?thesis
  proof (cases "dropWhile bare (rest i)")
    case Nil
    then have all: "?w = rest i" by simp
    have "good ?j" unfolding all by (rule good_end [OF assms(1)])
    moreover have "word_loop i = (Ok (), ?j)"
      using word_loop_rest [OF refl, of i] Nil by (simp del: dropWhile_eq_Nil_conv)
    ultimately have "parse_word i = (Ok (Normal ?w), ?j) \<and> after i ?j \<and> rest ?j = []"
      using slice rest_dropWhile [of i "rest i" bare] Nil
      by (simp add: start eff_defs after_def del: dropWhile_eq_Nil_conv)
    then show ?thesis using Nil all by (auto simp del: dropWhile_eq_Nil_conv)
  next
    case (Cons q r)
    have q: "\<not> bare q" using Cons by (auto dest: dropWhile_eq_Cons_conv [THEN iffD1])
    have s: "rest i = ?w @ [q] @ r" using takeWhile_dropWhile_id [of bare "rest i"] Cons by simp
    from q have "code q < 128" by (intro code_special) (auto simp: bare_def)
    with good_moved_ascii(1) [OF assms(1) s] have "good ?j" by simp
    with slice word_loop_rest [of i] Cons rest_dropWhile [of i "rest i" bare] show ?thesis
      by (simp add: start eff_defs after_def)
  qed
qed


lemma lex_quote: "lex (CHR 0x22 # s) = (case dropWhile (\<lambda>x. x \<noteq> CHR 0x22) s of
     [] \<Rightarrow> None | _ # r \<Rightarrow> map_option (Cons (TWord (takeWhile (\<lambda>x. x \<noteq> CHR 0x22) s))) (lex r))"
  by (subst lex.simps) (simp add: special_def)

lemma lex_bare:
  assumes "bare c"
  shows "lex (c # s) = (case dropWhile bare (c # s) of
     [] \<Rightarrow> Some [TWord (takeWhile bare (c # s))]
   | q # r \<Rightarrow> if q = CHR 0x22 then None
       else map_option (Cons (TWord (takeWhile bare (c # s)))) (lex (q # r)))"
proof -
  from assms have "c \<noteq> CHR '' ''" "\<not> special c" "c \<noteq> CHR 0x22" by (auto simp: bare_def)
  with assms show ?thesis
    by (subst lex.simps(2)) (simp del: dropWhile_eq_Nil_conv split: list.split)
qed

lemma lex_special: "special c \<Longrightarrow> lex (c # s) = map_option (Cons (special_token c)) (lex s)"
  by (subst lex.simps) (auto simp: special_def)

lemma not_special_token: "special_token c \<noteq> TWord w"
  by (simp add: special_token_def)

lemma sim_word:
  assumes "good i" and "cur i \<noteq> Some CHR '' ''"
  shows "sim parse_word (\<lambda>ts. Some (g_word ts)) i"
proof (cases "rest i")
  case Nil
  with parse_word_bare_run [OF assms(1)] show ?thesis
    by (auto simp: cur_rest sim_def lex.simps g_word_def)
next
  case (Cons c s)
  show ?thesis
  proof (cases "c = CHR 0x22")
    case True
    with Cons parse_word_quoted [OF assms(1), of s] show ?thesis
      by (cases "dropWhile (\<lambda>x. x \<noteq> CHR 0x22) s")
        (auto simp: sim_def lex_quote g_word_def simp del: dropWhile_eq_Nil_conv
          split: option.split)
  next
    case nq: False
    with Cons have "cur i \<noteq> Some CHR 0x22" by (simp add: cur_rest)
    note run = parse_word_bare_run [OF assms(1) this]
    show ?thesis
    proof (cases "bare c")
      case True
      show ?thesis
      proof (cases "dropWhile bare (c # s)")
        case Nil
        then have all: "takeWhile bare (c # s) = c # s"
          by (simp only: dropWhile_eq_Nil_conv takeWhile_eq_all_conv)
        from Nil Cons run show ?thesis
          by (auto simp: sim_def lex_bare [OF True] lex.simps(1) g_word_def all
              simp del: dropWhile_eq_Nil_conv dropWhile.simps takeWhile.simps)
      next
        case (Cons q r)
        with \<open>rest i = c # s\<close> run show ?thesis
          by (auto simp: sim_def lex_bare [OF True] g_word_def
              simp del: dropWhile.simps takeWhile.simps split: option.split if_splits)
      qed
    next
      case False
      with nq Cons assms(2) have sp: "special c" by (auto simp: bare_def cur_rest)
      with run Cons False nq obtain j where
        "parse_word i = (Ok (Normal []), j)" "after i j" "rest j = c # s" by auto
      with Cons sp show ?thesis
        by (auto simp: sim_def lex_special g_word_def not_special_token
            split: option.split token.split)
    qed
  qed
qed


lemma lex_word_first:
  assumes "c \<noteq> CHR '' ''" and "\<not> special c" and "lex (c # s) = Some ts"
  shows "\<exists>w r. ts = TWord w # r"
proof (cases "c = CHR 0x22")
  case True
  with assms(3) show ?thesis
    by (auto simp: lex_quote simp del: dropWhile_eq_Nil_conv split: list.splits)
next
  case False
  with assms(1,2) have "bare c" by (simp add: bare_def)
  with assms(3) show ?thesis
    by (auto simp: lex_bare simp del: dropWhile_eq_Nil_conv dropWhile.simps
        split: list.splits if_splits)
qed

lemma sim_cmd_loop:
  "good i \<Longrightarrow> sim (parse_cmd_loop ws)
     (\<lambda>ts. case words_of ts of (us, r) \<Rightarrow> Some (ws @ map Normal us, r)) i"
proof (induction ws i rule: parse_cmd_loop.induct)
  case (1 ws i)
  obtain j where j: "skip_whitespace i = (Ok (), j)" "after i j" "lex (rest j) = lex (rest i)"
    "cur j \<noteq> Some CHR '' ''"
    using skip_whitespace_after [OF "1.prems"] by blast
  then have gj: "good j" by (simp add: after_def)
  show ?case
  proof (cases "rest j")
    case Nil
    then have "parse_cmd_loop ws i = (Ok ws, j)"
      using j by (subst parse_cmd_loop.simps) (simp add: cur_rest)
    with j Nil show ?thesis by (simp add: sim_def lex.simps flip: j(3))
  next
    case (Cons c s)
    show ?thesis
    proof (cases "special c")
      case True
      then have "parse_cmd_loop ws i = (Ok ws, j)"
        using j Cons by (subst parse_cmd_loop.simps) (simp add: cur_rest)
      with j Cons True show ?thesis
        by (cases "special_token c")
          (auto simp: sim_def lex_special not_special_token simp flip: j(3) split: option.split)
    next
      case False
      have sp: "c \<noteq> CHR '' ''" using j(4) Cons by (auto simp: cur_rest)
      have sim_j: "sim parse_word (\<lambda>ts. Some (g_word ts)) j" using sim_word [OF gj j(4)] .
      have run: "parse_cmd_loop ws i = (case parse_word j of
              (Ok w, k) \<Rightarrow> parse_cmd_loop (ws @ [w]) k
            | (Err e, k) \<Rightarrow> (Err e, k) | (Panic p, k) \<Rightarrow> (Panic p, k) | (Diverge, k) \<Rightarrow> (Diverge, k))"
        using j Cons False by (subst parse_cmd_loop.simps) (simp add: cur_rest)
      have IH: "sim (parse_cmd_loop (ws @ [w]))
          (\<lambda>ts. case words_of ts of (us, r) \<Rightarrow> Some ((ws @ [w]) @ map Normal us, r)) k"
        if "parse_word j = (Ok w, k)" "after j k" for w k
        using "1.IH" [of "Ok ()" j c "Ok w" k w] that j Cons False
        by (simp add: cur_rest after_def)
      show ?thesis
      proof (cases "lex (rest j)")
        case None
        with sim_j consider p k where "parse_word j = (Panic p, k)"
          | w k where "parse_word j = (Ok w, k)" "after j k" "lex (rest k) = None"
          by (auto simp: sim_def)
        then show ?thesis
        proof cases
          case 1
          with None run j(3) show ?thesis by (simp add: sim_def)
        next
          case 2
          from after_trans [OF j(2) 2(2)] have "after i l" if "after k l" for l
            using that by (rule after_trans)
          with IH [OF 2(1,2)] 2 None run j(3) show ?thesis
            by (auto simp: sim_def)
        qed
      next
        case (Some ts)
        with lex_word_first [OF sp False, of s ts] Cons obtain w r where ts: "ts = TWord w # r"
          by auto
        with sim_j Some obtain k where k: "parse_word j = (Ok (Normal w), k)" "after j k"
          "lex (rest k) = Some r" by (auto simp: sim_def g_word_def)
        from after_trans [OF j(2) k(2)] have "after i l" if "after k l" for l
          using that by (rule after_trans)
        with IH [OF k(1,2)] k Some ts run j(3) show ?thesis
          by (auto simp: sim_def split: prod.splits)
      qed
    qed
  qed
qed

lemma sim_cmd:
  assumes "good i" and "cur i \<noteq> Some CHR '' ''"
  shows "sim parse_cmd (\<lambda>ts. Some (g_cmd ts)) i"
  unfolding parse_cmd_def
proof (rule sim_bnd [OF sim_word [OF assms]])
  fix w j
  assume "after i j"
  then have "good j" by (simp add: after_def)
  show "sim (bnd (parse_cmd_loop [w]) (\<lambda>children. ret (ShellCmd None children)))
      (\<lambda>ts. case words_of ts of (us, r) \<Rightarrow> Some (ShellCmd None (w # map Normal us), r)) j"
    by (rule sim_bnd [OF sim_cmd_loop [OF \<open>good j\<close>],
          where H = "\<lambda>cs ts. Some (ShellCmd None cs, ts)"])
      (auto intro!: sim_ret simp: after_def split: prod.split)
next
  fix ts
  show "Some (g_cmd ts) = Option.bind (Some (g_word ts)) (\<lambda>(w, ts').
      case words_of ts' of (us, r) \<Rightarrow> Some (ShellCmd None (w # map Normal us), r))"
    by (cases ts rule: words_of.cases) (auto simp: g_cmd_def g_word_def split: prod.split)
qed

lemma sim_after_separator:
  assumes "good j" and "rest j = c # s" and "special c"
    and sub: "\<And>l. after j l \<Longrightarrow> cur l \<noteq> Some CHR '' '' \<Longrightarrow> sim m G l"
    and K: "\<And>ts. K (special_token c # ts) = G ts"
  shows "sim (thn consume_next (thn skip_whitespace m)) K j"
proof -
  have "code c < 128" using assms(3) by (simp add: code_special)
  with good_moved_ascii(2) [of j "[]" c s] assms(1,2) have g: "good (moved 1 j)" by simp
  obtain l where l: "skip_whitespace (moved 1 j) = (Ok (), l)" "after (moved 1 j) l"
    "lex (rest l) = lex (rest (moved 1 j))" "cur l \<noteq> Some CHR '' ''"
    using skip_whitespace_after [OF g] by blast
  then have jl: "after j l" and rest_l: "lex (rest l) = lex s"
    using assms(2) by (simp_all add: after_def)
  show ?thesis
  proof (rule sim_run [OF _ jl sub [OF jl l(4)]])
    show "thn consume_next (thn skip_whitespace m) j = m l"
      using assms(2) l(1) by (simp add: eff_defs consume_next_rest cur_rest split: prod.split outcome.split)
  qed (use assms rest_l K in \<open>auto simp: lex_special\<close>)
qed

lemma sim_pipe_step:
  assumes "good i"
  shows "sim pipe_step g_clause i"
proof -
  obtain j where j: "skip_whitespace i = (Ok (), j)" "after i j" "lex (rest j) = lex (rest i)"
    "cur j \<noteq> Some CHR '' ''"
    using skip_whitespace_after [OF assms] by blast
  then have gj: "good j" by (simp add: after_def)
  let ?body = "\<lambda>c. case c of None \<Rightarrow> ret None
    | Some ch \<Rightarrow>
       if ch = CHR ''|'' then
         thn consume_next (thn skip_whitespace (bnd parse_cmd (\<lambda>c.
           ret (Some (RedirectClause Stdout (Command (Cmd c)))))))
       else if ch = CHR ''>'' then
         thn consume_next (thn skip_whitespace (bnd parse_word (\<lambda>w.
           ret (Some (RedirectClause Stdout (File w))))))
       else if ch = CHR '';'' then ret None
       else panic (show_nat (code ch))"
  have run: "pipe_step i = ?body (cur j) j"
    using j(1) by (simp add: pipe_step_def thn_def bnd_def gets_def)
  have sub_cmd: "sim (bnd parse_cmd (\<lambda>c. ret (Some (RedirectClause Stdout (Command (Cmd c))))))
      (\<lambda>ts. case g_cmd ts of (c, r) \<Rightarrow> Some (Some (RedirectClause Stdout (Command (Cmd c))), r)) l"
    if "after j l" "cur l \<noteq> Some CHR '' ''" for l
    by (rule sim_bnd [OF sim_cmd [OF _ that(2)],
          where H = "\<lambda>c ts. Some (Some (RedirectClause Stdout (Command (Cmd c))), ts)"])
      (use that in \<open>auto intro!: sim_ret simp: after_def split: prod.split\<close>)
  have sub_word: "sim (bnd parse_word (\<lambda>w. ret (Some (RedirectClause Stdout (File w)))))
      (\<lambda>ts. case g_word ts of (w, r) \<Rightarrow> Some (Some (RedirectClause Stdout (File w)), r)) l"
    if "after j l" "cur l \<noteq> Some CHR '' ''" for l
    by (rule sim_bnd [OF sim_word [OF _ that(2)],
          where H = "\<lambda>w ts. Some (Some (RedirectClause Stdout (File w)), ts)"])
      (use that in \<open>auto intro!: sim_ret simp: after_def split: prod.split\<close>)
  have "sim (?body (cur j)) g_clause j"
  proof (cases "rest j")
    case Nil
    with gj show ?thesis
      by (auto intro!: sim_ret simp: cur_rest lex.simps g_clause_def)
  next
    case (Cons c s)
    consider "c = CHR ''|''" | "c = CHR ''>''" | "c = CHR '';''" | "\<not> special c"
      by (auto simp: special_def)
    then show ?thesis
    proof cases
      case 1
      with sim_after_separator [OF gj Cons _ sub_cmd, of g_clause] Cons show ?thesis
        by (simp add: cur_rest special_def special_token_def g_clause_def)
    next
      case 2
      with sim_after_separator [OF gj Cons _ sub_word, of g_clause] Cons show ?thesis
        by (simp add: cur_rest special_def special_token_def g_clause_def)
    next
      case 3
      with gj Cons show ?thesis
        by (auto intro!: sim_ret simp: cur_rest lex_special special_def special_token_def g_clause_def)
    next
      case 4
      then have "?body (cur j) j = (Panic (show_nat (code c)), j)"
        using Cons by (auto simp: cur_rest special_def panic_def)
      moreover have "c \<noteq> CHR '' ''" using j(4) Cons by (auto simp: cur_rest)
      ultimately show ?thesis
        using lex_word_first [OF _ 4, of s] Cons
        by (fastforce simp: sim_def g_clause_def split: option.split)
    qed
  qed
  then show ?thesis
    by (intro sim_run [where m = pipe_step and n = "?body (cur j)" and j = j, OF run j(2)])
      (auto simp: j(3))
qed


lemma sim_pipe_loop:
  "good i \<Longrightarrow> sim (parse_pipe_loop cs) (\<lambda>ts. map_option (apfst ((@) cs)) (g_clauses ts)) i"
proof (induction cs i rule: parse_pipe_loop.induct)
  case (1 cs i)
  note step = sim_pipe_step [OF "1.prems"]
  have run: "parse_pipe_loop cs i = bnd pipe_step (\<lambda>o'. case o' of
      Some cl \<Rightarrow> parse_pipe_loop (cs @ [cl]) | None \<Rightarrow> ret cs) i"
    by (subst parse_pipe_loop.simps)
      (auto simp: bnd_def ret_def split: prod.split outcome.split option.split)
  have "sim (bnd pipe_step (\<lambda>o'. case o' of
      Some cl \<Rightarrow> parse_pipe_loop (cs @ [cl]) | None \<Rightarrow> ret cs))
      (\<lambda>ts. map_option (apfst ((@) cs)) (g_clauses ts)) i"
  proof (rule sim_bnd [OF step, where H = "\<lambda>o' ts. case o' of
      Some cl \<Rightarrow> map_option (apfst ((@) (cs @ [cl]))) (g_clauses ts) | None \<Rightarrow> Some (cs, ts)"])
    fix a j
    assume a: "pipe_step i = (Ok a, j)" and j: "after i j"
    show "sim (case a of Some cl \<Rightarrow> parse_pipe_loop (cs @ [cl]) | None \<Rightarrow> ret cs)
        (\<lambda>ts. case a of Some cl \<Rightarrow> map_option (apfst ((@) (cs @ [cl]))) (g_clauses ts)
           | None \<Rightarrow> Some (cs, ts)) j"
    proof (cases a)
      case None
      with j show ?thesis by (auto intro!: sim_ret simp: after_def)
    next
      case (Some cl)
      have "good j" using j by (simp add: after_def)
      with "1.IH" [OF a [symmetric] refl Some] Some show ?thesis by (simp only: option.case)
    qed
  next
    fix ts
    show "map_option (apfst ((@) cs)) (g_clauses ts) = Option.bind (g_clause ts) (\<lambda>(o', ts).
        case o' of Some cl \<Rightarrow> map_option (apfst ((@) (cs @ [cl]))) (g_clauses ts)
        | None \<Rightarrow> Some (cs, ts))"
      by (subst g_clauses.simps)
        (auto simp: option.map_comp o_def apfst_def map_prod_def split: option.split prod.split
          intro!: option.map_cong)
  qed
  then show ?case unfolding sim_def run .
qed

lemma sim_pipe:
  assumes "good i" and "cur i \<noteq> Some CHR '' ''"
  shows "sim parse_pipe g_pipe i"
  unfolding parse_pipe_def
proof (rule sim_bnd [OF sim_cmd [OF assms]])
  fix c j
  assume "after i j"
  then have "good j" by (simp add: after_def)
  show "sim (bnd (parse_pipe_loop []) (\<lambda>children.
      ret (if children = [] then Cmd c else Redirect (Cmd c) children)))
      (\<lambda>ts. map_option (apfst (\<lambda>cls. if cls = [] then Cmd c else Redirect (Cmd c) cls)) (g_clauses ts)) j"
  proof (rule sim_bnd [OF sim_pipe_loop [OF \<open>good j\<close>],
        where H = "\<lambda>cls ts. Some (if cls = [] then Cmd c else Redirect (Cmd c) cls, ts)"])
    fix cls k
    assume "after j k"
    then show "sim (ret (if cls = [] then Cmd c else Redirect (Cmd c) cls))
        (\<lambda>ts. Some (if cls = [] then Cmd c else Redirect (Cmd c) cls, ts)) k"
      by (intro sim_ret) (simp_all add: after_def)
  next
    fix ts
    show "map_option (apfst (\<lambda>cls. if cls = [] then Cmd c else Redirect (Cmd c) cls)) (g_clauses ts) =
        Option.bind (map_option (apfst ((@) [])) (g_clauses ts))
          (\<lambda>(cls, ts'). Some (if cls = [] then Cmd c else Redirect (Cmd c) cls, ts'))"
      by (cases "g_clauses ts") auto
  qed
qed (simp add: g_pipe_def)

lemma sim_seq_loop:
  "good i \<Longrightarrow> case lex (rest i) of
     Some ts \<Rightarrow> (case g_seq ts of
         Some cls \<Rightarrow> \<exists>j. parse_seq_loop cs i = (Ok (cs @ cls), j) \<and> after i j \<and> rest j = []
       | None \<Rightarrow> \<exists>p j. parse_seq_loop cs i = (Panic p, j))
   | None \<Rightarrow> \<exists>p j. parse_seq_loop cs i = (Panic p, j)"
proof (induction cs i rule: parse_seq_loop.induct)
  case (1 cs i)
  obtain j where j: "skip_whitespace i = (Ok (), j)" "after i j" "lex (rest j) = lex (rest i)"
    "cur j \<noteq> Some CHR '' ''"
    using skip_whitespace_after [OF "1.prems"] by blast
  then have gj: "good j" by (simp add: after_def)
  show ?case
  proof (cases "rest j")
    case Nil
    then have "parse_seq_loop cs i = (Ok cs, j)"
      using j by (subst parse_seq_loop.simps) (simp add: seq_step_def eff_defs cur_rest)
    with j Nil show ?thesis by (simp add: lex.simps g_seq.simps [of "[]"] flip: j(3))
  next
    case (Cons c s)
    show ?thesis
    proof (cases "c = CHR '';''")
      case False
      then have "parse_seq_loop cs i = (Panic (show_nat (code c)), j)"
        using j Cons by (subst parse_seq_loop.simps) (simp add: seq_step_def eff_defs cur_rest)
      moreover have "g_seq ts = None" if "lex (c # s) = Some ts" for ts
      proof (cases "special c")
        case True
        with that False show ?thesis
          by (auto simp: lex_special special_def special_token_def g_seq.simps [of "_ # _"])
      next
        case ns: False
        have "c \<noteq> CHR '' ''" using j(4) Cons by (auto simp: cur_rest)
        from lex_word_first [OF this ns that] show ?thesis
          by (auto simp: g_seq.simps [of "_ # _"])
      qed
      ultimately show ?thesis using Cons by (simp split: option.split flip: j(3))
    next
      case True
      then have sp: "special c" "special_token c = TSemi" by (simp_all add: special_def special_token_def)
      have "sim (thn consume_next (thn skip_whitespace parse_pipe)) (\<lambda>ts. g_pipe (tl ts)) j"
        by (rule sim_after_separator [OF gj Cons sp(1), where G = g_pipe])
          (auto intro!: sim_pipe simp: after_def)
      moreover have "seq_step i = bnd (thn consume_next (thn skip_whitespace parse_pipe))
          (\<lambda>p. ret (Some (SequenceClause Wait p))) j"
        using j(1) Cons True
        by (simp add: seq_step_def eff_defs cur_rest split: prod.split outcome.split)
      ultimately have step: "case lex (rest j) of
          Some ts \<Rightarrow> (case g_pipe (tl ts) of
              Some (p, ts') \<Rightarrow> \<exists>k. seq_step i = (Ok (Some (SequenceClause Wait p)), k) \<and>
                  after j k \<and> lex (rest k) = Some ts'
            | None \<Rightarrow> \<exists>p k. seq_step i = (Panic p, k))
        | None \<Rightarrow> (\<exists>p k. seq_step i = (Panic p, k)) \<or>
            (\<exists>p k. seq_step i = (Ok (Some (SequenceClause Wait p)), k) \<and> after j k \<and> lex (rest k) = None)"
        by (fastforce simp: sim_def eff_defs split: option.splits)
      have IH: "case lex (rest k) of
          Some ts \<Rightarrow> (case g_seq ts of
              Some cls \<Rightarrow> \<exists>l. parse_seq_loop cs i = (Ok (cs @ [cl] @ cls), l) \<and> after i l \<and> rest l = []
            | None \<Rightarrow> \<exists>p l. parse_seq_loop cs i = (Panic p, l))
        | None \<Rightarrow> \<exists>p l. parse_seq_loop cs i = (Panic p, l)"
        if k: "seq_step i = (Ok (Some cl), k)" "after j k" for cl k
      proof -
        have "parse_seq_loop cs i = parse_seq_loop (cs @ [cl]) k"
          using k(1) by (subst parse_seq_loop.simps) simp
        moreover have "after i l" if "after k l" for l
          using j(2) k(2) that by (blast intro: after_trans)
        ultimately show ?thesis
          using "1.IH" [of "Ok (Some cl)" k "Some cl" cl] k
          by (fastforce simp: after_def split: option.splits)
      qed
      show ?thesis
      proof (cases "lex s")
        case None
        then have "lex (rest j) = None" using Cons sp by (simp add: lex_special)
        with step consider p k where "seq_step i = (Panic p, k)"
          | p k where "seq_step i = (Ok (Some (SequenceClause Wait p)), k)" "after j k" "lex (rest k) = None"
          by auto
        then have "\<exists>p k. parse_seq_loop cs i = (Panic p, k)"
        proof cases
          case 1
          then show ?thesis by (subst parse_seq_loop.simps) simp
        next
          case 2
          with IH [OF 2(1,2)] show ?thesis by simp
        qed
        with \<open>lex (rest j) = None\<close> show ?thesis by (simp flip: j(3))
      next
        case (Some ts)
        then have lj: "lex (rest j) = Some (TSemi # ts)" using Cons sp by (simp add: lex_special)
        show ?thesis
        proof (cases "g_pipe ts")
          case None
          with step lj obtain p k where "seq_step i = (Panic p, k)" by auto
          then have "parse_seq_loop cs i = (Panic p, k)" by (subst parse_seq_loop.simps) simp
          with lj None show ?thesis by (simp add: g_seq.simps [of "_ # _"] flip: j(3))
        next
          case p: (Some pr)
          obtain p r where pr: "pr = (p, r)" by fastforce
          with step lj p obtain k where
            k: "seq_step i = (Ok (Some (SequenceClause Wait p)), k)" "after j k" "lex (rest k) = Some r"
            by auto
          from IH [OF k(1,2)] k(3) lj p pr show ?thesis
            by (auto simp: g_seq.simps [of "_ # _"] simp flip: j(3) split: option.splits)
        qed
      qed
    qed
  qed
qed

lemma parse_input_boundary_safe:
  assumes "boundary_safe s"
  shows "case Option.bind (lex s) grammar of
     Some a \<Rightarrow> parse_input s = Ok a
   | None \<Rightarrow> \<exists>p. parse_input s = Panic p"
proof -
  let ?i = "\<lparr>chars = s, pos = 0\<rparr>"
  have good_i: "good ?i"
    using assms by (simp add: good_def is_char_boundary_def)
  obtain j where j: "skip_whitespace ?i = (Ok (), j)" "after ?i j" "lex (rest j) = lex (rest ?i)"
    "cur j \<noteq> Some CHR '' ''"
    using skip_whitespace_after [OF good_i] by blast
  have lex_j: "lex (rest j) = lex s" unfolding j(3) by (simp add: rest_def)
  have gj: "good j" using j(2) by (simp add: after_def)
  show ?thesis
  proof (cases "rest j")
    case Nil
    then have "parse_input s = Ok Empty"
      using j(1) by (simp add: parse_input_def parse_line_def eff_defs cur_rest)
    moreover have "lex s = Some []" using Nil by (simp add: lex.simps flip: lex_j)
    ultimately show ?thesis by (simp add: grammar_def)
  next
    case (Cons c t)
    then have ne: "lex s \<noteq> Some []"
      using j(4) lex_word_first [of c t "[]"]
      by (cases "special c") (auto simp: cur_rest lex_special simp flip: lex_j)
    have run: "parse_input s = fst (bnd parse_seq (\<lambda>res.
       thn (bnd (gets (\<lambda>i. pos i = length (chars i))) (ensure ''input.pos == input.text.len()''))
       (ret res)) j)"
      using j(1) Cons by (simp add: parse_input_def parse_line_def eff_defs cur_rest)
    have seq: "parse_seq j = bnd parse_pipe (\<lambda>head. bnd (parse_seq_loop []) (\<lambda>children.
       ret (if children = [] then head else Sequence head children))) j"
      by (simp add: parse_seq_def)
    note pipe = sim_pipe [OF gj j(4), unfolded sim_def lex_j]
    have at_end: "pos k = length cs" if "good k" "rest k = []" "chars k = cs" for k cs
      using that by (auto simp: good_def rest_def intro: antisym)
    have tail: "case lex (rest k) of
       Some ts \<Rightarrow> (case g_seq ts of
           Some cls \<Rightarrow> parse_input s = Ok (if cls = [] then h else Sequence h cls)
         | None \<Rightarrow> \<exists>p. parse_input s = Panic p)
     | None \<Rightarrow> \<exists>p. parse_input s = Panic p"
      if k: "parse_pipe j = (Ok h, k)" "after j k" for h k
      using sim_seq_loop [of k "[]"] k
      by (auto simp: run seq eff_defs after_def intro: at_end split: option.splits)
    show ?thesis
    proof (cases "lex s")
      case None
      with pipe tail show ?thesis by (fastforce simp: run seq eff_defs)
    next
      case (Some ts)
      show ?thesis
      proof (cases "g_pipe ts")
        case None
        with pipe Some ne show ?thesis by (auto simp: run seq eff_defs grammar_def)
      next
        case p: (Some pr)
        obtain p r where "pr = (p, r)" by fastforce
        with pipe Some p ne tail show ?thesis
          by (fastforce simp: grammar_def split: option.splits)
      qed
    qed
  qed
qed

text \<open>
  C2: The parser computes the grammar of the lexed line, on every well-formed UTF-8 string: it
  answers the syntax tree where lexer and grammar give one and panics everywhere else. In
  particular it always answers, never returns an \<open>Err\<close>, never slices off a character boundary
  in a line it accepts, and its final assertion that all input was consumed never fails there.
\<close>

theorem parse_input_grammar:
  assumes "valid_utf8 s"
  shows "case Option.bind (lex s) grammar of
     Some a \<Rightarrow> parse_input s = Ok a
   | None \<Rightarrow> \<exists>p. parse_input s = Panic p"
  using parse_input_boundary_safe [OF valid_utf8_boundary_safe [OF assms]] .

section \<open>A concrete line\<close>

definition sample_line :: string where
  "sample_line = ''ls x | wc > out''"

definition sample_ast :: ast where
  "sample_ast = Redirect (Cmd (ShellCmd None [Normal ''ls'', Normal ''x'']))
     [RedirectClause Stdout (Command (Cmd (ShellCmd None [Normal ''wc'']))),
      RedirectClause Stdout (File (Normal ''out''))]"

lemma sample_valid: "valid_utf8 sample_line"
  by code_simp

lemma sample_parse: "parse_input sample_line = Ok sample_ast"
  by code_simp

lemma parse_input_grammar_witness:
  "case Option.bind (lex sample_line) grammar of
     Some a \<Rightarrow> parse_input sample_line = Ok a
   | None \<Rightarrow> \<exists>p. parse_input sample_line = Panic p"
  by (rule parse_input_grammar [OF sample_valid])

end
