(* ===== verification/Printer.thy ===== *)
theory Printer
  imports Grammar
begin

text \<open>
  A printer for syntax trees, and the round trip: whatever the parser answers, its printed
  form parses to the same tree. The printer quotes every word. On the way the theory states
  the shape of the parser's results, which the plan builder relies on.
\<close>

section \<open>The shape of a parsed line\<close>

fun wf_cmd :: "shell_cmd \<Rightarrow> bool" where
  "wf_cmd (ShellCmd remote words) \<longleftrightarrow> remote = None \<and> words \<noteq> []"

fun wf_clause :: "redirect_clause \<Rightarrow> bool" where
  "wf_clause (RedirectClause Stdout (File w)) = True"
| "wf_clause (RedirectClause Stdout (Command (Cmd c))) = wf_cmd c"
| "wf_clause _ = False"

fun wf_pipe :: "ast \<Rightarrow> bool" where
  "wf_pipe (Cmd c) = wf_cmd c"
| "wf_pipe (Redirect (Cmd c) cls) \<longleftrightarrow> wf_cmd c \<and> cls \<noteq> [] \<and> list_all wf_clause cls"
| "wf_pipe _ = False"

fun wf_seq_clause :: "sequence_clause \<Rightarrow> bool" where
  "wf_seq_clause (SequenceClause Wait p) = wf_pipe p"
| "wf_seq_clause _ = False"

fun wf_ast :: "ast \<Rightarrow> bool" where
  "wf_ast Empty = True"
| "wf_ast (Sequence p cls) \<longleftrightarrow> wf_pipe p \<and> cls \<noteq> [] \<and> list_all wf_seq_clause cls"
| "wf_ast a = wf_pipe a"

lemma wf_pipe_ast: "wf_pipe a \<Longrightarrow> wf_ast a"
  by (cases a) auto

lemma g_cmd_wf: "wf_cmd (fst (g_cmd ts))"
  by (simp add: g_cmd_def split: prod.split)

lemma g_clause_wf: "g_clause ts = Some (Some cl, r) \<Longrightarrow> wf_clause cl"
  using g_cmd_wf [of "tl ts"]
  by (auto simp: g_clause_def split: list.splits token.splits prod.splits)

lemma g_clauses_wf: "g_clauses ts = Some (cls, r) \<Longrightarrow> list_all wf_clause cls"
proof (induction ts arbitrary: cls rule: g_clauses.induct)
  case (1 ts)
  then show ?case
    by (subst (asm) (2) g_clauses.simps)
      (auto split: option.splits prod.splits dest: g_clause_wf)
qed

lemma g_pipe_wf: "g_pipe ts = Some (p, r) \<Longrightarrow> wf_pipe p"
  using g_cmd_wf [of ts] by (auto simp: g_pipe_def split: prod.splits dest: g_clauses_wf)

lemma g_seq_wf: "g_seq ts = Some cls \<Longrightarrow> list_all wf_seq_clause cls"
proof (induction ts arbitrary: cls rule: g_seq.induct)
  case (1 ts)
  then show ?case
    by (subst (asm) (2) g_seq.simps)
      (auto split: list.splits token.splits option.splits prod.splits dest: g_pipe_wf)
qed

lemma grammar_wf: "grammar ts = Some a \<Longrightarrow> wf_ast a"
  by (auto simp: grammar_def split: if_splits option.splits prod.splits
      dest: g_pipe_wf g_seq_wf intro: wf_pipe_ast)

lemma parse_input_Ok:
  assumes "boundary_safe s"
  shows "parse_input s = Ok a \<longleftrightarrow> (\<exists>ts. lex s = Some ts \<and> grammar ts = Some a)"
  using parse_input_boundary_safe [OF assms]
  by (cases "lex s"; cases "Option.bind (lex s) grammar") auto

text \<open>
  C32: What the parser answers for a line is empty, a pipeline, or a sequence of at least two
  pipelines joined by \<open>;\<close>. A pipeline is a command or a command with at least one clause, each
  sending standard output to a file or to another command; every command has at least one
  word and no remote. The tree never nests deeper than that, and never redirects standard
  error.
\<close>

theorem parse_input_wf:
  assumes "valid_utf8 s" and "parse_input s = Ok a"
  shows "wf_ast a"
  using assms parse_input_Ok [OF valid_utf8_boundary_safe [OF assms(1)]] grammar_wf by blast

section \<open>Printing\<close>

fun tok_words :: "shell_word list \<Rightarrow> token list" where
  "tok_words [] = []"
| "tok_words (Normal w # ws) = TWord w # tok_words ws"

fun tok_clause :: "redirect_clause \<Rightarrow> token list" where
  "tok_clause (RedirectClause _ (File w)) = TRedir # tok_words [w]"
| "tok_clause (RedirectClause _ (Command (Cmd c))) = TPipe # tok_words (cmd_words c)"
| "tok_clause _ = []"

fun tok_pipe :: "ast \<Rightarrow> token list" where
  "tok_pipe (Cmd c) = tok_words (cmd_words c)"
| "tok_pipe (Redirect (Cmd c) cls) = tok_words (cmd_words c) @ concat (map tok_clause cls)"
| "tok_pipe _ = []"

fun tok_seq_clause :: "sequence_clause \<Rightarrow> token list" where
  "tok_seq_clause (SequenceClause _ p) = TSemi # tok_pipe p"

fun tokens_of :: "ast \<Rightarrow> token list" where
  "tokens_of Empty = []"
| "tokens_of (Sequence p cls) = tok_pipe p @ concat (map tok_seq_clause cls)"
| "tokens_of a = tok_pipe a"

fun print_token :: "token \<Rightarrow> string" where
  "print_token (TWord w) = CHR 0x22 # w @ [CHR 0x22, CHR '' '']"
| "print_token TPipe = ''| ''"
| "print_token TRedir = ''> ''"
| "print_token TSemi = ''; ''"

definition print_ast :: "ast \<Rightarrow> string" where
  "print_ast a = concat (map print_token (tokens_of a))"

definition printable :: "token \<Rightarrow> bool" where
  "printable t \<longleftrightarrow> (case t of TWord w \<Rightarrow> CHR 0x22 \<notin> set w \<and> boundary_safe w | _ \<Rightarrow> True)"

lemma lex_print_token:
  assumes "printable t"
  shows "lex (print_token t @ s) = map_option (Cons t) (lex s)"
proof -
  have sp: "lex (CHR '' '' # s) = lex s" by (simp add: lex.simps)
  show ?thesis
  proof (cases t)
    case (TWord w)
    with assms have q: "\<forall>c \<in> set w. c \<noteq> CHR 0x22" by (auto simp: printable_def)
    have "dropWhile (\<lambda>x. x \<noteq> CHR 0x22) (w @ CHR 0x22 # CHR '' '' # s) = CHR 0x22 # CHR '' '' # s"
      "takeWhile (\<lambda>x. x \<noteq> CHR 0x22) (w @ CHR 0x22 # CHR '' '' # s) = w"
      using q by (subst dropWhile_append2 takeWhile_append2; auto)+
    with TWord sp show ?thesis by (simp add: lex_quote)
  qed (use sp in \<open>simp_all add: lex_special special_def special_token_def\<close>)
qed

lemma lex_print: "list_all printable ts \<Longrightarrow> lex (concat (map print_token ts)) = Some ts"
  by (induction ts) (simp_all add: lex_print_token lex.simps(1))

lemma boundary_safe_print: "list_all printable ts \<Longrightarrow> boundary_safe (concat (map print_token ts))"
proof (induction ts)
  case (Cons t ts)
  have ascii: "\<not> cont_byte CHR 0x22" "\<not> cont_byte CHR '' ''" "\<not> cont_byte CHR ''|''"
    "\<not> cont_byte CHR ''>''" "\<not> cont_byte CHR '';''" by (simp_all add: cont_byte_def)
  with Cons show ?case
    by (cases t) (auto simp: boundary_safe_def ascii_bounded_Cons ascii_bounded_append printable_def
        hd_append)
qed (simp add: boundary_safe_def)

text \<open>The words of a lexed line have no quote in them and start at a character boundary.\<close>

lemma boundary_safe_tl: "boundary_safe (c # s) \<Longrightarrow> code c < 128 \<Longrightarrow> boundary_safe s"
  by (auto simp: boundary_safe_def ascii_bounded_Cons)

lemma boundary_safe_takeWhile: "boundary_safe s \<Longrightarrow> boundary_safe (takeWhile P s)"
proof -
  assume s: "boundary_safe s"
  then have "ascii_bounded (takeWhile P s)"
    by (subst takeWhile_eq_take) (simp add: boundary_safe_def ascii_bounded_take)
  with s show ?thesis by (cases s) (auto simp: boundary_safe_def)
qed

lemma boundary_safe_dropWhile:
  assumes "boundary_safe s" and "dropWhile P s = q # r" and "code q < 128"
  shows "boundary_safe (q # r)"
proof -
  have "ascii_bounded (dropWhile P s)"
    using assms(1) by (subst dropWhile_eq_drop) (simp add: boundary_safe_def ascii_bounded_drop)
  with assms(2,3) show ?thesis by (simp add: boundary_safe_def cont_byte_def)
qed

lemma lex_printable: "boundary_safe s \<Longrightarrow> lex s = Some ts \<Longrightarrow> list_all printable ts"
proof (induction s arbitrary: ts rule: lex.induct)
  case 1
  then show ?case by (simp add: lex.simps)
next
  case (2 c s)
  show ?case
  proof (cases "c = CHR '' '' \<or> special c")
    case True
    then have "boundary_safe s" using 2(5) by (auto intro: boundary_safe_tl code_special)
    with True 2(1,2,6) show ?thesis
      by (auto simp: lex.simps(2) printable_def special_token_def split: if_splits)
  next
    case plain: False
    show ?thesis
    proof (cases "c = CHR 0x22")
      case True
      with 2(6) obtain q r us where r: "dropWhile (\<lambda>x. x \<noteq> CHR 0x22) s = q # r" "lex r = Some us"
        "ts = TWord (takeWhile (\<lambda>x. x \<noteq> CHR 0x22) s) # us"
        by (auto simp: lex_quote simp del: dropWhile_eq_Nil_conv split: list.splits)
      have q: "code q < 128" using r(1) by (auto dest: dropWhile_eq_Cons_conv [THEN iffD1])
      have s: "boundary_safe s" using 2(5) True by (auto intro: boundary_safe_tl)
      then have "boundary_safe r" using boundary_safe_dropWhile r(1) q boundary_safe_tl by blast
      with 2(3) r plain True have "list_all printable us" by blast
      moreover have "printable (TWord (takeWhile (\<lambda>x. x \<noteq> CHR 0x22) s))"
        using s by (auto simp: printable_def boundary_safe_takeWhile dest: set_takeWhileD)
      ultimately show ?thesis using r(3) by simp
    next
      case False
      with plain have b: "bare c" by (simp add: bare_def)
      have w: "printable (TWord (takeWhile bare (c # s)))"
        using boundary_safe_takeWhile [OF 2(5), of bare]
        by (auto simp: printable_def bare_def simp del: takeWhile.simps dest!: set_takeWhileD)
      show ?thesis
      proof (cases "dropWhile bare (c # s)")
        case Nil
        with w b 2(6) show ?thesis
          by (auto simp: lex_bare simp del: dropWhile_eq_Nil_conv dropWhile.simps takeWhile.simps)
      next
        case (Cons q r)
        then have qb: "\<not> bare q"
          using hd_dropWhile [of bare "c # s"] by (simp del: dropWhile.simps)
        with Cons b 2(6) obtain us where us: "lex (q # r) = Some us" "q \<noteq> CHR 0x22"
          "ts = TWord (takeWhile bare (c # s)) # us"
          by (auto simp: lex_bare simp del: dropWhile.simps takeWhile.simps split: if_splits)
        have "code q < 128" using qb by (auto simp: bare_def intro: code_special)
        then have "boundary_safe (q # r)" using boundary_safe_dropWhile 2(5) Cons by blast
        moreover have "dropWhile bare s = q # r" using Cons b by simp
        ultimately have "list_all printable us" using 2(4) plain False us by blast
        with w us(3) show ?thesis by simp
      qed
    qed
  qed
qed


section \<open>The grammar reads printed tokens back\<close>

definition no_word :: "token list \<Rightarrow> bool" where
  "no_word ts \<longleftrightarrow> (case ts of TWord _ # _ \<Rightarrow> False | _ \<Rightarrow> True)"

definition ends_pipe :: "token list \<Rightarrow> bool" where
  "ends_pipe ts \<longleftrightarrow> (case ts of [] \<Rightarrow> True | TSemi # _ \<Rightarrow> True | _ \<Rightarrow> False)"

lemma ends_pipe_no_word: "ends_pipe ts \<Longrightarrow> no_word ts"
  by (auto simp: ends_pipe_def no_word_def split: list.splits token.splits)

lemma words_of_no_word: "no_word ts \<Longrightarrow> words_of ts = ([], ts)"
  by (cases ts rule: words_of.cases) (auto simp: no_word_def)

lemma words_of_tok: "no_word ts \<Longrightarrow> words_of (tok_words ws @ ts) = (map expand_string ws, ts)"
  by (induction ws rule: tok_words.induct) (simp_all add: words_of_no_word expand_string_def)

lemma map_Normal_expand: "map (Normal \<circ> expand_string) ws = ws"
  by (induction ws rule: tok_words.induct) (simp_all add: expand_string_def)

lemma g_cmd_tok: "wf_cmd c \<Longrightarrow> no_word ts \<Longrightarrow> g_cmd (tok_words (cmd_words c) @ ts) = (c, ts)"
  by (cases c) (simp add: g_cmd_def words_of_tok map_Normal_expand)

lemma g_clause_tok: "wf_clause cl \<Longrightarrow> no_word ts \<Longrightarrow> g_clause (tok_clause cl @ ts) = Some (Some cl, ts)"
proof (induction cl rule: wf_clause.induct)
  case (1 w)
  then show ?case by (cases w) (simp add: g_clause_def g_word_def)
next
  case (2 c)
  then show ?case by (simp add: g_clause_def g_cmd_tok)
qed simp_all

lemma no_word_clauses: "no_word ts \<Longrightarrow> list_all wf_clause cls \<Longrightarrow> no_word (concat (map tok_clause cls) @ ts)"
proof (cases cls)
  case (Cons cl cls')
  moreover assume "list_all wf_clause cls"
  ultimately show ?thesis by (cases cl rule: wf_clause.cases) (auto simp: no_word_def)
qed simp

lemma g_clauses_tok:
  "list_all wf_clause cls \<Longrightarrow> ends_pipe ts \<Longrightarrow> g_clauses (concat (map tok_clause cls) @ ts) = Some (cls, ts)"
proof (induction cls)
  case Nil
  then show ?case
    by (subst g_clauses.simps) (auto simp: ends_pipe_def g_clause_def split: list.splits token.splits)
next
  case (Cons cl cls)
  then have "g_clause (tok_clause cl @ concat (map tok_clause cls) @ ts) =
      Some (Some cl, concat (map tok_clause cls) @ ts)"
    by (intro g_clause_tok no_word_clauses) (auto dest: ends_pipe_no_word)
  with Cons show ?case by (subst g_clauses.simps) simp
qed

lemma g_pipe_tok:
  assumes "wf_pipe p" and "ends_pipe ts"
  shows "g_pipe (tok_pipe p @ ts) = Some (p, ts)"
  using assms
proof (cases p rule: wf_pipe.cases)
  case (1 c)
  with assms g_clauses_tok [of "[]" ts] show ?thesis
    by (simp add: g_pipe_def g_cmd_tok ends_pipe_no_word)
next
  case (2 c cls)
  with assms have "g_cmd (tok_words (cmd_words c) @ concat (map tok_clause cls) @ ts) =
      (c, concat (map tok_clause cls) @ ts)"
    by (intro g_cmd_tok no_word_clauses) (auto dest: ends_pipe_no_word)
  with 2 assms show ?thesis by (simp add: g_pipe_def g_clauses_tok)
qed simp_all

lemma ends_pipe_seq: "ends_pipe (concat (map tok_seq_clause cls))"
proof (cases cls)
  case (Cons cl cls')
  then show ?thesis by (cases cl) (simp add: ends_pipe_def)
qed (simp add: ends_pipe_def)

lemma g_seq_tok:
  "list_all wf_seq_clause cls \<Longrightarrow> g_seq (concat (map tok_seq_clause cls)) = Some cls"
proof (induction cls)
  case Nil
  then show ?case by (simp add: g_seq.simps)
next
  case (Cons cl cls)
  then obtain p where p: "cl = SequenceClause Wait p" "wf_pipe p" by (cases cl rule: wf_seq_clause.cases) auto
  from Cons p g_pipe_tok [OF p(2) ends_pipe_seq] show ?case by (subst g_seq.simps) simp
qed

lemma tok_words_Nil [simp]: "tok_words ws = [] \<longleftrightarrow> ws = []"
  by (cases ws rule: tok_words.cases) auto

lemma tok_pipe_nonempty: "wf_pipe p \<Longrightarrow> tok_pipe p \<noteq> []"
proof (cases p rule: wf_pipe.cases)
  case (1 c)
  moreover assume "wf_pipe p"
  ultimately show ?thesis by (cases c) simp
next
  case (2 c cls)
  moreover assume "wf_pipe p"
  ultimately show ?thesis by (cases c) simp
qed simp_all

lemma grammar_pipe: "wf_pipe p \<Longrightarrow> grammar (tok_pipe p) = Some p"
  using g_pipe_tok [of p "[]"] tok_pipe_nonempty [of p]
  by (simp add: grammar_def ends_pipe_def g_seq.simps)

lemma grammar_tokens: "wf_ast a \<Longrightarrow> grammar (tokens_of a) = Some a"
proof (cases a)
  case Empty
  then show ?thesis by (simp add: grammar_def)
next
  case (Sequence p cls)
  moreover assume "wf_ast a"
  ultimately have wf: "wf_pipe p" "list_all wf_seq_clause cls" "cls \<noteq> []" by simp_all
  with wf g_pipe_tok [OF wf(1) ends_pipe_seq] tok_pipe_nonempty [OF wf(1)] g_seq_tok [OF wf(2)] Sequence
  show ?thesis by (simp add: grammar_def)
next
  case (Cmd c)
  moreover assume "wf_ast a"
  ultimately show ?thesis using grammar_pipe [of a] by simp
next
  case (Redirect h cls)
  moreover assume "wf_ast a"
  ultimately show ?thesis using grammar_pipe [of a] by simp
qed

section \<open>The tokens of a parsed tree are printable\<close>

lemma tok_words_words_of:
  "words_of ts = (ws, r) \<Longrightarrow> ts = tok_words (map Normal ws) @ r"
  by (induction ts arbitrary: ws rule: words_of.induct) (auto split: prod.splits)

lemma empty_word_printable: "printable (TWord [])"
  by (simp add: printable_def boundary_safe_def)

lemma g_cmd_printable:
  assumes "g_cmd ts = (c, r)" and "list_all printable ts"
  shows "list_all printable (tok_words (cmd_words c)) \<and> list_all printable r"
proof -
  obtain ws r' where "words_of ts = (ws, r')" by fastforce
  with assms tok_words_words_of [of ts ws r'] show ?thesis
    by (auto simp: g_cmd_def empty_word_printable split: if_splits)
qed

lemma g_word_printable:
  "g_word ts = (w, r) \<Longrightarrow> list_all printable ts \<Longrightarrow> list_all printable (tok_words [w]) \<and> list_all printable r"
  by (auto simp: g_word_def empty_word_printable split: list.splits token.splits)

lemma g_clause_printable:
  "g_clause ts = Some (Some cl, r) \<Longrightarrow> list_all printable ts \<Longrightarrow>
     list_all printable (tok_clause cl) \<and> list_all printable r"
  by (auto simp: g_clause_def printable_def [of TRedir] printable_def [of TPipe]
      split: list.splits token.splits prod.splits dest: g_cmd_printable g_word_printable)

lemma g_clauses_printable:
  "g_clauses ts = Some (cls, r) \<Longrightarrow> list_all printable ts \<Longrightarrow>
     list_all printable (concat (map tok_clause cls)) \<and> list_all printable r"
proof (induction ts arbitrary: cls rule: g_clauses.induct)
  case (1 ts)
  show ?case
  proof (cases "g_clause ts")
    case None
    with "1.prems" show ?thesis by (simp add: g_clauses.simps [of ts])
  next
    case (Some x)
    obtain o' r' where x: "x = (o', r')" by fastforce
    show ?thesis
    proof (cases o')
      case None
      with Some x "1.prems" show ?thesis
        by (auto simp: g_clauses.simps [of ts] g_clause_def split: list.splits token.splits prod.splits)
    next
      case cl: (Some cl)
      with Some x "1.prems" obtain cls' where rec: "g_clauses r' = Some (cls', r)" "cls = cl # cls'"
        by (auto simp: g_clauses.simps [of ts])
      have "list_all printable (tok_clause cl)" "list_all printable r'"
        using g_clause_printable [of ts cl r'] Some x cl "1.prems"(2) by auto
      with "1.IH" [OF Some x [symmetric] cl rec(1)] rec(2) show ?thesis by simp
    qed
  qed
qed

lemma g_pipe_printable:
  assumes "g_pipe ts = Some (p, r)" and "list_all printable ts"
  shows "list_all printable (tok_pipe p) \<and> list_all printable r"
proof -
  obtain c r' where c: "g_cmd ts = (c, r')" by fastforce
  with assms(1) obtain cls where "g_clauses r' = Some (cls, r)"
    "p = (if cls = [] then Cmd c else Redirect (Cmd c) cls)"
    by (auto simp: g_pipe_def)
  with g_cmd_printable [OF c assms(2)] g_clauses_printable [of r' cls r] show ?thesis by auto
qed

lemma g_seq_printable:
  "g_seq ts = Some cls \<Longrightarrow> list_all printable ts \<Longrightarrow> list_all printable (concat (map tok_seq_clause cls))"
proof (induction ts arbitrary: cls rule: g_seq.induct)
  case (1 ts)
  show ?case
  proof (cases "ts = [] \<or> hd ts \<noteq> TSemi")
    case True
    with "1.prems" show ?thesis
      by (subst (asm) g_seq.simps) (auto split: list.splits token.splits)
  next
    case False
    then obtain r where 5: "ts = TSemi # r" by (cases ts) auto
    with "1.prems"(1) obtain p r' cls' where p: "g_pipe r = Some (p, r')" "g_seq r' = Some cls'"
      "cls = SequenceClause Wait p # cls'"
      by (auto simp: 5 g_seq.simps [of "TSemi # r"] split: option.splits)
    with g_pipe_printable [OF p(1)] "1.prems"(2) 5 "1.IH" [OF 5 refl p(1) _ p(2)] show ?thesis
      by (simp add: printable_def [of TSemi])
  qed
qed

lemma grammar_printable:
  assumes "grammar ts = Some a" and "list_all printable ts"
  shows "list_all printable (tokens_of a)"
proof (cases "ts = []")
  case True
  with assms show ?thesis by (simp add: grammar_def)
next
  case False
  with assms obtain p r cls where p: "g_pipe ts = Some (p, r)" "g_seq r = Some cls"
    "a = (if cls = [] then p else Sequence p cls)"
    by (auto simp: grammar_def split: option.splits prod.splits)
  have "tokens_of p = tok_pipe p" using g_pipe_wf [OF p(1)] by (cases p rule: wf_pipe.cases) auto
  with p g_pipe_printable [OF p(1) assms(2)] g_seq_printable [OF p(2)] show ?thesis by simp
qed

text \<open>
  C20: Printing and parsing is a round trip on everything the parser can answer: if a line
  parses to a tree, the printed form of the tree, with every word quoted, parses to that tree.
\<close>

theorem parse_print_roundtrip:
  assumes "valid_utf8 s" and "parse_input s = Ok a"
  shows "parse_input (print_ast a) = Ok a"
proof -
  have s: "boundary_safe s" using assms(1) by (rule valid_utf8_boundary_safe)
  with assms(2) obtain ts where ts: "lex s = Some ts" "grammar ts = Some a"
    using parse_input_Ok by blast
  then have pr: "list_all printable (tokens_of a)"
    using lex_printable [OF s] grammar_printable by blast
  have "lex (print_ast a) = Some (tokens_of a)"
    unfolding print_ast_def by (rule lex_print [OF pr])
  moreover have "grammar (tokens_of a) = Some a"
    using grammar_wf [OF ts(2)] by (rule grammar_tokens)
  moreover have "boundary_safe (print_ast a)"
    unfolding print_ast_def by (rule boundary_safe_print [OF pr])
  ultimately show ?thesis using parse_input_Ok by blast
qed

lemma parse_input_wf_witness: "wf_ast sample_ast"
  by (rule parse_input_wf [OF sample_valid sample_parse])

lemma parse_print_roundtrip_witness: "parse_input (print_ast sample_ast) = Ok sample_ast"
  by (rule parse_print_roundtrip [OF sample_valid sample_parse])

end
