(* ===== verification/Prefs.thy ===== *)
theory Prefs
  imports Prelude "HOL-Library.Sublist"
begin

text \<open>
  \<open>frontend/src/prefs.rs\<close>: the alias rules of the preferences file and their expansion. The
  loop over a rule's \<open>find\<close> items is a fold over the iterator, the word under it and the two
  match maps; \<open>continue 'outer\<close> is the answer False.
\<close>

section \<open>Rules\<close>

datatype item =
    Literal string
  | Variable nat
  | Expando nat

record rule =
  find :: "item list"
  replace :: "item list"

record prefs =
  aliases :: "rule list"

definition prefs_default :: prefs where
  "prefs_default = \<lparr>aliases = []\<rparr>"

section \<open>Loading\<close>

text \<open>
  The file system and \<open>serde_json::from_str\<close> are parameters: \<open>open_file\<close> answers the text
  that reading the file to its end gives, or the error of one of the two calls.
\<close>

datatype io_error = NotFound | OtherError string

datatype file_answer = OpenError io_error | ReadError string | Contents string

definition path_join :: "string \<Rightarrow> string \<Rightarrow> string" where
  "path_join p q = (if take 1 q = ''/'' then q
     else if p = [] \<or> last p = CHR ''/'' then p @ q else p @ ''/'' @ q)"

definition load :: "string option \<Rightarrow> (string \<Rightarrow> file_answer) \<Rightarrow> (string \<Rightarrow> prefs outcome) \<Rightarrow>
    prefs outcome" where
  "load home_dir open_file from_str = (case home_dir of
     None \<Rightarrow> Panic ''unwrap''
   | Some home \<Rightarrow> (case open_file (path_join (path_join (path_join home ''.config'') ''nak'') ''prefs.nak'') of
       Contents s \<Rightarrow> from_str s
     | ReadError e \<Rightarrow> Err e
     | OpenError NotFound \<Rightarrow> Ok prefs_default
     | OpenError (OtherError e) \<Rightarrow> Err e))"

section \<open>Expansion\<close>

record matching =
  var_matches :: "nat \<rightharpoonup> string"
  expando_matches :: "nat \<rightharpoonup> string list"
  it :: "string list"
  next_word :: "string option"

definition it_next :: "(matching, unit) eff" where
  "it_next = upd (\<lambda>s. case it s of
     [] \<Rightarrow> s\<lparr>next_word := None\<rparr>
   | w # ws \<Rightarrow> s\<lparr>it := ws, next_word := Some w\<rparr>)"

definition start_matching :: "string list \<Rightarrow> matching" where
  "start_matching cmd = snd (it_next
     \<lparr>var_matches = Map.empty, expando_matches = Map.empty, it = cmd, next_word = None\<rparr>)"

definition fresh_id :: "nat \<Rightarrow> (matching, unit) eff" where
  "fresh_id k = bnd (gets var_matches) (\<lambda>vm. bnd (gets expando_matches) (\<lambda>em.
     thn (ensure ''!var_matches.contains_key(id)'' (vm k = None))
     (ensure ''!expando_matches.contains_key(id)'' (em k = None))))"

definition match_item :: "item \<Rightarrow> (matching, bool) eff" where
  "match_item i = (case i of
     Literal word \<Rightarrow> bnd (gets next_word) (\<lambda>n.
       if n = Some word then thn it_next (ret True) else ret False)
   | Variable k \<Rightarrow> thn (fresh_id k) (bnd (gets next_word) (\<lambda>n. case n of
       Some word \<Rightarrow> thn (upd (\<lambda>s. s\<lparr>var_matches := (var_matches s)(k \<mapsto> word)\<rparr>))
         (thn it_next (ret True))
     | None \<Rightarrow> ret False))
   | Expando k \<Rightarrow> thn (fresh_id k) (bnd (gets next_word) (\<lambda>n.
       bnd (case n of
              Some w \<Rightarrow> bnd (gets it) (\<lambda>ws. thn (upd (\<lambda>s. s\<lparr>it := []\<rparr>)) (ret (w # ws)))
            | None \<Rightarrow> ret []) (\<lambda>words.
       thn (upd (\<lambda>s. s\<lparr>expando_matches := (expando_matches s)(k \<mapsto> words)\<rparr>)) (ret True)))))"

primrec match_items :: "item list \<Rightarrow> (matching, bool) eff" where
  "match_items [] = ret True"
| "match_items (i # is) = bnd (match_item i) (\<lambda>go. if go then match_items is else ret False)"

text \<open>The loop over \<open>replace\<close>: each use of an identifier removes it from its map.\<close>

definition build_item :: "item \<Rightarrow> (matching, string list) eff" where
  "build_item i = (case i of
     Literal word \<Rightarrow> ret [word]
   | Variable k \<Rightarrow> bnd (gets (\<lambda>s. var_matches s k)) (\<lambda>v. bnd (expect ''unwrap'' v) (\<lambda>word.
       thn (upd (\<lambda>s. s\<lparr>var_matches := (var_matches s)(k := None)\<rparr>)) (ret [word])))
   | Expando k \<Rightarrow> bnd (gets (\<lambda>s. expando_matches s k)) (\<lambda>v. bnd (expect ''unwrap'' v) (\<lambda>words.
       thn (upd (\<lambda>s. s\<lparr>expando_matches := (expando_matches s)(k := None)\<rparr>)) (ret words))))"

primrec build_items :: "item list \<Rightarrow> string list \<Rightarrow> (matching, string list) eff" where
  "build_items [] res = ret res"
| "build_items (i # is) res = bnd (build_item i) (\<lambda>ws. build_items is (res @ ws))"

definition apply_rule :: "rule \<Rightarrow> string list \<Rightarrow> string list option outcome" where
  "apply_rule r cmd = fst (bnd (match_items (find r)) (\<lambda>go.
     if go then bnd (build_items (replace r) []) (\<lambda>res. ret (Some res)) else ret None)
     (start_matching cmd))"

primrec expand_rules :: "rule list \<Rightarrow> string list \<Rightarrow> string list outcome" where
  "expand_rules [] cmd = Ok cmd"
| "expand_rules (r # rs) cmd = (case apply_rule r cmd of
     Ok (Some res) \<Rightarrow> Ok res
   | Ok None \<Rightarrow> expand_rules rs cmd
   | Err e \<Rightarrow> Err e
   | Panic p \<Rightarrow> Panic p
   | Diverge \<Rightarrow> Diverge)"

definition expand :: "prefs \<Rightarrow> string list \<Rightarrow> string list outcome" where
  "expand p cmd = expand_rules (aliases p) cmd"

section \<open>Rules as substitutions\<close>

text \<open>
  The meaning of a rule: an assignment of words to variables and of word lists to expandos
  turns both sides into words.
\<close>

primrec item_words :: "(nat \<Rightarrow> string) \<Rightarrow> (nat \<Rightarrow> string list) \<Rightarrow> item \<Rightarrow> string list" where
  "item_words v x (Literal w) = [w]"
| "item_words v x (Variable i) = [v i]"
| "item_words v x (Expando i) = x i"

definition words_under :: "(nat \<Rightarrow> string) \<Rightarrow> (nat \<Rightarrow> string list) \<Rightarrow> item list \<Rightarrow> string list" where
  "words_under v x is = concat (map (item_words v x) is)"

definition is_expando :: "item \<Rightarrow> bool" where
  "is_expando i \<longleftrightarrow> (case i of Expando _ \<Rightarrow> True | _ \<Rightarrow> False)"

fun vars_of :: "item list \<Rightarrow> nat list" where
  "vars_of [] = []"
| "vars_of (Variable i # is) = i # vars_of is"
| "vars_of (_ # is) = vars_of is"

fun expandos_of :: "item list \<Rightarrow> nat list" where
  "expandos_of [] = []"
| "expandos_of (Expando i # is) = i # expandos_of is"
| "expandos_of (_ # is) = expandos_of is"

text \<open>
  A rule the code can apply without a panic: no identifier occurs twice on the left, an
  expando stands last, and the right side uses each identifier of the left at most once.
\<close>

definition wf_rule :: "rule \<Rightarrow> bool" where
  "wf_rule r \<longleftrightarrow> distinct (vars_of (find r) @ expandos_of (find r)) \<and>
     list_all (\<lambda>i. \<not> is_expando i) (butlast (find r)) \<and>
     distinct (vars_of (replace r)) \<and> distinct (expandos_of (replace r)) \<and>
     set (vars_of (replace r)) \<subseteq> set (vars_of (find r)) \<and>
     set (expandos_of (replace r)) \<subseteq> set (expandos_of (find r))"

text \<open>
  \<open>fits r cmd v x\<close>: the left side under \<open>v\<close> and \<open>x\<close> is a beginning of the command line, and
  an expando reaches its end.
\<close>

definition fits :: "rule \<Rightarrow> string list \<Rightarrow> (nat \<Rightarrow> string) \<Rightarrow> (nat \<Rightarrow> string list) \<Rightarrow> bool" where
  "fits r cmd v x \<longleftrightarrow> prefix (words_under v x (find r)) cmd \<and>
     (expandos_of (find r) \<noteq> [] \<longrightarrow> words_under v x (find r) = cmd)"


lemma words_under_simps [simp]:
  "words_under v x [] = []"
  "words_under v x (i # is) = item_words v x i @ words_under v x is"
  "words_under v x (is @ js) = words_under v x is @ words_under v x js"
  by (simp_all add: words_under_def)

lemma words_under_cong:
  assumes "\<And>k. k \<in> set (vars_of is) \<Longrightarrow> v k = v' k" and "\<And>k. k \<in> set (expandos_of is) \<Longrightarrow> x k = x' k"
  shows "words_under v x is = words_under v' x' is"
  using assms
proof (induction "is")
  case (Cons i "is")
  then show ?case by (cases i) auto
qed simp

lemma ids_append [simp]:
  "vars_of (is @ js) = vars_of is @ vars_of js"
  "expandos_of (is @ js) = expandos_of is @ expandos_of js"
  by (induction "is" rule: vars_of.induct) auto

lemma expandos_plain: "list_all (\<lambda>i. \<not> is_expando i) is \<Longrightarrow> expandos_of is = []"
  by (induction "is" rule: expandos_of.induct) (auto simp: is_expando_def)

section \<open>Matching a rule\<close>

text \<open>The words not matched yet, before an expando has taken them.\<close>

definition unread :: "matching \<Rightarrow> string list" where
  "unread s = (case next_word s of None \<Rightarrow> [] | Some w \<Rightarrow> w # it s)"

definition tidy :: "matching \<Rightarrow> bool" where
  "tidy s \<longleftrightarrow> (next_word s = None \<longrightarrow> it s = [])"

lemma it_next_run: "tidy s \<Longrightarrow> \<exists>t. it_next s = (Ok (), t) \<and> tidy t \<and> unread t = tl (unread s) \<and>
    var_matches t = var_matches s \<and> expando_matches t = expando_matches s"
  by (cases "it s"; cases "next_word s") (auto simp: it_next_def eff_defs unread_def tidy_def)

lemma start_matching_simps [simp]:
  "tidy (start_matching cmd)" "unread (start_matching cmd) = cmd"
  "var_matches (start_matching cmd) = Map.empty" "expando_matches (start_matching cmd) = Map.empty"
  by (cases cmd; simp add: start_matching_def it_next_def eff_defs unread_def tidy_def)+

lemma match_literal:
  assumes "tidy s"
  shows "if unread s \<noteq> [] \<and> hd (unread s) = w
    then \<exists>t. match_item (Literal w) s = (Ok True, t) \<and> tidy t \<and> unread t = tl (unread s) \<and>
      var_matches t = var_matches s \<and> expando_matches t = expando_matches s
    else match_item (Literal w) s = (Ok False, s)"
  using it_next_run [OF assms]
  by (cases "next_word s") (auto simp: match_item_def eff_defs unread_def)

lemma match_variable:
  assumes "tidy s" and "var_matches s k = None" and "expando_matches s k = None"
  shows "if unread s \<noteq> []
    then \<exists>t. match_item (Variable k) s = (Ok True, t) \<and> tidy t \<and> unread t = tl (unread s) \<and>
      var_matches t = (var_matches s)(k \<mapsto> hd (unread s)) \<and> expando_matches t = expando_matches s
    else match_item (Variable k) s = (Ok False, s)"
  using assms
  by (cases "next_word s"; cases "it s")
    (auto simp: match_item_def fresh_id_def it_next_def eff_defs unread_def tidy_def)

lemma match_expando:
  assumes "var_matches s k = None" and "expando_matches s k = None"
  shows "\<exists>t. match_item (Expando k) s = (Ok True, t) \<and> var_matches t = var_matches s \<and>
      expando_matches t = (expando_matches s)(k \<mapsto> unread s)"
  using assms
  by (cases "next_word s") (auto simp: match_item_def fresh_id_def eff_defs unread_def)

lemma match_items_append:
  "match_items (is @ js) = bnd (match_items is) (\<lambda>go. if go then match_items js else ret False)"
  by (induction "is") (auto simp: eff_defs fun_eq_iff split: outcome.split prod.split)

lemma match_plain:
  assumes "list_all (\<lambda>i. \<not> is_expando i) is" and "distinct (vars_of is)" and "tidy s"
    and "set (vars_of is) \<inter> dom (var_matches s) = {}" and "expando_matches s = Map.empty"
  shows "\<exists>b t. match_items is s = (Ok b, t) \<and> (if b
     then tidy t \<and> expando_matches t = Map.empty \<and> var_matches s \<subseteq>\<^sub>m var_matches t \<and>
       dom (var_matches t) = dom (var_matches s) \<union> set (vars_of is) \<and>
       (\<forall>x. unread s = words_under (the \<circ> var_matches t) x is @ unread t)
     else \<forall>v x. \<not> prefix (words_under v x is) (unread s))"
  using assms
proof (induction "is" arbitrary: s)
  case Nil
  then show ?case by (intro exI [of _ True] exI [of _ s]) (simp add: eff_defs)
next
  case (Cons i "is")
  show ?case
  proof (cases i)
    case (Literal w)
    show ?thesis
    proof (cases "unread s \<noteq> [] \<and> hd (unread s) = w")
      case True
      with match_literal [OF Cons.prems(3), of w] obtain u where
        u: "match_item (Literal w) s = (Ok True, u)" "tidy u" "unread s = w # unread u"
          "var_matches u = var_matches s" "expando_matches u = expando_matches s"
        by (cases "unread s") auto
      have prem: "list_all (\<lambda>i. \<not> is_expando i) is" "distinct (vars_of is)"
        "set (vars_of is) \<inter> dom (var_matches u) = {}" "expando_matches u = Map.empty"
        using Cons.prems u Literal by auto
      from Cons.IH [OF prem(1,2) u(2) prem(3,4)] obtain b t where
        t: "match_items is u = (Ok b, t)" and
        b: "if b then tidy t \<and> expando_matches t = Map.empty \<and> var_matches u \<subseteq>\<^sub>m var_matches t \<and>
              dom (var_matches t) = dom (var_matches u) \<union> set (vars_of is) \<and>
              (\<forall>x. unread u = words_under (the \<circ> var_matches t) x is @ unread t)
            else \<forall>v x. \<not> prefix (words_under v x is) (unread u)"
        by blast
      have "match_items (i # is) s = (Ok b, t)" using u(1) t Literal by (simp add: eff_defs)
      then show ?thesis
        using b u(3,4) Literal by (intro exI [of _ b] exI [of _ t]) (cases b; simp)
    next
      case False
      with match_literal [OF Cons.prems(3), of w] have "match_item i s = (Ok False, s)"
        using Literal by auto
      with False Literal show ?thesis
        by (cases "unread s") (auto simp: eff_defs)
    qed
  next
    case (Variable k)
    with Cons.prems have k: "var_matches s k = None" "expando_matches s k = None" by auto
    show ?thesis
    proof (cases "unread s")
      case Nil
      with match_variable [OF Cons.prems(3) k] Variable show ?thesis
        by (auto simp: eff_defs)
    next
      case (Cons w ws)
      with match_variable [OF Cons.prems(3) k] obtain u where
        u: "match_item (Variable k) s = (Ok True, u)" "tidy u" "unread u = ws"
          "var_matches u = (var_matches s)(k \<mapsto> w)" "expando_matches u = expando_matches s"
        by auto
      have prem: "list_all (\<lambda>i. \<not> is_expando i) is" "distinct (vars_of is)"
        "set (vars_of is) \<inter> dom (var_matches u) = {}" "expando_matches u = Map.empty"
        using Cons.prems u Variable by auto
      from Cons.IH [OF prem(1,2) u(2) prem(3,4)] obtain b t where
        t: "match_items is u = (Ok b, t)" and
        b: "if b then tidy t \<and> expando_matches t = Map.empty \<and> var_matches u \<subseteq>\<^sub>m var_matches t \<and>
              dom (var_matches t) = dom (var_matches u) \<union> set (vars_of is) \<and>
              (\<forall>x. unread u = words_under (the \<circ> var_matches t) x is @ unread t)
            else \<forall>v x. \<not> prefix (words_under v x is) (unread u)"
        by blast
      have run: "match_items (i # is) s = (Ok b, t)" using u(1) t Variable by (simp add: eff_defs)
      show ?thesis
      proof (cases b)
        case True
        with b u(4) have le: "(var_matches s)(k \<mapsto> w) \<subseteq>\<^sub>m var_matches t" by simp
        then have kw: "var_matches t k = Some w" by (auto simp: map_le_def)
        from map_le_upd_fresh [where m = "var_matches s", OF k(1)] le have "var_matches s \<subseteq>\<^sub>m var_matches t"
          by (rule map_le_trans)
        with True b u kw run Variable \<open>unread s = w # ws\<close> show ?thesis by auto
      next
        case False
        with b u(3) run Variable \<open>unread s = w # ws\<close> show ?thesis by auto
      qed
    qed
  next
    case (Expando k)
    with Cons.prems show ?thesis by (simp add: is_expando_def)
  qed
qed


lemma match_plain_start:
  assumes "list_all (\<lambda>i. \<not> is_expando i) is" and "distinct (vars_of is)"
  shows "\<exists>b t. match_items is (start_matching cmd) = (Ok b, t) \<and> (if b
     then tidy t \<and> expando_matches t = Map.empty \<and> dom (var_matches t) = set (vars_of is) \<and>
       (\<forall>x. cmd = words_under (the \<circ> var_matches t) x is @ unread t)
     else \<forall>v x. \<not> prefix (words_under v x is) cmd)"
proof -
  have "set (vars_of is) \<inter> dom (var_matches (start_matching cmd)) = {}"
    "expando_matches (start_matching cmd) = Map.empty" by simp_all
  from match_plain [OF assms start_matching_simps(1) this] obtain b t where
    "match_items is (start_matching cmd) = (Ok b, t)" and
    "if b then tidy t \<and> expando_matches t = Map.empty \<and> dom (var_matches t) = set (vars_of is) \<and>
        (\<forall>x. cmd = words_under (the \<circ> var_matches t) x is @ unread t)
      else \<forall>v x. \<not> prefix (words_under v x is) cmd"
    unfolding start_matching_simps by auto
  then show ?thesis by blast
qed

lemma find_split:
  assumes "wf_rule r"
  obtains (plain) "list_all (\<lambda>i. \<not> is_expando i) (find r)"
  | (expando) "is" k where "find r = is @ [Expando k]" "list_all (\<lambda>i. \<not> is_expando i) is"
proof (cases "find r = [] \<or> \<not> is_expando (last (find r))")
  case True
  with assms have "list_all (\<lambda>i. \<not> is_expando i) (find r)"
    by (cases "find r" rule: rev_cases) (auto simp: wf_rule_def)
  then show thesis by (rule plain)
next
  case False
  then obtain k where "find r = butlast (find r) @ [Expando k]"
    by (cases "find r" rule: rev_cases) (auto simp: is_expando_def split: item.splits)
  with assms show thesis by (intro expando [of "butlast (find r)" k]) (simp_all add: wf_rule_def)
qed

lemma match_rule:
  assumes wf: "wf_rule r"
  shows "\<exists>b t. match_items (find r) (start_matching cmd) = (Ok b, t) \<and> (if b
     then dom (var_matches t) = set (vars_of (find r)) \<and>
       dom (expando_matches t) = set (expandos_of (find r)) \<and>
       fits r cmd (the \<circ> var_matches t) (the \<circ> expando_matches t)
     else \<forall>v x. \<not> fits r cmd v x)"
  using wf
proof (cases rule: find_split)
  case plain
  have "distinct (vars_of (find r))" using wf by (simp add: wf_rule_def)
  from match_plain_start [OF plain this, of cmd] obtain b t where
    t: "match_items (find r) (start_matching cmd) = (Ok b, t)" and
    b: "if b then tidy t \<and> expando_matches t = Map.empty \<and>
          dom (var_matches t) = set (vars_of (find r)) \<and>
          (\<forall>x. cmd = words_under (the \<circ> var_matches t) x (find r) @ unread t)
        else \<forall>v x. \<not> prefix (words_under v x (find r)) cmd"
    by blast
  have "if b then dom (var_matches t) = set (vars_of (find r)) \<and>
       dom (expando_matches t) = set (expandos_of (find r)) \<and>
       fits r cmd (the \<circ> var_matches t) (the \<circ> expando_matches t)
     else \<forall>v x. \<not> fits r cmd v x"
    using b expandos_plain [OF plain] by (cases b) (auto simp: fits_def intro: prefixI)
  with t show ?thesis by blast
next
  case (expando "is" k)
  have d: "distinct (vars_of is)" and k: "k \<notin> set (vars_of is)"
    using wf expando by (auto simp: wf_rule_def)
  from match_plain_start [OF expando(2) d, of cmd] obtain b u where
    u: "match_items is (start_matching cmd) = (Ok b, u)" and
    b: "if b then tidy u \<and> expando_matches u = Map.empty \<and>
          dom (var_matches u) = set (vars_of is) \<and>
          (\<forall>x. cmd = words_under (the \<circ> var_matches u) x is @ unread u)
        else \<forall>v x. \<not> prefix (words_under v x is) cmd"
    by blast
  show ?thesis
  proof (cases b)
    case True
    with b k have "var_matches u k = None" "expando_matches u k = None" by auto
    from match_expando [OF this] obtain t where
      t: "match_item (Expando k) u = (Ok True, t)" "var_matches t = var_matches u"
        "expando_matches t = (expando_matches u)(k \<mapsto> unread u)" by blast
    have cmd: "cmd = words_under (the \<circ> var_matches u) x is @ unread u" for x
      using b True by auto
    have "match_items (find r) (start_matching cmd) = (Ok True, t)"
      using u t(1) True expando(1) by (simp add: match_items_append eff_defs)
    moreover have "fits r cmd (the \<circ> var_matches t) (the \<circ> expando_matches t)"
      using cmd [of "the \<circ> expando_matches t"] t expando(1) by (simp add: fits_def)
    ultimately show ?thesis
      using b True t expando expandos_plain [OF expando(2)]
      by (intro exI [of _ True] exI [of _ t]) auto
  next
    case False
    then have "match_items (find r) (start_matching cmd) = (Ok False, u)"
      using u expando(1) by (simp add: match_items_append eff_defs)
    moreover have "\<forall>v x. \<not> fits r cmd v x"
      using b False expando(1) by (auto simp: fits_def dest: append_prefixD)
    ultimately show ?thesis by (intro exI [of _ False] exI [of _ u]) simp
  qed
qed

lemma build_items_run:
  assumes "distinct (vars_of js)" and "distinct (expandos_of js)"
    and "\<And>k. k \<in> set (vars_of js) \<Longrightarrow> var_matches s k = Some (v k)"
    and "\<And>k. k \<in> set (expandos_of js) \<Longrightarrow> expando_matches s k = Some (x k)"
  shows "\<exists>t. build_items js res s = (Ok (res @ words_under v x js), t)"
  using assms
proof (induction js arbitrary: s res)
  case (Cons i js)
  show ?case
  proof (cases i)
    case (Literal w)
    with Cons.prems Cons.IH [of s "res @ [w]"] show ?thesis
      by (simp add: build_item_def eff_defs)
  next
    case (Variable k)
    let ?s = "s\<lparr>var_matches := (var_matches s)(k := None)\<rparr>"
    have "\<exists>t. build_items js (res @ [v k]) ?s = (Ok ((res @ [v k]) @ words_under v x js), t)"
      by (rule Cons.IH) (use Cons.prems Variable in auto)
    with Cons.prems(3) Variable show ?thesis by (simp add: build_item_def eff_defs)
  next
    case (Expando k)
    let ?s = "s\<lparr>expando_matches := (expando_matches s)(k := None)\<rparr>"
    have "\<exists>t. build_items js (res @ x k) ?s = (Ok ((res @ x k) @ words_under v x js), t)"
      by (rule Cons.IH) (use Cons.prems Expando in auto)
    with Cons.prems(4) Expando show ?thesis by (simp add: build_item_def eff_defs)
  qed
qed (simp add: eff_defs)

lemma apply_rule_cases:
  assumes wf: "wf_rule r"
  obtains (no) "\<forall>v x. \<not> fits r cmd v x" "apply_rule r cmd = Ok None"
  | (yes) v x where "fits r cmd v x" "apply_rule r cmd = Ok (Some (words_under v x (replace r)))"
proof -
  from match_rule [OF wf, of cmd] obtain b t where
    t: "match_items (find r) (start_matching cmd) = (Ok b, t)" and
    b: "if b then dom (var_matches t) = set (vars_of (find r)) \<and>
          dom (expando_matches t) = set (expandos_of (find r)) \<and>
          fits r cmd (the \<circ> var_matches t) (the \<circ> expando_matches t)
        else \<forall>v x. \<not> fits r cmd v x" by blast
  show thesis
  proof (cases b)
    case False
    with t b show thesis by (intro no) (simp_all add: apply_rule_def eff_defs)
  next
    case True
    have "\<exists>u. build_items (replace r) [] t =
      (Ok ([] @ words_under (the \<circ> var_matches t) (the \<circ> expando_matches t) (replace r)), u)"
    proof (rule build_items_run)
      show "distinct (vars_of (replace r))" "distinct (expandos_of (replace r))"
        using wf by (simp_all add: wf_rule_def)
      show "var_matches t k = Some ((the \<circ> var_matches t) k)" if "k \<in> set (vars_of (replace r))" for k
      proof -
        have "k \<in> dom (var_matches t)" using that wf b True by (auto simp: wf_rule_def)
        then show ?thesis by (auto dest: domD)
      qed
      show "expando_matches t k = Some ((the \<circ> expando_matches t) k)"
        if "k \<in> set (expandos_of (replace r))" for k
      proof -
        have "k \<in> dom (expando_matches t)" using that wf b True by (auto simp: wf_rule_def)
        then show ?thesis by (auto dest: domD)
      qed
    qed
    with t b True show thesis by (intro yes) (auto simp: apply_rule_def eff_defs)
  qed
qed

text \<open>An assignment that fits is determined on the identifiers of the left side.\<close>

lemma words_under_inj:
  assumes "list_all (\<lambda>i. \<not> is_expando i) is"
    and "words_under v x is @ ws = words_under v' x' is @ ws'"
  shows "(\<forall>k \<in> set (vars_of is). v k = v' k) \<and> ws = ws'"
  using assms
proof (induction "is")
  case (Cons i "is")
  then show ?case by (cases i) (auto simp: is_expando_def)
qed simp

lemma fits_unique:
  assumes wf: "wf_rule r" and "fits r cmd v x" and "fits r cmd v' x'"
  shows "words_under v x (replace r) = words_under v' x' (replace r)"
proof -
  have "(\<forall>k \<in> set (vars_of (find r)). v k = v' k) \<and> (\<forall>k \<in> set (expandos_of (find r)). x k = x' k)"
    using wf
  proof (cases rule: find_split)
    case plain
    from assms(2,3) obtain ws ws' where
      "words_under v x (find r) @ ws = words_under v' x' (find r) @ ws'"
      by (auto simp: fits_def prefix_def)
    from words_under_inj [OF plain this] show ?thesis using expandos_plain [OF plain] by simp
  next
    case (expando "is" k)
    with assms(2,3) have "words_under v x is @ x k = words_under v' x' is @ x' k"
      by (simp add: fits_def)
    from words_under_inj [OF expando(2) this] show ?thesis
      using expando expandos_plain [OF expando(2)] by simp
  qed
  with wf show ?thesis by (intro words_under_cong) (auto simp: wf_rule_def)
qed

lemma apply_rule_fits:
  assumes "wf_rule r" and "fits r cmd v x"
  shows "apply_rule r cmd = Ok (Some (words_under v x (replace r)))"
  using assms(1)
proof (cases rule: apply_rule_cases [where cmd = cmd])
  case no
  with assms(2) show ?thesis by blast
next
  case (yes v' x')
  with fits_unique [OF assms(1,2) yes(1)] show ?thesis by simp
qed

lemma apply_rule_no_fit:
  assumes "wf_rule r" and "\<And>v x. \<not> fits r cmd v x"
  shows "apply_rule r cmd = Ok None"
  using assms(1) by (cases rule: apply_rule_cases [where cmd = cmd]) (use assms(2) in auto)

lemma expand_rules_skip:
  "list_all wf_rule rs \<Longrightarrow> \<forall>r \<in> set rs. \<forall>v x. \<not> fits r cmd v x \<Longrightarrow>
   expand_rules (rs @ rs') cmd = expand_rules rs' cmd"
  by (induction rs) (auto simp: apply_rule_no_fit)

text \<open>Whatever the rules are, expansion returns or panics.\<close>

lemma match_item_answers: "wp (match_item i) (\<lambda>_ _. True) (\<lambda>_ _. False) (\<lambda>_ _. True) s"
  by (cases i) (auto simp: match_item_def fresh_id_def it_next_def wp_simps split: option.splits)

lemma match_items_answers: "wp (match_items is) (\<lambda>_ _. True) (\<lambda>_ _. False) (\<lambda>_ _. True) s"
proof (induction "is" arbitrary: s)
  case (Cons i "is")
  show ?case
    unfolding match_items.simps wp_bnd
    by (rule wp_mono [OF match_item_answers]) (auto simp: wp_simps Cons)
qed (simp add: wp_simps)

lemma build_items_answers: "wp (build_items is res) (\<lambda>_ _. True) (\<lambda>_ _. False) (\<lambda>_ _. True) s"
proof (induction "is" arbitrary: s res)
  case (Cons i "is")
  then show ?case
    by (cases i) (auto simp: build_item_def wp_simps split: option.splits)
qed (simp add: wp_simps)

lemma apply_rule_answers: "(\<exists>r. apply_rule rl cmd = Ok r) \<or> (\<exists>m. apply_rule rl cmd = Panic m)"
proof -
  let ?m = "bnd (match_items (find rl)) (\<lambda>go.
     if go then bnd (build_items (replace rl) []) (\<lambda>res. ret (Some res)) else ret None)"
  have "wp ?m (\<lambda>_ _. True) (\<lambda>_ _. False) (\<lambda>_ _. True) (start_matching cmd)"
    unfolding wp_bnd
    by (rule wp_mono [OF match_items_answers]) (auto simp: wp_simps intro!: wp_mono [OF build_items_answers])
  then show ?thesis
    by (auto simp: apply_rule_def wp_def split: prod.splits outcome.splits)
qed

lemma expand_answers: "(\<exists>ws. expand p cmd = Ok ws) \<or> (\<exists>m. expand p cmd = Panic m)"
proof -
  have "(\<exists>ws. expand_rules rs cmd = Ok ws) \<or> (\<exists>m. expand_rules rs cmd = Panic m)" for rs
  proof (induction rs)
    case (Cons r rs)
    then show ?case using apply_rule_answers [of r cmd] by (auto split: option.splits)
  qed simp
  then show ?thesis by (simp add: expand_def)
qed

section \<open>Properties\<close>

text \<open>
  C21: The first alias that fits decides. With well-formed rules, if a rule's left side under an
  assignment is the command line (or, without an expando, a beginning of it) and no earlier
  rule fits, the expansion is the rule's right side under that assignment. The hash maps, the
  iterator and the removals of the code compute exactly this substitution, and never panic.
\<close>

theorem expand_first_fit:
  assumes "aliases p = before @ r # later" and "list_all wf_rule (before @ [r])"
    and "\<forall>q \<in> set before. \<forall>v x. \<not> fits q cmd v x"
    and "fits r cmd v x"
  shows "expand p cmd = Ok (words_under v x (replace r))"
  using assms apply_rule_fits [of r cmd v x] expand_rules_skip [of before cmd]
  by (simp add: expand_def)

text \<open>
  C33: Expansion of a command line by well-formed rules always returns: it is the command line
  itself when no rule fits, and a right side of one of the rules otherwise.
\<close>

theorem expand_total:
  assumes "list_all wf_rule (aliases p)"
  shows "if \<forall>r \<in> set (aliases p). \<forall>v x. \<not> fits r cmd v x then expand p cmd = Ok cmd
    else \<exists>r \<in> set (aliases p). \<exists>v x. fits r cmd v x \<and> expand p cmd = Ok (words_under v x (replace r))"
proof (cases "\<forall>r \<in> set (aliases p). \<forall>v x. \<not> fits r cmd v x")
  case True
  with expand_rules_skip [OF assms, of cmd "[]"] show ?thesis by (simp add: expand_def)
next
  case False
  then obtain before r later where sp: "aliases p = before @ r # later"
    and r: "\<exists>v x. fits r cmd v x" and b: "\<forall>q \<in> set before. \<not> (\<exists>v x. fits q cmd v x)"
    using split_list_first_prop [of "aliases p" "\<lambda>r. \<exists>v x. fits r cmd v x"] by blast
  from r obtain v x where f: "fits r cmd v x" by blast
  have "expand p cmd = Ok (words_under v x (replace r))"
    using sp b assms apply_rule_fits [OF _ f] expand_rules_skip [of before cmd]
    by (simp add: expand_def)
  with False sp f show ?thesis by auto
qed

text \<open>
  The expansion never checks that a rule consumed the whole command line: an alias without
  an expando drops every further argument the user gave.
\<close>

lemma expand_drops_trailing:
  assumes "wf_rule r" and "expandos_of (find r) = []" and "cmd = words_under v x (find r)"
  shows "expand \<lparr>aliases = r # rs\<rparr> (cmd @ args) = expand \<lparr>aliases = r # rs\<rparr> cmd"
proof -
  have "fits r cmd v x" "fits r (cmd @ args) v x" using assms by (auto simp: fits_def)
  with assms(1) show ?thesis by (simp add: expand_def apply_rule_fits)
qed

section \<open>Concrete rules\<close>

text \<open>An alias for one argument, and one that takes the rest of the line.\<close>

definition sample_rule :: rule where
  "sample_rule = \<lparr>find = [Literal ''ll'', Variable 0], replace = [Literal ''ls'', Literal ''-l'', Variable 0]\<rparr>"

definition sample_expando :: rule where
  "sample_expando = \<lparr>find = [Literal ''g'', Expando 1], replace = [Literal ''git'', Expando 1]\<rparr>"

lemma sample_rules_wf: "wf_rule sample_rule" "wf_rule sample_expando"
  by (simp_all add: wf_rule_def sample_rule_def sample_expando_def is_expando_def)

lemma expand_first_fit_witness:
  "expand \<lparr>aliases = [sample_rule, sample_expando]\<rparr> [''g'', ''log'', ''-1''] =
     Ok (words_under (\<lambda>_. []) (\<lambda>_. [''log'', ''-1'']) (replace sample_expando))"
  by (rule expand_first_fit [where before = "[sample_rule]" and later = "[]"])
    (simp_all add: sample_rules_wf, simp_all add: fits_def sample_rule_def sample_expando_def)

lemma expand_total_witness:
  "if \<forall>r \<in> set (aliases \<lparr>aliases = [sample_rule]\<rparr>). \<forall>v x. \<not> fits r [''ls''] v x
   then expand \<lparr>aliases = [sample_rule]\<rparr> [''ls''] = Ok [''ls'']
   else \<exists>r \<in> set (aliases \<lparr>aliases = [sample_rule]\<rparr>). \<exists>v x. fits r [''ls''] v x \<and>
     expand \<lparr>aliases = [sample_rule]\<rparr> [''ls''] = Ok (words_under v x (replace r))"
  by (rule expand_total) (simp add: sample_rules_wf)

lemma expand_drops_trailing_witness:
  "expand \<lparr>aliases = [sample_rule]\<rparr> ([''ll'', ''a''] @ [''b'']) =
   expand \<lparr>aliases = [sample_rule]\<rparr> [''ll'', ''a'']"
  by (rule expand_drops_trailing [where v = "\<lambda>_. ''a''" and x = "\<lambda>_. []"])
    (simp_all add: sample_rules_wf, simp_all add: sample_rule_def)

end
