(* ===== verification/Protocol.thy ===== *)
theory Protocol
  imports Prelude "HOL-Library.Word"
begin

text \<open>
  The data of \<open>protocol/src/lib.rs\<close>: commands, exit statuses, pipe and process identifiers,
  the request and response messages, and the identifier counter \<open>Ids\<close>. A Rust \<open>String\<close> is its
  UTF-8 bytes, and a HOL \<open>char\<close> is a byte, so \<open>String\<close> and \<open>Vec<u8>\<close> are both \<open>string\<close>. A \<open>usize\<close>
  identifier is a \<open>nat\<close>: the counters start at 0 and grow by one, and 2^64 draws are out of
  reach. A \<open>HashMap\<close> or \<open>HashSet\<close> the code iterates over is a list of its entries in iteration
  order, any other one is a map or a set.
\<close>

section \<open>Commands and exit statuses\<close>

type_synonym bytes = string
type_synonym u64 = "64 word"

datatype command =
    Unknown string "string list"
  | SetDirectory string
  | GetDirectory
  | Edit string

definition add_args :: "string list \<Rightarrow> (command, unit) eff" where
  "add_args new_args = (\<lambda>c. case c of
     Unknown path args \<Rightarrow> (Ok (), Unknown path (args @ new_args))
   | SetDirectory _ \<Rightarrow> (Panic ''explicit panic'', c)
   | GetDirectory \<Rightarrow> (Panic ''explicit panic'', c)
   | Edit _ \<Rightarrow> (Panic ''explicit panic'', c))"

datatype exit_status = Success | Failure

definition from_exit_code :: "int \<Rightarrow> exit_status" where
  "from_exit_code code = (if code = 0 then Success else Failure)"

type_synonym condition = "exit_status option"

section \<open>Identifiers\<close>

datatype process_id = ProcessId (pid_num: nat)
datatype remote_id = RemoteId (rid_num: nat)
datatype read_pipe = ReadPipe (read_num: nat)
datatype write_pipe = WritePipe (write_num: nat)
datatype generic_pipe = GenericPipe (pipe_num: nat)

definition read_to_generic :: "read_pipe \<Rightarrow> generic_pipe" where
  "read_to_generic p = GenericPipe (read_num p)"

definition write_to_generic :: "write_pipe \<Rightarrow> generic_pipe" where
  "write_to_generic p = GenericPipe (write_num p)"

definition to_write :: "generic_pipe \<Rightarrow> write_pipe" where
  "to_write p = WritePipe (pipe_num p)"

definition to_read :: "generic_pipe \<Rightarrow> read_pipe" where
  "to_read p = ReadPipe (pipe_num p)"

lemma generic_pipe_conversions [simp]:
  "read_to_generic (to_read g) = g" "write_to_generic (to_write g) = g"
  "to_read (read_to_generic r) = r" "to_write (write_to_generic w) = w"
  "read_to_generic (ReadPipe i) = GenericPipe i" "write_to_generic (WritePipe i) = GenericPipe i"
  "to_read (GenericPipe i) = ReadPipe i" "to_write (GenericPipe i) = WritePipe i"
  by (simp_all add: read_to_generic_def write_to_generic_def to_read_def to_write_def)

lemma read_to_generic_eq_iff [simp]: "read_to_generic r = read_to_generic r' \<longleftrightarrow> r = r'"
  by (cases r; cases r') (simp add: read_to_generic_def)

lemma write_to_generic_eq_iff [simp]: "write_to_generic r = write_to_generic r' \<longleftrightarrow> r = r'"
  by (cases r; cases r') (simp add: write_to_generic_def)

text \<open>Process identifiers are ordered by their number, so sets of them can be listed.\<close>

instantiation process_id :: linorder
begin

definition less_eq_process_id :: "process_id \<Rightarrow> process_id \<Rightarrow> bool" where
  "less_eq_process_id p q = (pid_num p \<le> pid_num q)"

definition less_process_id :: "process_id \<Rightarrow> process_id \<Rightarrow> bool" where
  "less_process_id p q = (pid_num p < pid_num q)"

instance
  by standard
    (auto simp: less_eq_process_id_def less_process_id_def intro: process_id.expand)

end

section \<open>The identifier counter\<close>

record ids =
  next_id :: nat

definition ids_new :: ids where
  "ids_new = \<lparr>next_id = 0\<rparr>"

definition ids_next :: "(ids, nat) eff" where
  "ids_next = bnd (gets next_id) (\<lambda>res.
     thn (upd (\<lambda>i. i\<lparr>next_id := next_id i + 1\<rparr>))
     (ret res))"

text \<open>
  The interface of a source of identifiers, as its clients use it: a draw never answers an
  identifier that was issued before. \<open>fresh_below s\<close> bounds what has been issued.
\<close>

locale id_source =
  fixes draw :: "('s, nat) eff"
    and issued :: "'s \<Rightarrow> nat set"
  assumes draw_fresh: "returns draw (\<lambda>i t. i \<notin> issued s \<and> issued t = insert i (issued s)) s"
begin

primrec draws :: "nat \<Rightarrow> ('s, nat list) eff" where
  "draws 0 = ret []"
| "draws (Suc n) = bnd draw (\<lambda>i. bnd (draws n) (\<lambda>is. ret (i # is)))"

lemma draws_distinct:
  "returns (draws n) (\<lambda>is t. length is = n \<and> distinct is \<and> set is \<inter> issued s = {} \<and>
     issued t = issued s \<union> set is) s"
proof (induction n arbitrary: s)
  case 0
  then show ?case by (simp add: wp_simps)
next
  case (Suc n)
  show ?case
    unfolding draws.simps wp_bnd wp_ret
    by (rule wp_mono [OF draw_fresh [of s]]; (elim conjE)?; (rule wp_mono [OF Suc])?) auto
qed

end

definition ids_issued :: "ids \<Rightarrow> nat set" where
  "ids_issued i = {..<next_id i}"

interpretation counter: id_source ids_next ids_issued
  by unfold_locales (auto simp: ids_next_def ids_issued_def wp_simps)

lemma wp_ids_next [wp_simps]:
  "wp ids_next Q E P s = Q (next_id s) (s\<lparr>next_id := next_id s + 1\<rparr>)"
  by (simp add: ids_next_def wp_simps)

text \<open>\<open>Testing\<close> hands out pipes and processes from one counter.\<close>

record testing =
  testing_ids :: ids

definition testing_new :: testing where
  "testing_new = \<lparr>testing_ids = ids_new\<rparr>"

definition testing_next :: "(testing, nat) eff" where
  "testing_next = zoom testing_ids (\<lambda>i t. t\<lparr>testing_ids := i\<rparr>) ids_next"

definition testing_pipe :: "(testing, read_pipe \<times> write_pipe) eff" where
  "testing_pipe = bnd testing_next (\<lambda>id. ret (ReadPipe id, WritePipe id))"

definition testing_process :: "(testing, process_id) eff" where
  "testing_process = bnd testing_next (\<lambda>id. ret (ProcessId id))"

section \<open>Processes and messages\<close>

record read_pipes =
  r_stdin :: write_pipe
  r_stdout :: read_pipe
  r_stderr :: read_pipe

record write_pipes =
  w_stdin :: read_pipe
  w_stdout :: write_pipe
  w_stderr :: write_pipe

record write_process =
  wp_id :: process_id
  wp_pipes :: write_pipes

record read_process =
  rp_id :: process_id
  rp_pipes :: read_pipes

record abstract_process =
  ap_id :: process_id
  ap_stdin :: nat
  ap_stdout :: nat
  ap_stderr :: nat

datatype pipe_message =
    BeginRead
  | Data bytes u64
  | Read u64
  | Closed u64

record pipe_envelope =
  env_id :: nat
  env_msg :: pipe_message

record remote_info =
  hostname :: string
  username :: string
  working_dir :: string

text \<open>
  The constructors of \<open>RemoteRequest\<close> and \<open>RemoteResponse\<close> carry the prefixes \<open>Rq\<close> and \<open>Rs\<close>:
  the plan steps and the executor's events have constructors of the same names.
\<close>

datatype remote_request =
    RqBeginCommand "(process_id \<times> condition) list" abstract_process command
  | RqCancelCommand process_id
  | RqBeginRemote nat command
  | RqOpenOutputFile nat string
  | RqOpenInputFile nat string
  | RqEndRemote nat
  | RqListDirectory nat string
  | RqFinishEdit nat bytes
  | RqPipe pipe_envelope

datatype remote_response =
    RsRemoteReady remote_info
  | RsCommandDone process_id int
  | RsDirectoryListing nat "string list"
  | RsEditRequest process_id nat string bytes
  | RsPipe pipe_envelope

record request =
  rq_remote_id :: nat
  rq_message :: remote_request

record response =
  rs_remote_id :: nat
  rs_message :: remote_response

record remote_state =
  parent :: "remote_id option"

record process_state =
  ps_parent :: remote_id

end
