(* ===== verification/Plan.thy ===== *)
theory Plan
  imports Protocol
begin

text \<open>
  \<open>frontend/src/plan.rs\<close>: the plan of a command line (which pipes and files to open, which
  commands to run on them, where the output goes) and the builder that tracks which end of
  which pipe is still free. The constructors of \<open>Step\<close> and \<open>Sink\<close> carry their type's name.
\<close>

section \<open>Plans\<close>

datatype remote_ref = RemoteRef nat

record remotes =
  stack :: "remote_ref list"

record plan_process =
  proc_id :: nat
  proc_stdin :: nat
  proc_stdout :: nat
  proc_stderr :: nat

datatype remote_step =
    OpenInputFile string
  | OpenOutputFile string
  | Run command plan_process
  | BeginRemote command
  | Close

datatype step =
    StepRemote remote_ref remote_step
  | StepPipe
  | StepPager
  | StepEditor

datatype sink =
    SinkDevNull
  | SinkStdout
  | SinkStderr
  | SinkGather nat
  | SinkPager nat

record plan =
  steps :: "step list"
  plan_stdin :: "nat option"
  gather_count :: nat
  pager_count :: nat
  sink_map :: "sink option list"

record plan_builder =
  plan_of :: plan
  proc_ids :: ids
  pipes :: "(bool \<times> bool) list"

section \<open>The builder\<close>

definition builder_new :: plan_builder where
  "builder_new = \<lparr>plan_of = \<lparr>steps = [], plan_stdin = None, gather_count = 0, pager_count = 0,
       sink_map = []\<rparr>,
     proc_ids = ids_new, pipes = []\<rparr>"

definition build :: "plan_builder \<Rightarrow> plan" where
  "build b = plan_of b"

definition push_step :: "step \<Rightarrow> (plan_builder, unit) eff" where
  "push_step s = upd (\<lambda>b. b\<lparr>plan_of := (plan_of b)\<lparr>steps := steps (plan_of b) @ [s]\<rparr>\<rparr>)"

definition push_pipe :: "bool \<times> bool \<Rightarrow> (plan_builder, unit) eff" where
  "push_pipe e = upd (\<lambda>b. b\<lparr>pipes := pipes b @ [e]\<rparr>)"

definition builder_pipe :: "(plan_builder, nat) eff" where
  "builder_pipe = bnd (gets (\<lambda>b. length (pipes b))) (\<lambda>id.
     thn (push_pipe (True, True))
     (thn (push_step StepPipe)
     (ret id)))"

definition builder_exit :: "remote_ref \<Rightarrow> (plan_builder, unit) eff" where
  "builder_exit remote = push_step (StepRemote remote Close)"

definition add_file_output :: "remote_ref \<Rightarrow> string \<Rightarrow> (plan_builder, nat) eff" where
  "add_file_output remote file = bnd (gets (\<lambda>b. length (pipes b))) (\<lambda>id.
     thn (push_pipe (False, True))
     (thn (push_step (StepRemote remote (OpenOutputFile file)))
     (ret id)))"

definition use_read_end :: "nat \<Rightarrow> (plan_builder, unit) eff" where
  "use_read_end pipe = bnd (gets pipes) (\<lambda>ps.
     thn (ensure ''index out of bounds'' (pipe < length ps))
     (thn (ensure ''pipes[pipe].0'' (fst (ps ! pipe)))
     (upd (\<lambda>b. b\<lparr>pipes := ps[pipe := (False, snd (ps ! pipe))]\<rparr>))))"

definition use_write_end :: "nat \<Rightarrow> (plan_builder, unit) eff" where
  "use_write_end pipe = bnd (gets pipes) (\<lambda>ps.
     thn (ensure ''index out of bounds'' (pipe < length ps))
     (thn (ensure ''pipes[pipe].1'' (snd (ps ! pipe)))
     (upd (\<lambda>b. b\<lparr>pipes := ps[pipe := (fst (ps ! pipe), False)]\<rparr>))))"

definition set_stdin :: "nat option \<Rightarrow> (plan_builder, unit) eff" where
  "set_stdin stdin = upd (\<lambda>b. b\<lparr>plan_of := (plan_of b)\<lparr>plan_stdin := stdin\<rparr>\<rparr>)"

text \<open>The loop of \<open>sink\<close> that grows the sink map to hold the stream.\<close>

function pad_sinks :: "nat \<Rightarrow> sink option list \<Rightarrow> sink option list" where
  "pad_sinks stream m = (if length m \<le> stream then pad_sinks stream (m @ [None]) else m)"
  by pat_completeness auto

termination
  by (relation "measure (\<lambda>(stream, m). Suc stream - length m)") auto

declare pad_sinks.simps [simp del]

definition add_sink :: "nat \<Rightarrow> sink \<Rightarrow> (plan_builder, unit) eff" where
  "add_sink stream s =
     thn (upd (\<lambda>b. b\<lparr>plan_of := (plan_of b)\<lparr>sink_map := pad_sinks stream (sink_map (plan_of b))\<rparr>\<rparr>))
     (bnd (gets (\<lambda>b. sink_map (plan_of b))) (\<lambda>m.
     thn (ensure ''sink_map[stream].is_none()'' (m ! stream = None))
     (upd (\<lambda>b. b\<lparr>plan_of := (plan_of b)\<lparr>sink_map := m[stream := Some s]\<rparr>\<rparr>))))"

definition add_stdout :: "nat \<Rightarrow> (plan_builder, unit) eff" where
  "add_stdout stdout = add_sink stdout SinkStdout"

definition add_stderr :: "nat \<Rightarrow> (plan_builder, unit) eff" where
  "add_stderr stderr = add_sink stderr SinkStderr"

definition draw_proc_id :: "(plan_builder, nat) eff" where
  "draw_proc_id = zoom proc_ids (\<lambda>i b. b\<lparr>proc_ids := i\<rparr>) ids_next"

definition add_command :: "remote_ref \<Rightarrow> command \<Rightarrow> nat \<Rightarrow> nat \<Rightarrow> nat \<Rightarrow> (plan_builder, unit) eff" where
  "add_command remote c stdin stdout stderr =
     thn (use_read_end stdin)
     (thn (use_write_end stdout)
     (thn (use_write_end stderr)
     (bnd draw_proc_id (\<lambda>id.
     push_step (StepRemote remote (Run c
       \<lparr>proc_id = id, proc_stdin = stdin, proc_stdout = stdout, proc_stderr = stderr\<rparr>))))))"

definition add_gather :: "(plan_builder, nat) eff" where
  "add_gather = bnd (gets (\<lambda>b. gather_count (plan_of b))) (\<lambda>id.
     thn (upd (\<lambda>b. b\<lparr>plan_of := (plan_of b)\<lparr>gather_count := gather_count (plan_of b) + 1\<rparr>\<rparr>))
     (ret id))"

definition add_pager :: "(plan_builder, nat) eff" where
  "add_pager = bnd (gets (\<lambda>b. pager_count (plan_of b))) (\<lambda>id.
     thn (upd (\<lambda>b. b\<lparr>plan_of := (plan_of b)\<lparr>pager_count := pager_count (plan_of b) + 1\<rparr>\<rparr>))
     (ret id))"

text \<open>\<open>Plan::empty\<close> and \<open>Plan::single\<close>: a builder run from \<open>PlanBuilder::new()\<close>.\<close>

definition run_builder :: "(plan_builder, unit) eff \<Rightarrow> plan outcome" where
  "run_builder m = fst (thn m (gets build) builder_new)"

definition plan_empty :: "plan outcome" where
  "plan_empty = run_builder
     (bnd builder_pipe (\<lambda>stdout.
     thn (set_stdin (Some stdout))
     (thn (add_stdout stdout)
     (bnd builder_pipe (\<lambda>stderr.
     add_stderr stderr)))))"

definition plan_single :: "remote_ref \<Rightarrow> string list \<Rightarrow> (remote_ref \<times> string) option \<Rightarrow> plan outcome" where
  "plan_single remote words redirect = (case words of
     [] \<Rightarrow> Panic ''unwrap''
   | head # rest \<Rightarrow> run_builder
       (bnd builder_pipe (\<lambda>stdin.
       bnd (case redirect of
              Some (r, file) \<Rightarrow> bnd (add_file_output r file) (\<lambda>output. ret (output, None))
            | None \<Rightarrow> bnd builder_pipe (\<lambda>output. ret (output, Some output))) (\<lambda>(output, stdout).
       bnd builder_pipe (\<lambda>stderr.
       thn (add_command remote (Unknown head rest) stdin output stderr)
       (thn (set_stdin (Some stdin))
       (thn (case stdout of Some p \<Rightarrow> add_stdout p | None \<Rightarrow> ret ())
       (add_stderr stderr))))))))"

section \<open>Weakest preconditions of the builder\<close>

lemma wp_builder_pipe [wp_simps]:
  "wp builder_pipe Q E P b = Q (length (pipes b))
     (b\<lparr>pipes := pipes b @ [(True, True)],
        plan_of := (plan_of b)\<lparr>steps := steps (plan_of b) @ [StepPipe]\<rparr>\<rparr>)"
  by (simp add: builder_pipe_def push_pipe_def push_step_def wp_simps)

lemma wp_add_file_output [wp_simps]:
  "wp (add_file_output r f) Q E P b = Q (length (pipes b))
     (b\<lparr>pipes := pipes b @ [(False, True)],
        plan_of := (plan_of b)\<lparr>steps := steps (plan_of b) @ [StepRemote r (OpenOutputFile f)]\<rparr>\<rparr>)"
  by (simp add: add_file_output_def push_pipe_def push_step_def wp_simps)

text \<open>The three ends a command takes, and the pipes they leave.\<close>

definition ends_free :: "(bool \<times> bool) list \<Rightarrow> nat \<Rightarrow> nat \<Rightarrow> nat \<Rightarrow> bool" where
  "ends_free ps i o' e \<longleftrightarrow> i < length ps \<and> o' < length ps \<and> e < length ps \<and> o' \<noteq> e \<and>
     fst (ps ! i) \<and> snd (ps ! o') \<and> snd (ps ! e)"

definition take_ends :: "(bool \<times> bool) list \<Rightarrow> nat \<Rightarrow> nat \<Rightarrow> nat \<Rightarrow> (bool \<times> bool) list" where
  "take_ends ps i o' e = (let
     ps1 = ps[i := (False, snd (ps ! i))];
     ps2 = ps1[o' := (fst (ps1 ! o'), False)]
     in ps2[e := (fst (ps2 ! e), False)])"

lemma length_take_ends [simp]: "length (take_ends ps i o' e) = length ps"
  by (simp add: take_ends_def Let_def)

lemma take_ends_nth:
  "p < length ps \<Longrightarrow> take_ends ps i o' e ! p =
     (fst (ps ! p) \<and> p \<noteq> i, snd (ps ! p) \<and> p \<noteq> o' \<and> p \<noteq> e)"
  by (cases "p = i"; cases "p = o'"; cases "p = e"; cases "ps ! p")
    (simp_all add: take_ends_def Let_def nth_list_update)

lemma add_command_run:
  "ends_free (pipes b) i o' e \<Longrightarrow> add_command r c i o' e b = (Ok (),
     b\<lparr>plan_of := (plan_of b)\<lparr>steps := steps (plan_of b) @ [StepRemote r (Run c
         \<lparr>proc_id = next_id (proc_ids b), proc_stdin = i, proc_stdout = o', proc_stderr = e\<rparr>)]\<rparr>,
       proc_ids := (proc_ids b)\<lparr>next_id := next_id (proc_ids b) + 1\<rparr>,
       pipes := take_ends (pipes b) i o' e\<rparr>)"
  by (auto simp: add_command_def use_read_end_def use_write_end_def draw_proc_id_def push_step_def
      ids_next_def eff_defs ends_free_def take_ends_def Let_def nth_list_update)

lemma add_command_Ok_iff:
  "(\<exists>b'. add_command r c i o' e b = (Ok (), b')) \<longleftrightarrow> ends_free (pipes b) i o' e"
proof
  assume "\<exists>b'. add_command r c i o' e b = (Ok (), b')"
  then show "ends_free (pipes b) i o' e"
    by (auto simp: add_command_def use_read_end_def use_write_end_def eff_defs ends_free_def
        nth_list_update split: if_splits)
next
  assume "ends_free (pipes b) i o' e"
  from add_command_run [OF this] show "\<exists>b'. add_command r c i o' e b = (Ok (), b')" by blast
qed

lemma wp_add_command:
  assumes "ends_free (pipes b) i o' e"
  shows "wp (add_command r c i o' e) Q E P b = Q ()
    (b\<lparr>plan_of := (plan_of b)\<lparr>steps := steps (plan_of b) @ [StepRemote r (Run c
         \<lparr>proc_id = next_id (proc_ids b), proc_stdin = i, proc_stdout = o', proc_stderr = e\<rparr>)]\<rparr>,
       proc_ids := (proc_ids b)\<lparr>next_id := next_id (proc_ids b) + 1\<rparr>,
       pipes := take_ends (pipes b) i o' e\<rparr>)"
  by (simp add: wp_def add_command_run [OF assms])

lemma pad_sinks_eq: "pad_sinks s m = m @ replicate (Suc s - length m) None"
proof (induction s m rule: pad_sinks.induct)
  case (1 s m)
  show ?case
  proof (cases "length m \<le> s")
    case True
    then have "Suc s - length m = Suc (s - length m)" by simp
    with True 1 show ?thesis by (subst pad_sinks.simps) (simp add: Suc_diff_Suc)
  next
    case False
    then show ?thesis by (subst pad_sinks.simps) simp
  qed
qed

section \<open>A plan replayed\<close>

text \<open>
  Which pipe ends the steps of a plan leave free when they are carried out in order:
  \<open>None\<close> when a step takes an end that does not exist or was taken before.
\<close>

fun replay :: "step list \<Rightarrow> (bool \<times> bool) list \<Rightarrow> (bool \<times> bool) list option" where
  "replay [] ps = Some ps"
| "replay (StepPipe # ss) ps = replay ss (ps @ [(True, True)])"
| "replay (StepRemote _ (OpenOutputFile _) # ss) ps = replay ss (ps @ [(False, True)])"
| "replay (StepRemote _ (Run _ p) # ss) ps =
     (if ends_free ps (proc_stdin p) (proc_stdout p) (proc_stderr p)
      then replay ss (take_ends ps (proc_stdin p) (proc_stdout p) (proc_stderr p)) else None)"
| "replay (_ # ss) ps = replay ss ps"

lemma replay_append: "replay (ss @ ts) ps = Option.bind (replay ss ps) (replay ts)"
  by (induction ss ps rule: replay.induct) auto

text \<open>The steps a command line without builtins is made of: the ones the frontend can carry out.\<close>

definition carried :: "step \<Rightarrow> bool" where
  "carried s \<longleftrightarrow> (case s of StepPipe \<Rightarrow> True
   | StepRemote _ (Run _ _) \<Rightarrow> True | StepRemote _ (OpenOutputFile _) \<Rightarrow> True | _ \<Rightarrow> False)"

text \<open>The builder's bookkeeping is what a replay of its steps leaves.\<close>

definition builder_inv :: "plan_builder \<Rightarrow> bool" where
  "builder_inv b \<longleftrightarrow> replay (steps (plan_of b)) [] = Some (pipes b)"

lemma builder_inv_new: "builder_inv builder_new"
  by (simp add: builder_inv_def builder_new_def)

text \<open>
  The interface of a builder operation: it answers, and unless it panics it keeps the invariant
  and only adds pipes. Two such operations in sequence are such an operation.
\<close>

definition builder_step :: "plan_builder \<Rightarrow> plan_builder \<Rightarrow> bool" where
  "builder_step b b' \<longleftrightarrow> (builder_inv b \<longrightarrow> builder_inv b') \<and> length (pipes b) \<le> length (pipes b')"

locale builder_op =
  fixes m :: "(plan_builder, 'a) eff"
  assumes op: "wp m (\<lambda>_ b'. builder_step b b') (\<lambda>_ b'. builder_step b b') (\<lambda>_ _. True) b"
begin

lemma keeps: "builder_inv b \<Longrightarrow> m b = (Ok a, b') \<Longrightarrow> builder_inv b'"
  using wp_runD [OF op] by (auto simp: builder_step_def)

lemma only_adds: "m b = (Ok a, b') \<Longrightarrow> length (pipes b) \<le> length (pipes b')"
  using wp_runD [OF op] by (auto simp: builder_step_def)

lemma then_op:
  assumes "\<And>a. builder_op (f a)"
  shows "builder_op (bnd m f)"
proof
  fix b
  show "wp (bnd m f) (\<lambda>_ b'. builder_step b b') (\<lambda>_ b'. builder_step b b') (\<lambda>_ _. True) b"
    unfolding wp_bnd
  proof (rule wp_mono [OF op])
    fix a b1
    assume "builder_step b b1"
    then show "wp (f a) (\<lambda>_ b'. builder_step b b') (\<lambda>_ b'. builder_step b b') (\<lambda>_ _. True) b1"
      by (intro wp_mono [OF builder_op.op [OF assms]]) (auto simp: builder_step_def)
  qed auto
qed

end

lemma builder_op_ret: "builder_op (ret a)"
  by unfold_locales (simp add: wp_simps builder_step_def)

lemma builder_op_panic: "builder_op (panic m)"
  by unfold_locales (simp add: wp_simps)

lemma builder_op_answer: "r \<noteq> Diverge \<Longrightarrow> builder_op (answer r)"
  by unfold_locales (simp add: wp_simps builder_step_def split: outcome.split)

interpretation bi_pipe: builder_op builder_pipe
  by unfold_locales (simp add: wp_simps builder_step_def builder_inv_def replay_append)

interpretation bi_file: builder_op "add_file_output r f" for r f
  by unfold_locales (simp add: wp_simps builder_step_def builder_inv_def replay_append)

interpretation bi_exit: builder_op "builder_exit r" for r
  by unfold_locales (simp add: builder_exit_def push_step_def wp_simps builder_step_def
      builder_inv_def replay_append)

interpretation bi_command: builder_op "add_command r c i o' e" for r c i o' e
proof
  fix b
  show "wp (add_command r c i o' e) (\<lambda>_ b'. builder_step b b') (\<lambda>_ b'. builder_step b b')
      (\<lambda>_ _. True) b"
  proof (cases "ends_free (pipes b) i o' e")
    case True
    then show ?thesis
      by (simp add: wp_add_command builder_step_def builder_inv_def replay_append)
  next
    case False
    have "(\<exists>m b'. add_command r c i o' e b = (Panic m, b')) \<or> (\<exists>b'. add_command r c i o' e b = (Ok (), b'))"
      by (auto simp: add_command_def use_read_end_def use_write_end_def draw_proc_id_def
          push_step_def ids_next_def eff_defs)
    with False add_command_Ok_iff [of r c i o' e b] show ?thesis by (auto simp: wp_def)
  qed
qed

interpretation bi_stdin: builder_op "set_stdin p" for p
  by unfold_locales (simp add: set_stdin_def wp_simps builder_step_def builder_inv_def)

interpretation bi_sink: builder_op "add_sink p s" for p s
  by unfold_locales (simp add: add_sink_def wp_simps builder_step_def builder_inv_def)

interpretation bi_gather: builder_op add_gather
  by unfold_locales (simp add: add_gather_def wp_simps builder_step_def builder_inv_def)

interpretation bi_pager: builder_op add_pager
  by unfold_locales (simp add: add_pager_def wp_simps builder_step_def builder_inv_def)

lemma wp_add_sink:
  "wp (add_sink p s) Q E P b =
    (let m = pad_sinks p (sink_map (plan_of b)) in
     if m ! p = None then Q () (b\<lparr>plan_of := (plan_of b)\<lparr>sink_map := m[p := Some s]\<rparr>\<rparr>)
     else P ''sink_map[stream].is_none()'' (b\<lparr>plan_of := (plan_of b)\<lparr>sink_map := m\<rparr>\<rparr>))"
  by (simp add: add_sink_def wp_simps Let_def)

end
