(* ===== verification/Convert.thy ===== *)
theory Convert
  imports Printer Prefs Plan
begin

text \<open>
  \<open>frontend/src/edit.rs\<close>: the translation of a parsed command line into a plan, and the reader
  that serves one command from the command line. The loop over the clauses of a redirection
  runs from the last clause to the first; the model recurses on the tail before the head.
\<close>

section \<open>Commands\<close>

definition check_single_arg :: "string list \<Rightarrow> string outcome" where
  "check_single_arg items = (case items of
     [] \<Rightarrow> Err ''not enough args''
   | [i] \<Rightarrow> Ok i
   | _ \<Rightarrow> Err ''bad too many args'')"

definition convert_words :: "string list \<Rightarrow> command outcome" where
  "convert_words items = (case items of
     [] \<Rightarrow> Panic ''unwrap''
   | head # args \<Rightarrow>
       if head = ''cd'' then map_outcome SetDirectory (check_single_arg args)
       else if head = ''micro'' then map_outcome Edit (check_single_arg args)
       else if head = ''nak'' then
         (case args of [] \<Rightarrow> Panic ''unwrap'' | _ # _ \<Rightarrow> Panic ''explicit panic'')
       else Ok (Unknown head args))"

definition convert_single :: "prefs \<Rightarrow> shell_cmd \<Rightarrow> command outcome" where
  "convert_single p cmd = (case expand p (map expand_string (cmd_words cmd)) of
     Ok items \<Rightarrow> convert_words items
   | Err e \<Rightarrow> Err e
   | Panic m \<Rightarrow> Panic m
   | Diverge \<Rightarrow> Diverge)"

section \<open>Syntax trees\<close>

definition last_remote :: "remotes \<Rightarrow> (plan_builder, remote_ref) eff" where
  "last_remote remotes = expect ''unwrap''
     (if stack remotes = [] then None else Some (last (stack remotes)))"

fun convert_ast :: "remotes \<Rightarrow> prefs \<Rightarrow> ast \<Rightarrow> nat \<Rightarrow> nat \<Rightarrow> (plan_builder, nat) eff"
  and convert_clauses :: "remotes \<Rightarrow> prefs \<Rightarrow> redirect_clause list \<Rightarrow> nat \<Rightarrow> nat \<Rightarrow>
    (plan_builder, nat \<times> nat) eff" where
  "convert_ast remotes p Empty stdout stderr = ret stdout"
| "convert_ast remotes p (Cmd cmd) stdout stderr =
     bnd builder_pipe (\<lambda>stdin.
     bnd (last_remote remotes) (\<lambda>r.
     bnd (answer (convert_single p cmd)) (\<lambda>c.
     thn (add_command r c stdin stdout stderr)
     (ret stdin))))"
| "convert_ast remotes p (Sequence _ _) stdout stderr = panic ''explicit panic''"
| "convert_ast remotes p (Redirect head clauses) stdout stderr =
     bnd (convert_clauses remotes p clauses stdout stderr) (\<lambda>(stdout, stderr).
     convert_ast remotes p head stdout stderr)"
| "convert_clauses remotes p [] stdout stderr = ret (stdout, stderr)"
| "convert_clauses remotes p (RedirectClause s (File path) # clauses) stdout stderr =
     bnd (convert_clauses remotes p clauses stdout stderr) (\<lambda>(stdout, stderr).
     bnd (last_remote remotes) (\<lambda>r.
     bnd (add_file_output r (expand_string path)) (\<lambda>stdin.
     bnd builder_pipe (\<lambda>other.
     ret (case s of Stdout \<Rightarrow> (stdin, other) | Stderr \<Rightarrow> (other, stdin))))))"
| "convert_clauses remotes p (RedirectClause s (Command cmd) # clauses) stdout stderr =
     bnd (convert_clauses remotes p clauses stdout stderr) (\<lambda>(stdout, stderr).
     bnd (convert_ast remotes p cmd stdout stderr) (\<lambda>stdin.
     bnd builder_pipe (\<lambda>other.
     ret (case s of Stdout \<Rightarrow> (stdin, other) | Stderr \<Rightarrow> (other, stdin)))))"

definition convert_input :: "remotes \<Rightarrow> prefs \<Rightarrow> ast \<Rightarrow> plan outcome" where
  "convert_input remotes p cmd = run_builder
     (bnd builder_pipe (\<lambda>stdout.
     bnd builder_pipe (\<lambda>stderr.
     bnd (convert_ast remotes p cmd stdout stderr) (\<lambda>stdin.
     thn (set_stdin (Some stdin))
     (thn (add_stdout stdout)
     (add_stderr stderr))))))"

definition parse_command_simple :: "remotes \<Rightarrow> prefs \<Rightarrow> string \<Rightarrow> plan outcome" where
  "parse_command_simple remotes p input = (case parse_input input of
     Ok cmd \<Rightarrow> convert_input remotes p cmd
   | Err e \<Rightarrow> Err e
   | Panic m \<Rightarrow> Panic m
   | Diverge \<Rightarrow> Diverge)"

section \<open>The reader of a single command\<close>

record single_command_reader =
  scr_prefs :: prefs
  scr_text :: "string option"

definition single_command_reader_new :: "prefs \<Rightarrow> string \<Rightarrow> single_command_reader" where
  "single_command_reader_new p t = \<lparr>scr_prefs = p, scr_text = Some t\<rparr>"

definition get_command :: "(single_command_reader, plan) eff" where
  "get_command = bnd (gets scr_text) (\<lambda>t.
     thn (upd (\<lambda>r. r\<lparr>scr_text := None\<rparr>))
     (case t of
        Some t \<Rightarrow> bnd (gets scr_prefs) (\<lambda>p.
          answer (parse_command_simple \<lparr>stack = [RemoteRef 0]\<rparr> p t))
      | None \<Rightarrow> answer (run_builder (builder_exit (RemoteRef 0)))))"

section \<open>The interactive reader\<close>

text \<open>
  \<open>SimpleReader::get_command\<close>, with the line editor's answer and the history file's as
  parameters. A line is remembered only when it converts.
\<close>

datatype line_answer = Line string | Interrupted | UnexpectedEof | LineError error

record simple_reader =
  sr_prefs :: prefs
  sr_history :: "string list"

definition simple_get_command :: "line_answer \<Rightarrow> error option \<Rightarrow> (simple_reader, plan) eff" where
  "simple_get_command line push_error = (case line of
     Interrupted \<Rightarrow> answer plan_empty
   | UnexpectedEof \<Rightarrow> answer (run_builder (builder_exit (RemoteRef 0)))
   | LineError e \<Rightarrow> fail e
   | Line res \<Rightarrow> bnd (gets sr_prefs) (\<lambda>p.
       bnd (answer (parse_command_simple \<lparr>stack = [RemoteRef 0]\<rparr> p res)) (\<lambda>parsed.
       thn (case push_error of
              None \<Rightarrow> upd (\<lambda>r. r\<lparr>sr_history := sr_history r @ [res]\<rparr>)
            | Some e \<Rightarrow> fail e)
       (ret parsed))))"

section \<open>What a tree asks of the builder\<close>

fun commands_of :: "ast \<Rightarrow> shell_cmd list"
  and clause_commands :: "redirect_clause list \<Rightarrow> shell_cmd list" where
  "commands_of Empty = []"
| "commands_of (Cmd c) = [c]"
| "commands_of (Sequence _ _) = []"
| "commands_of (Redirect head cls) = commands_of head @ clause_commands cls"
| "clause_commands [] = []"
| "clause_commands (RedirectClause _ (File _) # cls) = clause_commands cls"
| "clause_commands (RedirectClause _ (Command a) # cls) = commands_of a @ clause_commands cls"

fun sequence_free :: "ast \<Rightarrow> bool"
  and clauses_sequence_free :: "redirect_clause list \<Rightarrow> bool" where
  "sequence_free Empty = True"
| "sequence_free (Cmd _) = True"
| "sequence_free (Sequence _ _) = False"
| "sequence_free (Redirect head cls) = (sequence_free head \<and> clauses_sequence_free cls)"
| "clauses_sequence_free [] = True"
| "clauses_sequence_free (RedirectClause _ (File _) # cls) = clauses_sequence_free cls"
| "clauses_sequence_free (RedirectClause _ (Command a) # cls) =
     (sequence_free a \<and> clauses_sequence_free cls)"

lemma convert_single_answers: "convert_single p c \<noteq> Diverge"
  using expand_answers [of p "map expand_string (cmd_words c)"]
  by (auto simp: convert_single_def convert_words_def check_single_arg_def
      split: list.splits if_splits)

text \<open>
  \<open>can_write b o e\<close>: the write ends a command is about to take. \<open>grown b b'\<close>: pipes were only
  added, no read end that existed was taken, and of the write ends at most \<open>o\<close> and \<open>e\<close> were.
\<close>

definition can_write :: "plan_builder \<Rightarrow> nat \<Rightarrow> nat \<Rightarrow> bool" where
  "can_write b o' e \<longleftrightarrow> o' < length (pipes b) \<and> e < length (pipes b) \<and> o' \<noteq> e \<and>
     snd (pipes b ! o') \<and> snd (pipes b ! e)"

definition grown :: "nat \<Rightarrow> plan_builder \<Rightarrow> plan_builder \<Rightarrow> bool" where
  "grown n b b' \<longleftrightarrow> (builder_inv b \<longrightarrow> builder_inv b') \<and> length (pipes b) \<le> length (pipes b') \<and>
     (\<forall>q < n. fst (pipes b' ! q) = fst (pipes b ! q)) \<and>
     (list_all carried (steps (plan_of b)) \<longrightarrow> list_all carried (steps (plan_of b'))) \<and>
     sink_map (plan_of b') = sink_map (plan_of b) \<and>
     gather_count (plan_of b') = gather_count (plan_of b) \<and>
     pager_count (plan_of b') = pager_count (plan_of b)"

definition writable :: "plan_builder \<Rightarrow> nat \<Rightarrow> bool" where
  "writable b i \<longleftrightarrow> i < length (pipes b) \<and> snd (pipes b ! i)"

lemma grown_trans: "grown n b b1 \<Longrightarrow> grown n b1 b2 \<Longrightarrow> grown n b b2"
  by (simp add: grown_def)

lemma grown_refl: "grown n b b"
  by (simp add: grown_def)

lemma wp_last_remote:
  "stack rm \<noteq> [] \<Longrightarrow> wp (last_remote rm) Q E P b = Q (last (stack rm)) b"
  by (simp add: last_remote_def wp_simps)

lemma wp_pipe_grown:
  assumes "n \<le> length (pipes b)"
    and "\<And>i b'. i = length (pipes b) \<Longrightarrow> grown n b b' \<Longrightarrow> n \<le> length (pipes b') \<Longrightarrow> writable b' i \<Longrightarrow>
      (\<And>j. writable b j \<Longrightarrow> writable b' j) \<Longrightarrow> fst (pipes b' ! i) \<Longrightarrow> Q i b'"
  shows "wp builder_pipe Q E P b"
  using assms(1)
  by (auto simp: wp_simps grown_def builder_inv_def replay_append writable_def nth_append carried_def
      intro!: assms(2))

lemma wp_file_grown:
  assumes "n \<le> length (pipes b)"
    and "\<And>i b'. i = length (pipes b) \<Longrightarrow> grown n b b' \<Longrightarrow> n \<le> length (pipes b') \<Longrightarrow> writable b' i \<Longrightarrow> Q i b'"
  shows "wp (add_file_output r f) Q E P b"
  using assms(1)
  by (auto simp: wp_simps grown_def builder_inv_def replay_append writable_def nth_append carried_def
      intro!: assms(2))

definition culprit :: "prefs \<Rightarrow> shell_cmd list \<Rightarrow> command outcome \<Rightarrow> bool" where
  "culprit p cs r \<longleftrightarrow> r \<in> convert_single p ` set cs"

lemma convert_wp:
  "stack rm \<noteq> [] \<Longrightarrow> sequence_free a \<Longrightarrow> can_write b o' e \<Longrightarrow> n \<le> length (pipes b) \<Longrightarrow>
   wp (convert_ast rm p a o' e)
     (\<lambda>i b'. grown n b b' \<and> writable b' i)
     (\<lambda>m _. culprit p (commands_of a) (Err m)) (\<lambda>m _. culprit p (commands_of a) (Panic m)) b"
  "stack rm \<noteq> [] \<Longrightarrow> clauses_sequence_free cls \<Longrightarrow> can_write b o' e \<Longrightarrow> n \<le> length (pipes b) \<Longrightarrow>
   wp (convert_clauses rm p cls o' e)
     (\<lambda>(i, j) b'. grown n b b' \<and> can_write b' i j)
     (\<lambda>m _. culprit p (clause_commands cls) (Err m)) (\<lambda>m _. culprit p (clause_commands cls) (Panic m)) b"
proof (induction rm p a o' e and rm p cls o' e arbitrary: b and b rule: convert_ast_convert_clauses.induct)
  case (1 rm p o' e)
  then show ?case by (simp add: wp_simps grown_refl can_write_def writable_def)
next
  case (2 rm p c o' e)
  have "wp (add_command r m i o' e) (\<lambda>_ b2. grown n b1 b2 \<and> writable b2 i) (\<lambda>_ _. False) (\<lambda>_ _. False) b1"
    if "n \<le> i" "writable b1 i" "fst (pipes b1 ! i)" "can_write b1 o' e" "i \<noteq> o'" "i \<noteq> e" for r m i b1
  proof -
    from that have "ends_free (pipes b1) i o' e"
      by (simp add: ends_free_def can_write_def writable_def)
    with that show ?thesis
      by (auto simp: wp_add_command grown_def builder_inv_def replay_append take_ends_nth
          writable_def carried_def)
  qed
  note cmd = wp_mono [OF this]
  show ?case
    unfolding convert_ast.simps wp_bnd
  proof (rule wp_pipe_grown [OF 2(4)])
    fix i b1
    assume b1: "i = length (pipes b)" "grown n b b1" "n \<le> length (pipes b1)" "writable b1 i"
      "\<And>j. writable b j \<Longrightarrow> writable b1 j" "fst (pipes b1 ! i)"
    have "can_write b1 o' e" "i \<noteq> o'" "i \<noteq> e" "n \<le> i"
      using b1 2(3,4) by (auto simp: can_write_def writable_def)
    with b1 2(1) convert_single_answers [of p c]
    show "wp (last_remote rm) (\<lambda>r. wp (answer (convert_single p c)) (\<lambda>c'.
        wp (thn (add_command r c' i o' e) (ret i)) (\<lambda>i b'. grown n b b' \<and> writable b' i)
        (\<lambda>m _. culprit p (commands_of (Cmd c)) (Err m)) (\<lambda>m _. culprit p (commands_of (Cmd c)) (Panic m)))
        (\<lambda>m _. culprit p (commands_of (Cmd c)) (Err m)) (\<lambda>m _. culprit p (commands_of (Cmd c)) (Panic m)))
        (\<lambda>m _. culprit p (commands_of (Cmd c)) (Err m)) (\<lambda>m _. culprit p (commands_of (Cmd c)) (Panic m)) b1"
      by (auto simp: wp_last_remote wp_answer wp_thn wp_ret culprit_def split: outcome.split
          intro!: cmd intro: grown_trans)
  qed
next
  case (3 rm p h cls o' e)
  then show ?case by simp
next
  case (4 rm p h cls o' e)
  have cl: "wp (convert_clauses rm p cls o' e) (\<lambda>(i, j) b'. grown n b b' \<and> can_write b' i j)
     (\<lambda>m _. culprit p (clause_commands cls) (Err m))
     (\<lambda>m _. culprit p (clause_commands cls) (Panic m)) b"
    by (rule 4(1)) (use 4(3-6) in auto)
  show ?case
    unfolding convert_ast.simps
  proof (rule wp_bnd_pairI [OF cl])
    fix i j b1
    assume b1: "grown n b b1 \<and> can_write b1 i j"
    have "wp (convert_ast rm p h i j) (\<lambda>i b'. grown n b1 b' \<and> writable b' i)
      (\<lambda>m _. culprit p (commands_of h) (Err m)) (\<lambda>m _. culprit p (commands_of h) (Panic m)) b1"
      by (rule 4(2)) (use 4(3-6) b1 in \<open>auto simp: grown_def\<close>)
    with b1 show "wp (convert_ast rm p h i j) (\<lambda>i b'. grown n b b' \<and> writable b' i)
      (\<lambda>m _. culprit p (commands_of (Redirect h cls)) (Err m))
      (\<lambda>m _. culprit p (commands_of (Redirect h cls)) (Panic m)) b1"
      by (elim wp_mono) (auto simp: culprit_def intro: grown_trans)
  qed (auto simp: culprit_def)
next
  case (5 rm p o' e)
  then show ?case by (simp add: wp_simps grown_refl)
next
  case (6 rm p s f cls o' e)
  have cl: "wp (convert_clauses rm p cls o' e) (\<lambda>(i, j) b'. grown n b b' \<and> can_write b' i j)
     (\<lambda>m _. culprit p (clause_commands cls) (Err m))
     (\<lambda>m _. culprit p (clause_commands cls) (Panic m)) b"
    by (rule 6(1)) (use 6(2-5) in auto)
  show ?case
    unfolding convert_clauses.simps
  proof (rule wp_bnd_pairI [OF cl])
    fix i j b1
    assume b1: "grown n b b1 \<and> can_write b1 i j"
    then have n: "n \<le> length (pipes b1)" using 6(5) by (simp add: grown_def)
    show "wp (bnd (last_remote rm) (\<lambda>r. bnd (add_file_output r (expand_string f)) (\<lambda>stdin.
        bnd builder_pipe (\<lambda>other. ret (case s of Stdout \<Rightarrow> (stdin, other) | Stderr \<Rightarrow> (other, stdin))))))
      (\<lambda>(i, j) b'. grown n b b' \<and> can_write b' i j)
      (\<lambda>m _. culprit p (clause_commands (RedirectClause s (File f) # cls)) (Err m))
      (\<lambda>m _. culprit p (clause_commands (RedirectClause s (File f) # cls)) (Panic m)) b1"
      unfolding wp_bnd wp_last_remote [OF 6(2)]
      by (rule wp_file_grown [OF n], rule wp_pipe_grown, assumption)
        (use b1 in \<open>auto simp: wp_simps can_write_def writable_def split: stream.split
          intro: grown_trans\<close>)
  qed auto
next
  case (7 rm p s a cls o' e)
  have cl: "wp (convert_clauses rm p cls o' e) (\<lambda>(i, j) b'. grown n b b' \<and> can_write b' i j)
     (\<lambda>m _. culprit p (clause_commands cls) (Err m))
     (\<lambda>m _. culprit p (clause_commands cls) (Panic m)) b"
    by (rule 7(1)) (use 7(3-6) in auto)
  show ?case
    unfolding convert_clauses.simps
  proof (rule wp_bnd_pairI [OF cl])
    fix i j b1
    assume b1: "grown n b b1 \<and> can_write b1 i j"
    then have n: "n \<le> length (pipes b1)" using 7(6) by (simp add: grown_def)
    have "wp (convert_ast rm p a i j) (\<lambda>i b'. grown n b1 b' \<and> writable b' i)
      (\<lambda>m _. culprit p (commands_of a) (Err m)) (\<lambda>m _. culprit p (commands_of a) (Panic m)) b1"
      by (rule 7(2)) (use 7(3-6) b1 n in auto)
    then show "wp (bnd (convert_ast rm p a i j) (\<lambda>stdin.
        bnd builder_pipe (\<lambda>other. ret (case s of Stdout \<Rightarrow> (stdin, other) | Stderr \<Rightarrow> (other, stdin)))))
      (\<lambda>(i, j) b'. grown n b b' \<and> can_write b' i j)
      (\<lambda>m _. culprit p (clause_commands (RedirectClause s (Command a) # cls)) (Err m))
      (\<lambda>m _. culprit p (clause_commands (RedirectClause s (Command a) # cls)) (Panic m)) b1"
    proof (rule wp_bndI)
      fix k b2
      assume b2: "grown n b1 b2 \<and> writable b2 k"
      then have n2: "n \<le> length (pipes b2)" using n by (simp add: grown_def)
      show "wp (bnd builder_pipe (\<lambda>other. ret (case s of Stdout \<Rightarrow> (k, other) | Stderr \<Rightarrow> (other, k))))
        (\<lambda>(i, j) b'. grown n b b' \<and> can_write b' i j)
        (\<lambda>m _. culprit p (clause_commands (RedirectClause s (Command a) # cls)) (Err m))
        (\<lambda>m _. culprit p (clause_commands (RedirectClause s (Command a) # cls)) (Panic m)) b2"
        unfolding wp_bnd
        by (rule wp_pipe_grown [OF n2])
          (use b1 b2 in \<open>auto simp: wp_simps can_write_def writable_def split: stream.split
            intro: grown_trans\<close>)
    qed (auto simp: culprit_def)
  qed (auto simp: culprit_def)
qed

section \<open>Plans of pipelines\<close>

definition pipeline_ast :: "shell_cmd \<Rightarrow> shell_cmd list \<Rightarrow> ast" where
  "pipeline_ast c cs = (if cs = [] then Cmd c
     else Redirect (Cmd c) (map (\<lambda>c. RedirectClause Stdout (Command (Cmd c))) cs))"

text \<open>
  What the plan of a pipeline should be. Counting stages from the right, stage \<open>k\<close> writes to
  pipes \<open>2 * k\<close> and \<open>2 * k + 1\<close> and reads from pipe \<open>2 * k + 2\<close>.
\<close>

definition stage :: "remote_ref \<Rightarrow> nat \<times> command \<Rightarrow> step list" where
  "stage r kc = (case kc of (k, c) \<Rightarrow> [StepPipe, StepPipe, StepRemote r (Run c
     \<lparr>proc_id = k, proc_stdin = 2 * k + 2, proc_stdout = 2 * k, proc_stderr = 2 * k + 1\<rparr>)])"

definition stages :: "remote_ref \<Rightarrow> command list \<Rightarrow> step list" where
  "stages r ms = concat (map (stage r) (enumerate 0 (rev ms)))"

definition wired_plan :: "remote_ref \<Rightarrow> command list \<Rightarrow> plan" where
  "wired_plan r ms = \<lparr>steps = StepPipe # stages r ms, plan_stdin = Some (2 * length ms),
     gather_count = 0, pager_count = 0, sink_map = [Some SinkStdout, Some SinkStderr]\<rparr>"

lemma stages_Cons: "stages r (m # ms) = stages r ms @ stage r (length ms, m)"
  by (simp add: stages_def enumerate_append_eq)

definition wired :: "remote_ref \<Rightarrow> command list \<Rightarrow> bool \<Rightarrow> plan_builder \<Rightarrow> bool" where
  "wired r ms extra b \<longleftrightarrow> plan_of b = \<lparr>steps = StepPipe # stages r ms @ (if extra then [StepPipe] else []),
       plan_stdin = None, gather_count = 0, pager_count = 0, sink_map = []\<rparr> \<and>
     next_id (proc_ids b) = length ms \<and>
     length (pipes b) = 2 * length ms + (if extra then 2 else 1) \<and>
     snd (pipes b ! (2 * length ms)) \<and> (extra \<longrightarrow> snd (pipes b ! (2 * length ms + 1)))"

lemma wired_pipe:
  "wired r ms False b \<Longrightarrow> returns builder_pipe (\<lambda>i b'. i = 2 * length ms + 1 \<and> wired r ms True b') b"
  by (simp add: wp_simps wired_def nth_append)

lemma wired_command:
  assumes "convert_single p c = Ok m" and "wired (last (stack rm)) ms True b" and "stack rm \<noteq> []"
  shows "returns (convert_ast rm p (Cmd c) (2 * length ms) (2 * length ms + 1))
    (\<lambda>i b'. i = 2 * length (m # ms) \<and> wired (last (stack rm)) (m # ms) False b') b"
proof -
  let ?n = "length ms"
  let ?b = "b\<lparr>pipes := pipes b @ [(True, True)],
     plan_of := (plan_of b)\<lparr>steps := steps (plan_of b) @ [StepPipe]\<rparr>\<rparr>"
  have free: "ends_free (pipes ?b) (2 * ?n + 2) (2 * ?n) (2 * ?n + 1)"
    using assms(2) by (simp add: ends_free_def wired_def nth_append)
  have "length (pipes b) = 2 * ?n + 2" using assms(2) by (simp add: wired_def)
  then show ?thesis
    using assms free wp_add_command [OF free]
    by (simp add: wp_simps wp_last_remote wired_def stages_Cons stage_def take_ends_nth nth_append)
qed

lemma wired_clauses:
  assumes "map (convert_single p) cs = map Ok ms" and "stack rm \<noteq> []"
    and "wired (last (stack rm)) [] True b"
  shows "returns (convert_clauses rm p (map (\<lambda>c. RedirectClause Stdout (Command (Cmd c))) cs) 0 1)
    (\<lambda>(i, j) b'. i = 2 * length ms \<and> j = 2 * length ms + 1 \<and> wired (last (stack rm)) ms True b') b"
  using assms(1)
proof (induction cs arbitrary: ms)
  case Nil
  with assms(3) show ?case by (simp add: wp_simps)
next
  case (Cons c cs)
  then obtain m ms' where ms: "ms = m # ms'" "convert_single p c = Ok m"
    "map (convert_single p) cs = map Ok ms'" by auto
  show ?case
    unfolding list.map convert_clauses.simps
  proof (rule wp_bnd_pairI [OF Cons.IH [OF ms(3)]])
    fix i j b1
    assume b1: "i = 2 * length ms' \<and> j = 2 * length ms' + 1 \<and> wired (last (stack rm)) ms' True b1"
    then have st: "returns (convert_ast rm p (Cmd c) i j)
      (\<lambda>i b'. i = 2 * length (m # ms') \<and> wired (last (stack rm)) (m # ms') False b') b1"
      using wired_command [OF ms(2) _ assms(2)] by simp
    show "returns (bnd (convert_ast rm p (Cmd c) i j) (\<lambda>stdin. bnd builder_pipe (\<lambda>other.
        ret (case Stdout of Stdout \<Rightarrow> (stdin, other) | Stderr \<Rightarrow> (other, stdin)))))
      (\<lambda>(i, j) b'. i = 2 * length ms \<and> j = 2 * length ms + 1 \<and> wired (last (stack rm)) ms True b') b1"
      by (rule wp_bndI [OF st], rule wp_bndI [OF wired_pipe [where ms = "m # ms'"]])
        (auto simp: ms(1) wp_ret)
  qed auto
qed

lemma wired_ast:
  assumes "map (convert_single p) (c # cs) = map Ok ms" and "stack rm \<noteq> []"
    and "wired (last (stack rm)) [] True b"
  shows "returns (convert_ast rm p (pipeline_ast c cs) 0 1)
    (\<lambda>i b'. i = 2 * length ms \<and> wired (last (stack rm)) ms False b') b"
proof -
  from assms(1) obtain m ms' where ms: "ms = m # ms'" "convert_single p c = Ok m"
    "map (convert_single p) cs = map Ok ms'" by auto
  show ?thesis
  proof (cases "cs = []")
    case True
    with ms wired_command [OF ms(2) _ assms(2), of "[]" b] assms(3) show ?thesis
      by (simp add: pipeline_ast_def)
  next
    case False
    then have a: "pipeline_ast c cs =
      Redirect (Cmd c) (map (\<lambda>c. RedirectClause Stdout (Command (Cmd c))) cs)"
      by (simp add: pipeline_ast_def)
    show ?thesis
      unfolding a convert_ast.simps(4)
      by (rule wp_bnd_pairI [OF wired_clauses [OF ms(3) assms(2,3)]])
        (use wired_command [OF ms(2) _ assms(2)] ms(1) in auto)
  qed
qed

section \<open>Properties\<close>

lemma convert_start:
  "run_builder (bnd builder_pipe (\<lambda>o'. bnd builder_pipe (f o'))) =
   fst (thn (f 0 1) (gets build) (builder_new\<lparr>pipes := [(True, True), (True, True)],
     plan_of := (plan_of builder_new)\<lparr>steps := [StepPipe, StepPipe]\<rparr>\<rparr>))"
  by (simp add: run_builder_def builder_pipe_def push_pipe_def push_step_def builder_new_def eff_defs
      split: prod.split outcome.split)

lemma pad_sinks_01 [simp]: "pad_sinks 0 [] = [None]" "pad_sinks (Suc 0) [x] = [x, None]"
  by (simp_all add: pad_sinks_eq)

lemma pipeline_converts:
  assumes "parse_input s = Ok (pipeline_ast c cs)" and "stack rm \<noteq> []"
    and "map (convert_single p) (c # cs) = map Ok ms"
  shows "parse_command_simple rm p s = Ok (wired_plan (last (stack rm)) ms)"
proof -
  let ?b = "builder_new\<lparr>pipes := [(True, True), (True, True)],
     plan_of := (plan_of builder_new)\<lparr>steps := [StepPipe, StepPipe]\<rparr>\<rparr>"
  have b: "wired (last (stack rm)) [] True ?b"
    by (simp add: wired_def builder_new_def ids_new_def stages_def)
  have "returns (thn (bnd (convert_ast rm p (pipeline_ast c cs) 0 1) (\<lambda>stdin.
       thn (set_stdin (Some stdin)) (thn (add_stdout 0) (add_stderr 1)))) (gets build))
    (\<lambda>pl _. pl = wired_plan (last (stack rm)) ms) ?b"
    unfolding wp_thn wp_bnd
    by (rule wp_mono [OF wired_ast [OF assms(3,2) b]])
      (auto simp: wp_simps wp_add_sink set_stdin_def add_stdout_def add_stderr_def wired_def
        build_def wired_plan_def)
  then show ?thesis
    using assms(1)
    by (auto simp: parse_command_simple_def convert_input_def convert_start dest: returnsD)
qed

text \<open>
  C8: The plan of a pipeline is wired as the pipeline reads. For a line the parser reads as
  \<open>c1 | ... | cn\<close>, each of which converts, the plan opens the pipes and runs the commands from
  the last to the first so that each stage's standard output is the pipe the next stage reads,
  the last one's output and error are sunk to the user's, the first one reads the pipe that
  the plan names as its standard input, and the processes are numbered in the order they start.
\<close>

theorem pipeline_plan:
  assumes "parse_input s = Ok (pipeline_ast c cs)" and "stack rm \<noteq> []"
    and "map (convert_single p) (c # cs) = map Ok ms"
  shows "parse_command_simple rm p s = Ok (wired_plan (last (stack rm)) ms)"
  using assms by (rule pipeline_converts)

lemma wf_pipe_sequence_free: "wf_pipe a \<Longrightarrow> sequence_free a"
proof (induction a rule: wf_pipe.induct)
  case (2 h cls)
  have "list_all wf_clause cls \<Longrightarrow> clauses_sequence_free cls"
  proof (induction cls)
    case (Cons cl cls)
    then show ?case by (cases cl rule: wf_clause.cases) auto
  qed simp
  with 2 show ?case by (cases h) auto
qed auto

lemma conversion_plan:
  assumes "valid_utf8 s" and "parse_input s = Ok a" and "\<forall>h cls. a \<noteq> Sequence h cls"
    and "stack rm \<noteq> []"
  shows "case parse_command_simple rm p s of
     Ok pl \<Rightarrow> (\<exists>ps i. replay (steps pl) [] = Some ps \<and> plan_stdin pl = Some i \<and> i < length ps \<and>
         snd (ps ! i) \<and> fst (ps ! 0) \<and> fst (ps ! 1) \<and> 2 \<le> length ps) \<and>
         list_all carried (steps pl) \<and> sink_map pl = [Some SinkStdout, Some SinkStderr]
   | Err m \<Rightarrow> \<exists>c \<in> set (commands_of a). convert_single p c = Err m
   | Panic m \<Rightarrow> \<exists>c \<in> set (commands_of a). convert_single p c = Panic m
   | Diverge \<Rightarrow> False"
proof -
  let ?b = "builder_new\<lparr>pipes := [(True, True), (True, True)],
     plan_of := (plan_of builder_new)\<lparr>steps := [StepPipe, StepPipe]\<rparr>\<rparr>"
  have "wf_ast a"
    using assms(1,2) parse_input_Ok [OF valid_utf8_boundary_safe] grammar_wf by blast
  with assms(3) have "sequence_free a"
    by (cases a rule: wf_ast.cases) (auto dest: wf_pipe_sequence_free)
  then have "wp (convert_ast rm p a 0 1) (\<lambda>i b'. grown 2 ?b b' \<and> writable b' i)
     (\<lambda>m _. culprit p (commands_of a) (Err m)) (\<lambda>m _. culprit p (commands_of a) (Panic m)) ?b"
    by (intro convert_wp assms(4)) (simp_all add: can_write_def)
  then have "wp (thn (bnd (convert_ast rm p a 0 1) (\<lambda>stdin.
       thn (set_stdin (Some stdin)) (thn (add_stdout 0) (add_stderr 1)))) (gets build))
     (\<lambda>pl _. (\<exists>ps i. replay (steps pl) [] = Some ps \<and> plan_stdin pl = Some i \<and> i < length ps \<and>
         snd (ps ! i) \<and> fst (ps ! 0) \<and> fst (ps ! 1) \<and> 2 \<le> length ps) \<and>
         list_all carried (steps pl) \<and> sink_map pl = [Some SinkStdout, Some SinkStderr])
     (\<lambda>m _. culprit p (commands_of a) (Err m)) (\<lambda>m _. culprit p (commands_of a) (Panic m)) ?b"
    unfolding wp_thn wp_bnd
    by (rule wp_mono)
      (auto simp: wp_simps wp_add_sink set_stdin_def add_stdout_def add_stderr_def build_def
        grown_def builder_inv_def carried_def writable_def builder_new_def less_2_cases_iff)
  with assms(2) show ?thesis
    by (auto simp: parse_command_simple_def convert_input_def convert_start wp_def culprit_def image_iff
        split: prod.splits outcome.splits)
qed

text \<open>
  C7: On every line the parser accepts, except a sequence, the builder's assertions hold: the
  line converts to a plan, or the conversion ends as the conversion of one of its commands does
  (a wrong number of arguments, an empty or a \<open>nak\<close> command line after alias expansion). The
  plan can be carried out in order with every pipe end taken at most once, and the pipe it
  names as standard input can still be written while the two it sinks can still be read.
\<close>

theorem conversion_sound:
  assumes "valid_utf8 s" and "parse_input s = Ok a" and "\<forall>h cls. a \<noteq> Sequence h cls"
    and "stack rm \<noteq> []"
  shows "case parse_command_simple rm p s of
     Ok pl \<Rightarrow> (\<exists>ps i. replay (steps pl) [] = Some ps \<and> plan_stdin pl = Some i \<and> i < length ps \<and>
         snd (ps ! i) \<and> fst (ps ! 0) \<and> fst (ps ! 1)) \<and>
         sink_map pl = [Some SinkStdout, Some SinkStderr]
   | Err m \<Rightarrow> \<exists>c \<in> set (commands_of a). convert_single p c = Err m
   | Panic m \<Rightarrow> \<exists>c \<in> set (commands_of a). convert_single p c = Panic m
   | Diverge \<Rightarrow> False"
  using conversion_plan [OF assms, of p] by (cases "parse_command_simple rm p s") auto

text \<open>
  A line the parser reads as a sequence never converts: whatever its commands are, the
  conversion panics on it, which ends the shell.
\<close>

lemma sequence_panics:
  assumes "parse_input s = Ok (Sequence h cls)"
  shows "parse_command_simple rm p s = Panic ''explicit panic''"
proof -
  have "bnd (panic m) f = panic m" for m :: string and f :: "nat \<Rightarrow> (plan_builder, unit) eff"
    by (simp add: eff_defs fun_eq_iff)
  moreover have "fst (thn (panic m) (gets build) b) = Panic m" for m b
    by (simp add: eff_defs)
  ultimately show ?thesis
    using assms by (simp add: parse_command_simple_def convert_input_def convert_start)
qed

text \<open>A pipe of a plan is read when a command reads it or it is sunk.\<close>

definition plan_reads :: "plan \<Rightarrow> nat \<Rightarrow> bool" where
  "plan_reads pl i \<longleftrightarrow> (\<exists>r c q. StepRemote r (Run c q) \<in> set (steps pl) \<and> proc_stdin q = i) \<or>
     (i < length (sink_map pl) \<and> sink_map pl ! i \<noteq> None)"

lemma wired_plan_runs:
  "StepRemote r' (Run c q) \<in> set (steps (wired_plan r ms)) \<longleftrightarrow> r' = r \<and> (\<exists>k < length ms. c = rev ms ! k \<and>
     q = \<lparr>proc_id = k, proc_stdin = 2 * k + 2, proc_stdout = 2 * k, proc_stderr = 2 * k + 1\<rparr>)"
  by (auto simp: wired_plan_def stages_def stage_def in_set_enumerate_eq)

text \<open>
  C38: Only the last stage's standard error reaches the user. In the plan of a pipeline the pipe
  every other stage writes its standard error to is read by no command and sunk nowhere, while
  every stage's standard output is read.
\<close>

theorem inner_stderr_unread:
  assumes "parse_input s = Ok (pipeline_ast c cs)" and "stack rm \<noteq> []"
    and "map (convert_single p) (c # cs) = map Ok ms"
    and "parse_command_simple rm p s = Ok pl"
    and "StepRemote r (Run m q) \<in> set (steps pl)"
  shows "plan_reads pl (proc_stdout q) \<and> (plan_reads pl (proc_stderr q) \<longleftrightarrow> proc_id q = 0)"
proof -
  let ?r = "last (stack rm)"
  have pl: "pl = wired_plan ?r ms" using pipeline_converts [OF assms(1-3)] assms(4) by simp
  with assms(5) obtain k where k: "k < length ms"
    "q = \<lparr>proc_id = k, proc_stdin = 2 * k + 2, proc_stdout = 2 * k, proc_stderr = 2 * k + 1\<rparr>"
    by (auto simp: wired_plan_runs)
  have sinks: "sink_map pl = [Some SinkStdout, Some SinkStderr]" by (simp add: pl wired_plan_def)
  have reads: "(\<exists>r c q. StepRemote r (Run c q) \<in> set (steps pl) \<and> proc_stdin q = i) \<longleftrightarrow>
      (\<exists>j < length ms. i = 2 * j + 2)" for i
    unfolding pl wired_plan_runs by (simp add: ex_simps(1,2) [symmetric] del: ex_simps) auto
  have "plan_reads pl (2 * k)"
  proof (cases k)
    case (Suc j)
    with k(1) have "\<exists>j < length ms. 2 * k = 2 * j + 2" by (intro exI [of _ j]) simp
    with reads [of "2 * k"] show ?thesis by (simp add: plan_reads_def)
  qed (simp add: plan_reads_def sinks)
  moreover have "\<not> (\<exists>j < length ms. 2 * k + 1 = 2 * j + 2)" by presburger
  then have "plan_reads pl (2 * k + 1) \<longleftrightarrow> k = 0"
    using reads [of "2 * k + 1"] by (auto simp: plan_reads_def sinks less_Suc_eq_0_disj)
  ultimately show ?thesis using k(2) by simp
qed

text \<open>
  The reader of a single command serves the line it was given once and a plan that closes
  the root remote ever after, also when the line did not convert.
\<close>

lemma single_command_then_exit:
  "get_command (single_command_reader_new p t) =
     (parse_command_simple \<lparr>stack = [RemoteRef 0]\<rparr> p t, \<lparr>scr_prefs = p, scr_text = None\<rparr>) \<and>
   get_command \<lparr>scr_prefs = p, scr_text = None\<rparr> =
     (Ok \<lparr>steps = [StepRemote (RemoteRef 0) Close], plan_stdin = None, gather_count = 0,
        pager_count = 0, sink_map = []\<rparr>, \<lparr>scr_prefs = p, scr_text = None\<rparr>)"
  by (simp add: get_command_def single_command_reader_new_def eff_defs run_builder_def
      builder_exit_def push_step_def builder_new_def build_def)

section \<open>Concrete lines\<close>

definition root_only :: remotes where
  "root_only = \<lparr>stack = [RemoteRef 0]\<rparr>"

definition piped_line :: string where
  "piped_line = ''ls x | wc -l''"

definition piped_ast :: ast where
  "piped_ast = pipeline_ast (ShellCmd None [Normal ''ls'', Normal ''x''])
     [ShellCmd None [Normal ''wc'', Normal ''-l'']]"

lemma piped_parse: "parse_input piped_line = Ok piped_ast"
  by code_simp

lemma piped_converts: "map (convert_single prefs_default)
     (ShellCmd None [Normal ''ls'', Normal ''x''] # [ShellCmd None [Normal ''wc'', Normal ''-l'']]) =
   map Ok [Unknown ''ls'' [''x''], Unknown ''wc'' [''-l'']]"
  by (simp add: convert_single_def convert_words_def expand_def prefs_default_def expand_string_def)

lemma root_only_simps [simp]: "stack root_only = [RemoteRef 0]"
  by (simp add: root_only_def)

lemma pipeline_plan_witness:
  "parse_command_simple root_only prefs_default piped_line =
     Ok (wired_plan (last (stack root_only)) [Unknown ''ls'' [''x''], Unknown ''wc'' [''-l'']])"
  by (rule pipeline_plan [OF piped_parse [unfolded piped_ast_def] _ piped_converts]) simp

lemma conversion_sound_witness:
  "case parse_command_simple root_only prefs_default sample_line of
     Ok pl \<Rightarrow> (\<exists>ps i. replay (steps pl) [] = Some ps \<and> plan_stdin pl = Some i \<and> i < length ps \<and>
         snd (ps ! i) \<and> fst (ps ! 0) \<and> fst (ps ! 1)) \<and>
         sink_map pl = [Some SinkStdout, Some SinkStderr]
   | Err m \<Rightarrow> \<exists>c \<in> set (commands_of sample_ast). convert_single prefs_default c = Err m
   | Panic m \<Rightarrow> \<exists>c \<in> set (commands_of sample_ast). convert_single prefs_default c = Panic m
   | Diverge \<Rightarrow> False"
  by (rule conversion_sound [OF sample_valid sample_parse]) (simp_all add: sample_ast_def)

lemma sequence_panics_witness:
  "parse_command_simple root_only prefs_default ''a ; b'' = Panic ''explicit panic''"
proof (rule sequence_panics)
  show "parse_input ''a ; b'' = Ok (Sequence (Cmd (ShellCmd None [Normal ''a'']))
      [SequenceClause Wait (Cmd (ShellCmd None [Normal ''b'']))])"
    by code_simp
qed

lemma inner_stderr_unread_witness:
  "let pl = wired_plan (RemoteRef 0) [Unknown ''ls'' [''x''], Unknown ''wc'' [''-l'']];
       q = \<lparr>proc_id = 1, proc_stdin = 4, proc_stdout = 2, proc_stderr = 3\<rparr> in
   plan_reads pl (proc_stdout q) \<and> (plan_reads pl (proc_stderr q) \<longleftrightarrow> proc_id q = 0)"
  unfolding Let_def
proof (rule inner_stderr_unread [OF piped_parse [unfolded piped_ast_def] _ piped_converts, of root_only])
  show "parse_command_simple root_only prefs_default piped_line =
      Ok (wired_plan (RemoteRef 0) [Unknown ''ls'' [''x''], Unknown ''wc'' [''-l'']])"
    using pipeline_converts [OF piped_parse [unfolded piped_ast_def] _ piped_converts, of root_only] by simp
  show "StepRemote (RemoteRef 0) (Run (Unknown ''ls'' [''x''])
      \<lparr>proc_id = 1, proc_stdin = 4, proc_stdout = 2, proc_stderr = 3\<rparr>)
    \<in> set (steps (wired_plan (RemoteRef 0) [Unknown ''ls'' [''x''], Unknown ''wc'' [''-l'']]))"
    by (simp add: wired_plan_def stages_def stage_def)
qed simp

end
