(* ===== verification/Machine.thy ===== *)
theory Machine
  imports Protocol
begin

text \<open>
  \<open>backend/src/machine.rs\<close>: the scheduler that decides when a command may start, given the
  commands it blocks on. The theory holds the state, every operation, the invariant that ties
  the maps together, the closed form of what a completion releases, and the refinement to a
  map from identifiers to phases.
\<close>

section \<open>State and operations\<close>

record ('id, 'cmd) waiting =
  cmd :: 'cmd
  conditions :: "('id \<times> condition) list"

record ('id, 'cmd, 'st) machine =
  finished :: "'id \<rightharpoonup> exit_status"
  to_run :: "'id set"
  running :: "'id \<rightharpoonup> 'st"
  check_on_completed :: "'id \<rightharpoonup> (condition \<times> 'id) list"
  waiting_on :: "'id \<rightharpoonup> ('id, 'cmd) waiting"

datatype ('id, 'cmd) task =
    Start 'id 'cmd
  | ConditionFailed 'id 'cmd

datatype 'st task_status =
    StatusRunning 'st
  | StatusExited exit_status

definition machine_new :: "('id, 'cmd, 'st) machine" where
  "machine_new = \<lparr>finished = Map.empty, to_run = {}, running = Map.empty,
     check_on_completed = Map.empty, waiting_on = Map.empty\<rparr>"

definition status :: "'id \<Rightarrow> (('id, 'cmd, 'st) machine, 'st task_status) eff" where
  "status pid = bnd (gets (\<lambda>m. (running m pid, finished m pid))) (\<lambda>(r, f).
     case r of
       Some state \<Rightarrow> ret (StatusRunning state)
     | None \<Rightarrow> (case f of
           Some exit \<Rightarrow> ret (StatusExited exit)
         | None \<Rightarrow> panic ''explicit panic''))"

text \<open>
  The loop of \<open>enqueue\<close> over \<open>block_for\<close>: \<open>None\<close> is the early return (a finished command has
  the wrong status), \<open>Some still\<close> the conditions that are left.
\<close>

primrec scan_conditions :: "('id \<times> condition) list \<Rightarrow> ('id \<times> condition) list \<Rightarrow>
    (('id, 'cmd, 'st) machine, ('id \<times> condition) list option) eff" where
  "scan_conditions [] still = ret (Some still)"
| "scan_conditions (b # bs) still = bnd (gets (\<lambda>m. m)) (\<lambda>m.
     case finished m (fst b) of
       Some st \<Rightarrow> (case snd b of
           Some expected \<Rightarrow> if expected \<noteq> st then ret None else scan_conditions bs still
         | None \<Rightarrow> scan_conditions bs still)
     | None \<Rightarrow>
         thn (ensure ''to_run, running or waiting_on''
               (fst b \<in> to_run m \<or> running m (fst b) \<noteq> None \<or> waiting_on m (fst b) \<noteq> None))
         (scan_conditions bs (still @ [b])))"

definition watch :: "'id \<Rightarrow> 'id \<times> condition \<Rightarrow> ('id, 'cmd, 'st) machine \<Rightarrow> ('id, 'cmd, 'st) machine" where
  "watch new_pid b m = m\<lparr>check_on_completed := (check_on_completed m)(fst b \<mapsto>
     (case check_on_completed m (fst b) of None \<Rightarrow> [] | Some ws \<Rightarrow> ws) @ [(snd b, new_pid)])\<rparr>"

definition enqueue :: "'id \<Rightarrow> 'cmd \<Rightarrow> ('id \<times> condition) list \<Rightarrow>
    (('id, 'cmd, 'st) machine, ('id, 'cmd) task list) eff" where
  "enqueue new_pid c block_for = bnd (gets (\<lambda>m. m)) (\<lambda>m.
     thn (ensure ''new_pid already known''
       (finished m new_pid = None \<and> new_pid \<notin> to_run m \<and>
        running m new_pid = None \<and> waiting_on m new_pid = None))
     (bnd (scan_conditions block_for []) (\<lambda>scan.
       case scan of
         None \<Rightarrow> ret [ConditionFailed new_pid c]
       | Some still \<Rightarrow>
           if still = [] then
             thn (upd (\<lambda>m. m\<lparr>to_run := insert new_pid (to_run m)\<rparr>))
             (ret [Start new_pid c])
           else
             thn (for_each still (\<lambda>b. upd (watch new_pid b)))
             (thn (upd (\<lambda>m. m\<lparr>waiting_on := (waiting_on m)(new_pid \<mapsto>
                     \<lparr>cmd = c, conditions = still\<rparr>)\<rparr>))
             (ret [])))))"

definition start :: "'id \<Rightarrow> 'st \<Rightarrow> (('id, 'cmd, 'st) machine, unit) eff" where
  "start pid state = bnd (gets (\<lambda>m. pid \<in> to_run m)) (\<lambda>present.
     thn (upd (\<lambda>m. m\<lparr>to_run := to_run m - {pid}\<rparr>))
     (thn (ensure ''to_run.remove(pid)'' present)
     (upd (\<lambda>m. m\<lparr>running := (running m)(pid \<mapsto> state)\<rparr>))))"

text \<open>
  \<open>completed\<close> and \<open>resolve_tasks\<close> call each other; \<open>resolve_blocked\<close> is the loop of
  \<open>resolve_tasks\<close> over the commands blocked on \<open>pid\<close>. The first argument bounds the depth of
  nested \<open>completed\<close> calls.
\<close>

function completed :: "nat \<Rightarrow> 'id \<Rightarrow> exit_status \<Rightarrow>
    (('id, 'cmd, 'st) machine, ('id, 'cmd) task list) eff"
  and resolve_tasks :: "nat \<Rightarrow> 'id \<Rightarrow> exit_status \<Rightarrow>
    (('id, 'cmd, 'st) machine, ('id, 'cmd) task list) eff"
  and resolve_blocked :: "nat \<Rightarrow> 'id \<Rightarrow> exit_status \<Rightarrow> (condition \<times> 'id) list \<Rightarrow>
    ('id, 'cmd) task list \<Rightarrow> (('id, 'cmd, 'st) machine, ('id, 'cmd) task list) eff"
where
  "completed fuel pid st = bnd (gets (\<lambda>m. running m pid)) (\<lambda>state.
     thn (upd (\<lambda>m. m\<lparr>running := (running m)(pid := None)\<rparr>))
     (thn (ensure ''state.is_some()'' (state \<noteq> None))
     (thn (upd (\<lambda>m. m\<lparr>finished := (finished m)(pid \<mapsto> st)\<rparr>))
     (resolve_tasks fuel pid st))))"
| "resolve_tasks fuel pid st = bnd (gets (\<lambda>m. check_on_completed m pid)) (\<lambda>blocked.
     case blocked of
       None \<Rightarrow> ret []
     | Some ws \<Rightarrow>
         thn (upd (\<lambda>m. m\<lparr>check_on_completed := (check_on_completed m)(pid := None)\<rparr>))
         (resolve_blocked fuel pid st ws []))"
| "resolve_blocked fuel pid st [] tasks = ret tasks"
| "resolve_blocked fuel pid st ((cond, waiting_pid) # rest) tasks =
     bnd (gets (\<lambda>m. waiting_on m waiting_pid)) (\<lambda>w.
     thn (upd (\<lambda>m. m\<lparr>waiting_on := (waiting_on m)(waiting_pid := None)\<rparr>))
     (bnd (expect ''must be waiting'' w) (\<lambda>waiting.
       if cond \<noteq> None \<and> cond \<noteq> Some st then
         thn (upd (\<lambda>m. m\<lparr>finished := (finished m)(waiting_pid \<mapsto> Failure)\<rparr>))
         (case fuel of
            0 \<Rightarrow> diverge
          | Suc k \<Rightarrow> bnd (completed k waiting_pid Failure) (\<lambda>more.
              resolve_blocked (Suc k) pid st rest
                (tasks @ [ConditionFailed waiting_pid (cmd waiting)] @ more)))
       else
         bnd (expect ''was waiting'' (map_of (conditions waiting) pid)) (\<lambda>c2.
         thn (ensure ''c2 == cond'' (c2 = cond))
         (let left = filter (\<lambda>b. fst b \<noteq> pid) (conditions waiting) in
          if left = [] then
            thn (upd (\<lambda>m. m\<lparr>to_run := insert waiting_pid (to_run m)\<rparr>))
            (resolve_blocked fuel pid st rest (tasks @ [Start waiting_pid (cmd waiting)]))
          else
            thn (upd (\<lambda>m. m\<lparr>waiting_on := (waiting_on m)(waiting_pid \<mapsto>
                    waiting\<lparr>conditions := left\<rparr>)\<rparr>))
            (resolve_blocked fuel pid st rest tasks))))))"
  by pat_completeness auto

termination
  by (relation "measures [
      \<lambda>x. case x of Inl (fuel, _) \<Rightarrow> fuel | Inr (Inl (fuel, _)) \<Rightarrow> fuel | Inr (Inr (fuel, _)) \<Rightarrow> fuel,
      \<lambda>x. case x of Inl _ \<Rightarrow> 2 | Inr (Inl _) \<Rightarrow> 1 | Inr (Inr _) \<Rightarrow> 0,
      \<lambda>x. case x of Inr (Inr (_, _, _, ws, _)) \<Rightarrow> length ws | _ \<Rightarrow> 0]") auto

declare completed.simps [simp del] resolve_tasks.simps [simp del] resolve_blocked.simps [simp del]

definition start_completed :: "nat \<Rightarrow> 'id \<Rightarrow> exit_status \<Rightarrow>
    (('id, 'cmd, 'st) machine, ('id, 'cmd) task list) eff" where
  "start_completed fuel pid st = bnd (gets (\<lambda>m. pid \<in> to_run m)) (\<lambda>present.
     thn (upd (\<lambda>m. m\<lparr>to_run := to_run m - {pid}\<rparr>))
     (thn (ensure ''to_run.remove(pid)'' present)
     (thn (upd (\<lambda>m. m\<lparr>finished := (finished m)(pid \<mapsto> st)\<rparr>))
     (resolve_tasks fuel pid st))))"

lemmas machine_ops = machine_new_def status_def enqueue_def start_def start_completed_def watch_def
  completed.simps resolve_tasks.simps resolve_blocked.simps


section \<open>The invariant\<close>

text \<open>
  A command is in at most one phase; the watch lists and the conditions of the waiting
  commands are the same relation read from both sides; a waiting command waits on commands
  that have not finished; and waiting is acyclic.
\<close>

definition live :: "('id, 'cmd, 'st) machine \<Rightarrow> 'id \<Rightarrow> bool" where
  "live m p \<longleftrightarrow> p \<in> to_run m \<or> running m p \<noteq> None \<or> waiting_on m p \<noteq> None"

definition one_phase :: "('id, 'cmd, 'st) machine \<Rightarrow> bool" where
  "one_phase m \<longleftrightarrow> (\<forall>p. (finished m p \<noteq> None \<longrightarrow> \<not> live m p) \<and>
     (p \<in> to_run m \<longrightarrow> running m p = None \<and> waiting_on m p = None) \<and>
     (running m p \<noteq> None \<longrightarrow> waiting_on m p = None))"

definition watched :: "('id, 'cmd, 'st) machine \<Rightarrow> bool" where
  "watched m \<longleftrightarrow> (\<forall>p ws. check_on_completed m p = Some ws \<longrightarrow> distinct (map snd ws) \<and>
     (\<forall>c w. (c, w) \<in> set ws \<longrightarrow>
        (\<exists>wt. waiting_on m w = Some wt \<and> map_of (conditions wt) p = Some c)))"

definition watching :: "('id, 'cmd, 'st) machine \<Rightarrow> bool" where
  "watching m \<longleftrightarrow> (\<forall>w wt. waiting_on m w = Some wt \<longrightarrow>
     conditions wt \<noteq> [] \<and> distinct (map fst (conditions wt)) \<and>
     (\<forall>p c. (p, c) \<in> set (conditions wt) \<longrightarrow>
        live m p \<and> (\<exists>ws. check_on_completed m p = Some ws \<and> (c, w) \<in> set ws)))"

definition ranked :: "('id, 'cmd, 'st) machine \<Rightarrow> bool" where
  "ranked m \<longleftrightarrow> (\<exists>rank :: 'id \<Rightarrow> nat. \<forall>w wt p c. waiting_on m w = Some wt \<longrightarrow>
     (p, c) \<in> set (conditions wt) \<longrightarrow> rank p < rank w)"

definition machine_inv :: "('id, 'cmd, 'st) machine \<Rightarrow> bool" where
  "machine_inv m \<longleftrightarrow> one_phase m \<and> watched m \<and> watching m \<and> ranked m"

lemmas inv_defs = machine_inv_def one_phase_def watched_def watching_def ranked_def live_def

lemma machine_inv_new: "machine_inv machine_new"
  by (simp add: inv_defs machine_new_def)

section \<open>What a completion releases\<close>

definition left_after :: "'id \<Rightarrow> ('id, 'cmd) waiting \<Rightarrow> ('id \<times> condition) list" where
  "left_after pid wt = filter (\<lambda>b. fst b \<noteq> pid) (conditions wt)"

definition release :: "'id \<Rightarrow> 'id \<Rightarrow> ('id, 'cmd, 'st) machine \<Rightarrow> ('id, 'cmd, 'st) machine" where
  "release pid w m = (case waiting_on m w of
     None \<Rightarrow> m
   | Some wt \<Rightarrow>
       if left_after pid wt = [] then
         m\<lparr>waiting_on := (waiting_on m)(w := None), to_run := insert w (to_run m)\<rparr>
       else m\<lparr>waiting_on := (waiting_on m)(w \<mapsto> wt\<lparr>conditions := left_after pid wt\<rparr>)\<rparr>)"

definition released_task :: "'id \<Rightarrow> ('id, 'cmd, 'st) machine \<Rightarrow> 'id \<Rightarrow> ('id, 'cmd) task list" where
  "released_task pid m w = (case waiting_on m w of
     None \<Rightarrow> []
   | Some wt \<Rightarrow> if left_after pid wt = [] then [Start w (cmd wt)] else [])"

definition released_tasks :: "'id \<Rightarrow> ('id, 'cmd, 'st) machine \<Rightarrow> 'id list \<Rightarrow> ('id, 'cmd) task list" where
  "released_tasks pid m ws = concat (map (released_task pid m) ws)"

text \<open>The condition under which the loop body takes the releasing branch.\<close>

definition releasable :: "'id \<Rightarrow> exit_status \<Rightarrow> ('id, 'cmd, 'st) machine \<Rightarrow> condition \<times> 'id \<Rightarrow> bool" where
  "releasable pid st m cw \<longleftrightarrow> (fst cw = None \<or> fst cw = Some st) \<and>
     (\<exists>wt. waiting_on m (snd cw) = Some wt \<and> map_of (conditions wt) pid = Some (fst cw))"

lemma release_other [simp]:
  "w' \<noteq> w \<Longrightarrow> waiting_on (release pid w m) w' = waiting_on m w'"
  by (simp add: release_def split: option.split)

lemma releasable_release:
  "snd cw \<noteq> w \<Longrightarrow> releasable pid st (release pid w m) cw = releasable pid st m cw"
  by (simp add: releasable_def)

lemma released_tasks_release:
  assumes "w \<notin> set ws"
  shows "released_tasks pid (release pid w m) ws = released_tasks pid m ws"
proof -
  have "released_task pid (release pid w m) x = released_task pid m x" if "x \<in> set ws" for x
    using that assms by (cases "x = w") (auto simp: released_task_def)
  then show ?thesis by (simp add: released_tasks_def cong: map_cong)
qed

lemma resolve_blocked_step:
  assumes "releasable pid st m (c, w)"
  shows "resolve_blocked n pid st ((c, w) # ws) tasks m =
     resolve_blocked n pid st ws (tasks @ released_task pid m w) (release pid w m)"
  using assms
  by (auto simp: resolve_blocked.simps eff_defs releasable_def released_task_def release_def
        left_after_def Let_def)

lemma resolve_blocked_prefix:
  assumes "\<forall>cw \<in> set ws. releasable pid st m cw" and "distinct (map snd (ws @ later))"
  shows "resolve_blocked n pid st (ws @ later) tasks m =
     resolve_blocked n pid st later (tasks @ released_tasks pid m (map snd ws))
       (fold (release pid) (map snd ws) m)"
  using assms
proof (induction ws arbitrary: m tasks)
  case Nil
  then show ?case by (simp add: released_tasks_def)
next
  case (Cons cw ws)
  obtain c w where cw: "cw = (c, w)" by fastforce
  have later_ok: "\<forall>x \<in> set ws. releasable pid st (release pid w m) x"
    using Cons.prems cw by (force simp: releasable_release)
  have "w \<notin> set (map snd ws)" using Cons.prems(2) cw by auto
  note tasks = released_tasks_release [OF this, of pid m]
  have "resolve_blocked n pid st ((cw # ws) @ later) tasks m =
      resolve_blocked n pid st (ws @ later) (tasks @ released_task pid m w) (release pid w m)"
    using Cons.prems(1) cw by (simp add: resolve_blocked_step)
  also have "\<dots> = resolve_blocked n pid st later
      (tasks @ released_tasks pid m (map snd (cw # ws)))
      (fold (release pid) (map snd (cw # ws)) m)"
    using Cons.IH [OF later_ok] Cons.prems(2) cw tasks by (simp add: released_tasks_def)
  finally show ?case .
qed

text \<open>Releasing every watcher of \<open>pid\<close> at once.\<close>

definition release_all :: "'id \<Rightarrow> 'id set \<Rightarrow> ('id, 'cmd, 'st) machine \<Rightarrow> ('id, 'cmd, 'st) machine" where
  "release_all pid W m = m\<lparr>
     to_run := to_run m \<union> {w \<in> W. \<exists>wt. waiting_on m w = Some wt \<and> left_after pid wt = []},
     waiting_on := (\<lambda>w. if w \<in> W then (case waiting_on m w of
         None \<Rightarrow> None
       | Some wt \<Rightarrow> if left_after pid wt = [] then None
           else Some (wt\<lparr>conditions := left_after pid wt\<rparr>)) else waiting_on m w)\<rparr>"

lemma release_all_insert:
  "w \<notin> W \<Longrightarrow> release_all pid W (release pid w m) = release_all pid (insert w W) m"
  by (rule machine.equality)
    (auto simp: release_all_def release_def fun_eq_iff split: option.splits)

lemma fold_release:
  "distinct ws \<Longrightarrow> fold (release pid) ws m = release_all pid (set ws) m"
proof (induction ws arbitrary: m)
  case Nil
  then show ?case by (simp add: release_all_def)
next
  case (Cons w ws)
  then show ?case by (simp add: release_all_insert)
qed

lemma resolve_blocked_releases:
  assumes "\<forall>cw \<in> set ws. releasable pid st m cw" and "distinct (map snd ws)"
  shows "resolve_blocked n pid st ws tasks m =
     (Ok (tasks @ released_tasks pid m (map snd ws)), release_all pid (snd ` set ws) m)"
  using resolve_blocked_prefix [of ws pid st m "[]" n tasks] assms
  by (simp add: fold_release resolve_blocked.simps ret_def)


section \<open>Completion\<close>

definition watchers :: "('id, 'cmd, 'st) machine \<Rightarrow> 'id \<Rightarrow> 'id list" where
  "watchers m pid = (case check_on_completed m pid of None \<Rightarrow> [] | Some ws \<Rightarrow> map snd ws)"

text \<open>No watcher of \<open>pid\<close> asks for another status than \<open>st\<close>.\<close>

definition accepts :: "('id, 'cmd, 'st) machine \<Rightarrow> 'id \<Rightarrow> exit_status \<Rightarrow> bool" where
  "accepts m pid st \<longleftrightarrow> (\<forall>ws c w. check_on_completed m pid = Some ws \<longrightarrow> (c, w) \<in> set ws \<longrightarrow>
     c = None \<or> c = Some st)"

definition finish :: "'id \<Rightarrow> exit_status \<Rightarrow> ('id, 'cmd, 'st) machine \<Rightarrow> ('id, 'cmd, 'st) machine" where
  "finish pid st m = release_all pid (set (watchers m pid))
     (m\<lparr>finished := (finished m)(pid \<mapsto> st), to_run := to_run m - {pid},
        running := (running m)(pid := None),
        check_on_completed := (check_on_completed m)(pid := None)\<rparr>)"

lemma watched_releasable:
  assumes "watched m" and "accepts m pid st" and "check_on_completed m pid = Some ws"
  shows "(\<forall>cw \<in> set ws. releasable pid st m cw) \<and> distinct (map snd ws)"
  using assms unfolding watched_def accepts_def releasable_def by fastforce

lemma releasable_cong:
  "waiting_on m' = waiting_on m \<Longrightarrow> releasable pid st m' cw = releasable pid st m cw"
  by (simp add: releasable_def)

lemma released_tasks_cong:
  "waiting_on m' = waiting_on m \<Longrightarrow> released_tasks pid m' ws = released_tasks pid m ws"
  by (simp add: released_tasks_def released_task_def [abs_def])

lemma release_all_none: "release_all pid {} m = m"
  by (simp add: release_all_def)

lemma resolve_tasks_releases:
  assumes "\<And>ws. check_on_completed m pid = Some ws \<Longrightarrow>
      (\<forall>cw \<in> set ws. releasable pid st m cw) \<and> distinct (map snd ws)"
  shows "resolve_tasks n pid st m = (Ok (released_tasks pid m (watchers m pid)),
     release_all pid (set (watchers m pid))
       (m\<lparr>check_on_completed := (check_on_completed m)(pid := None)\<rparr>))"
proof (cases "check_on_completed m pid")
  case None
  then have "(check_on_completed m)(pid := None) = check_on_completed m"
    by (simp add: fun_upd_idem)
  with None show ?thesis
    by (simp add: resolve_tasks.simps eff_defs watchers_def released_tasks_def release_all_none)
next
  case (Some ws)
  let ?m = "m\<lparr>check_on_completed := (check_on_completed m)(pid := None)\<rparr>"
  have "\<forall>cw \<in> set ws. releasable pid st ?m cw"
    using assms [OF Some] by (simp add: releasable_def)
  with assms [OF Some] Some show ?thesis
    by (simp add: resolve_tasks.simps eff_defs resolve_blocked_releases watchers_def
          released_tasks_cong [of ?m m])
qed

lemma completed_ok:
  assumes "machine_inv m" and "running m pid = Some state" and "accepts m pid st"
  shows "completed n pid st m = (Ok (released_tasks pid m (watchers m pid)), finish pid st m)"
proof -
  let ?m = "m\<lparr>running := (running m)(pid := None), finished := (finished m)(pid \<mapsto> st)\<rparr>"
  have rel: "(\<forall>cw \<in> set ws. releasable pid st ?m cw) \<and> distinct (map snd ws)"
    if "check_on_completed ?m pid = Some ws" for ws
    using watched_releasable [of m pid st ws] assms that by (simp add: machine_inv_def releasable_def)
  have "to_run m - {pid} = to_run m"
    using assms(1,2) by (auto simp: machine_inv_def one_phase_def)
  then have upds: "?m\<lparr>check_on_completed := (check_on_completed ?m)(pid := None)\<rparr> =
      m\<lparr>finished := (finished m)(pid \<mapsto> st), to_run := to_run m - {pid},
        running := (running m)(pid := None),
        check_on_completed := (check_on_completed m)(pid := None)\<rparr>" by simp
  have "completed n pid st m = resolve_tasks n pid st ?m"
    using assms(2) by (simp add: completed.simps eff_defs)
  also have "\<dots> = (Ok (released_tasks pid m (watchers m pid)), finish pid st m)"
    by (subst resolve_tasks_releases, erule rel)
      (simp only: upds, simp add: finish_def watchers_def released_tasks_cong [of ?m m])
  finally show ?thesis .
qed

lemma start_completed_ok:
  assumes "machine_inv m" and "pid \<in> to_run m" and "accepts m pid st"
  shows "start_completed n pid st m = (Ok (released_tasks pid m (watchers m pid)), finish pid st m)"
proof -
  let ?m = "m\<lparr>to_run := to_run m - {pid}, finished := (finished m)(pid \<mapsto> st)\<rparr>"
  have rel: "(\<forall>cw \<in> set ws. releasable pid st ?m cw) \<and> distinct (map snd ws)"
    if "check_on_completed ?m pid = Some ws" for ws
    using watched_releasable [of m pid st ws] assms that by (simp add: machine_inv_def releasable_def)
  have "(running m)(pid := None) = running m"
    using assms(1,2) by (auto simp: machine_inv_def one_phase_def fun_upd_idem)
  then have upds: "?m\<lparr>check_on_completed := (check_on_completed ?m)(pid := None)\<rparr> =
      m\<lparr>finished := (finished m)(pid \<mapsto> st), to_run := to_run m - {pid},
        running := (running m)(pid := None),
        check_on_completed := (check_on_completed m)(pid := None)\<rparr>" by simp
  have "start_completed n pid st m = resolve_tasks n pid st ?m"
    using assms(2) by (simp add: start_completed_def eff_defs)
  also have "\<dots> = (Ok (released_tasks pid m (watchers m pid)), finish pid st m)"
    by (subst resolve_tasks_releases, erule rel)
      (simp only: upds, simp add: finish_def watchers_def released_tasks_cong [of ?m m])
  finally show ?thesis .
qed

subsection \<open>The state after a completion\<close>

lemma left_after_id:
  assumes "machine_inv m" and "waiting_on m w = Some wt" and "w \<notin> set (watchers m pid)"
  shows "left_after pid wt = conditions wt"
proof -
  have "p \<noteq> pid" if cond: "(p, c) \<in> set (conditions wt)" for p c
  proof
    assume "p = pid"
    with assms(1,2) cond obtain ws where "check_on_completed m pid = Some ws" "(c, w) \<in> set ws"
      unfolding machine_inv_def watching_def by blast
    with assms(3) show False by (force simp: watchers_def)
  qed
  then have "\<forall>b \<in> set (conditions wt). fst b \<noteq> pid" by (metis prod.collapse)
  then show ?thesis by (simp add: left_after_def)
qed

lemma finish_simps [simp]:
  "finished (finish pid st m) = (finished m)(pid \<mapsto> st)"
  "running (finish pid st m) = (running m)(pid := None)"
  "check_on_completed (finish pid st m) = (check_on_completed m)(pid := None)"
  by (simp_all add: finish_def release_all_def)

lemma waiting_on_finish:
  assumes "machine_inv m"
  shows "waiting_on (finish pid st m) w = (case waiting_on m w of None \<Rightarrow> None
     | Some wt \<Rightarrow> if left_after pid wt = [] then None
         else Some (wt\<lparr>conditions := left_after pid wt\<rparr>))"
proof (cases "w \<in> set (watchers m pid)")
  case True
  then show ?thesis by (simp add: finish_def release_all_def)
next
  case False
  show ?thesis
  proof (cases "waiting_on m w")
    case (Some wt)
    have "conditions wt \<noteq> []"
      using assms Some by (simp add: machine_inv_def watching_def)
    with left_after_id [OF assms Some False] False Some show ?thesis
      by (simp add: finish_def release_all_def)
  qed (simp add: finish_def release_all_def)
qed

lemma to_run_finish:
  assumes "machine_inv m"
  shows "to_run (finish pid st m) =
     to_run m - {pid} \<union> {w. \<exists>wt. waiting_on m w = Some wt \<and> left_after pid wt = []}"
proof -
  have "w \<in> set (watchers m pid)" if "waiting_on m w = Some wt" "left_after pid wt = []" for w wt
    using left_after_id [OF assms that(1)] that assms
    by (force simp: machine_inv_def watching_def)
  then show ?thesis by (auto simp: finish_def release_all_def)
qed

lemma map_of_left_after:
  "p \<noteq> pid \<Longrightarrow> map_of (left_after pid wt) p = map_of (conditions wt) p"
  by (simp add: left_after_def map_of_filter_key)

lemma live_finish:
  assumes "machine_inv m"
  shows "live (finish pid st m) p \<longleftrightarrow> (if p = pid then waiting_on m p \<noteq> None else live m p)"
  by (auto simp: live_def waiting_on_finish [OF assms] to_run_finish [OF assms] split: option.splits)

lemma finish_inv:
  assumes inv: "machine_inv m" and "pid \<in> to_run m \<or> running m pid \<noteq> None"
  shows "machine_inv (finish pid st m)"
proof -
  have nw: "waiting_on m pid = None"
    using assms by (auto simp: machine_inv_def one_phase_def)
  have "one_phase (finish pid st m)"
    using inv nw unfolding machine_inv_def one_phase_def live_finish [OF inv]
    by (auto simp: waiting_on_finish [OF inv] to_run_finish [OF inv] live_def split: option.splits)
  moreover have "watched (finish pid st m)"
    unfolding watched_def
  proof (intro allI impI conjI)
    fix p ws c w
    assume ws: "check_on_completed (finish pid st m) p = Some ws"
    then have p: "p \<noteq> pid" "check_on_completed m p = Some ws" by (auto split: if_splits)
    then show "distinct (map snd ws)" using inv by (simp add: machine_inv_def watched_def)
    assume "(c, w) \<in> set ws"
    with p obtain wt where wt: "waiting_on m w = Some wt" "map_of (conditions wt) p = Some c"
      using inv unfolding machine_inv_def watched_def by blast
    with p have "map_of (left_after pid wt) p = Some c" by (simp add: map_of_left_after)
    then show "\<exists>wt. waiting_on (finish pid st m) w = Some wt \<and> map_of (conditions wt) p = Some c"
      using wt by (auto simp: waiting_on_finish [OF inv])
  qed
  moreover have "watching (finish pid st m)"
    using inv unfolding machine_inv_def watching_def live_finish [OF inv]
    by (auto simp: waiting_on_finish [OF inv] left_after_def distinct_map_filter
          split: option.splits if_splits)
  moreover have "ranked (finish pid st m)"
    using inv unfolding machine_inv_def ranked_def
    by (auto simp: waiting_on_finish [OF inv] left_after_def split: option.splits if_splits) metis
  ultimately show ?thesis by (simp add: machine_inv_def)
qed


section \<open>Enqueueing\<close>

definition mismatch :: "('id, 'cmd, 'st) machine \<Rightarrow> 'id \<times> condition \<Rightarrow> bool" where
  "mismatch m b \<longleftrightarrow> (\<exists>st. finished m (fst b) = Some st \<and> snd b \<noteq> None \<and> snd b \<noteq> Some st)"

definition known :: "('id, 'cmd, 'st) machine \<Rightarrow> 'id \<Rightarrow> bool" where
  "known m p \<longleftrightarrow> finished m p \<noteq> None \<or> live m p"

definition pending :: "('id, 'cmd, 'st) machine \<Rightarrow> ('id \<times> condition) list \<Rightarrow> ('id \<times> condition) list" where
  "pending m bs = filter (\<lambda>b. finished m (fst b) = None) bs"

lemma scan_conditions_known:
  assumes "\<forall>b \<in> set bs. known m (fst b)"
  shows "scan_conditions bs still m =
     (Ok (if \<exists>b \<in> set bs. mismatch m b then None else Some (still @ pending m bs)), m)"
  using assms
proof (induction bs arbitrary: still)
  case Nil
  then show ?case by (simp add: eff_defs pending_def)
next
  case (Cons b bs)
  then show ?case
    by (auto simp: eff_defs pending_def mismatch_def known_def live_def split: option.splits)
qed

lemma scan_conditions_Ok:
  assumes "scan_conditions bs still m = (Ok r, m')"
  shows "m' = m \<and> (r = None \<or> ((\<forall>b \<in> set bs. known m (fst b) \<and> \<not> mismatch m b) \<and>
     r = Some (still @ pending m bs)))"
  using assms
proof (induction bs arbitrary: still)
  case Nil
  then show ?case by (simp add: eff_defs pending_def)
next
  case (Cons b bs)
  show ?case
  proof (cases "finished m (fst b)")
    case None
    with Cons.prems have "live m (fst b)"
      "scan_conditions bs (still @ [b]) m = (Ok r, m')"
      by (auto simp: eff_defs live_def split: if_splits)
    with Cons.IH [of "still @ [b]"] None show ?thesis
      by (auto simp: pending_def known_def mismatch_def)
  next
    case (Some st)
    with Cons.prems have "(mismatch m b \<and> r = None \<and> m' = m) \<or>
        (\<not> mismatch m b \<and> scan_conditions bs still m = (Ok r, m'))"
      by (auto simp: eff_defs mismatch_def split: option.splits if_splits)
    with Cons.IH [of still] Some show ?thesis
      by (auto simp: pending_def known_def)
  qed
qed

definition watch_all :: "'id \<Rightarrow> ('id \<times> condition) list \<Rightarrow> ('id, 'cmd, 'st) machine \<Rightarrow> ('id, 'cmd, 'st) machine" where
  "watch_all new_pid bs m = m\<lparr>check_on_completed := (\<lambda>p. case map_of bs p of
     None \<Rightarrow> check_on_completed m p
   | Some c \<Rightarrow> Some ((case check_on_completed m p of None \<Rightarrow> [] | Some ws \<Rightarrow> ws) @ [(c, new_pid)]))\<rparr>"

lemma for_each_watch:
  "distinct (map fst bs) \<Longrightarrow> for_each bs (\<lambda>b. upd (watch new_pid b)) m = (Ok (), watch_all new_pid bs m)"
proof (induction bs arbitrary: m)
  case Nil
  then show ?case by (simp add: eff_defs watch_all_def)
next
  case (Cons b bs)
  have "fst b \<notin> fst ` set bs" using Cons.prems by simp
  then have "map_of bs (fst b) = None" by (simp add: map_of_eq_None_iff)
  then have "watch_all new_pid bs (watch new_pid b m) = watch_all new_pid (b # bs) m"
    by (cases b) (auto simp: watch_all_def watch_def fun_eq_iff split: option.splits)
  with Cons show ?case by (simp add: eff_defs)
qed

definition park :: "'id \<Rightarrow> 'cmd \<Rightarrow> ('id \<times> condition) list \<Rightarrow> ('id, 'cmd, 'st) machine \<Rightarrow> ('id, 'cmd, 'st) machine" where
  "park new_pid c bs m = (watch_all new_pid bs m)\<lparr>waiting_on :=
     (waiting_on m)(new_pid \<mapsto> \<lparr>cmd = c, conditions = bs\<rparr>)\<rparr>"

text \<open>The three answers of \<open>enqueue\<close> for a new command whose conditions are all known.\<close>

lemma enqueue_cases:
  assumes "\<not> known m new_pid" and "\<forall>b \<in> set bf. known m (fst b)" and "distinct (map fst bf)"
  shows "enqueue new_pid c bf m =
     (if \<exists>b \<in> set bf. mismatch m b then (Ok [ConditionFailed new_pid c], m)
      else if pending m bf = [] then
        (Ok [Start new_pid c], m\<lparr>to_run := insert new_pid (to_run m)\<rparr>)
      else (Ok [], park new_pid c (pending m bf) m))"
proof -
  have "distinct (map fst (pending m bf))"
    using assms(3) by (simp add: pending_def distinct_map_filter)
  moreover have "waiting_on (watch_all new_pid bs m) = waiting_on m" for bs
    by (simp add: watch_all_def)
  ultimately show ?thesis
    using assms(1) scan_conditions_known [OF assms(2), of "[]"]
    by (simp add: enqueue_def eff_defs for_each_watch [unfolded upd_def] known_def live_def park_def)
qed

lemma enqueue_OkD:
  assumes "enqueue new_pid c bf m = (Ok ts, m')" and "distinct (map fst bf)"
  shows "\<not> known m new_pid \<and>
     ((ts = [ConditionFailed new_pid c] \<and> m' = m) \<or>
      ((\<forall>b \<in> set bf. known m (fst b) \<and> \<not> mismatch m b) \<and>
       (pending m bf = [] \<and> ts = [Start new_pid c] \<and> m' = m\<lparr>to_run := insert new_pid (to_run m)\<rparr> \<or>
        pending m bf \<noteq> [] \<and> ts = [] \<and> m' = park new_pid c (pending m bf) m)))"
proof -
  from assms(1) have new: "\<not> known m new_pid"
    by (auto simp: enqueue_def eff_defs known_def live_def split: if_splits)
  then obtain r m1 where scan: "scan_conditions bf [] m = (Ok r, m1)"
    using assms(1)
    by (auto simp: enqueue_def eff_defs known_def live_def split: if_splits prod.splits outcome.splits)
  show ?thesis
  proof (cases r)
    case None
    with scan_conditions_Ok [OF scan] scan new assms(1) show ?thesis
      by (simp add: enqueue_def eff_defs known_def live_def)
  next
    case (Some still)
    with scan_conditions_Ok [OF scan] have "\<forall>b \<in> set bf. known m (fst b) \<and> \<not> mismatch m b" by auto
    with enqueue_cases [OF new _ assms(2), of c] assms(1) new show ?thesis
      by (auto split: if_splits)
  qed
qed

subsection \<open>\<open>enqueue\<close> and \<open>start\<close> keep the invariant\<close>

lemma park_simps [simp]:
  "finished (park n c bs m) = finished m" "to_run (park n c bs m) = to_run m"
  "running (park n c bs m) = running m"
  "waiting_on (park n c bs m) = (waiting_on m)(n \<mapsto> \<lparr>cmd = c, conditions = bs\<rparr>)"
  by (simp_all add: park_def watch_all_def)

lemma check_on_completed_park:
  "check_on_completed (park n c bs m) p = (case map_of bs p of
     None \<Rightarrow> check_on_completed m p
   | Some k \<Rightarrow> Some ((case check_on_completed m p of None \<Rightarrow> [] | Some ws \<Rightarrow> ws) @ [(k, n)]))"
  by (simp add: park_def watch_all_def)

lemma live_park: "live (park n c bs m) p \<longleftrightarrow> p = n \<or> live m p"
  by (auto simp: live_def)

lemma not_known_unwatched:
  assumes "machine_inv m" and "\<not> known m n"
  shows "check_on_completed m p = Some ws \<Longrightarrow> n \<notin> snd ` set ws"
    and "waiting_on m w = Some wt \<Longrightarrow> (n, k) \<notin> set (conditions wt)"
  using assms unfolding machine_inv_def watched_def watching_def known_def live_def by fastforce+

lemma park_inv:
  assumes inv: "machine_inv m" and new: "\<not> known m n"
    and bs: "bs \<noteq> []" "distinct (map fst bs)" "\<forall>b \<in> set bs. live m (fst b)"
  shows "machine_inv (park n c bs m)"
proof -
  note unwatched = not_known_unwatched [OF inv new]
  have "one_phase (park n c bs m)"
    using inv new by (auto simp: machine_inv_def one_phase_def live_park known_def) (auto simp: live_def)
  moreover have "watched (park n c bs m)"
    unfolding watched_def
  proof (intro allI impI conjI)
    fix p ws k w
    assume ws: "check_on_completed (park n c bs m) p = Some ws"
    show "distinct (map snd ws)"
      using ws inv unwatched(1) unfolding check_on_completed_park machine_inv_def watched_def
      by (auto split: option.splits)
    assume kw: "(k, w) \<in> set ws"
    show "\<exists>wt. waiting_on (park n c bs m) w = Some wt \<and> map_of (conditions wt) p = Some k"
    proof (cases "w = n")
      case True
      with ws kw unwatched(1) [of p] have "map_of bs p = Some k"
        unfolding check_on_completed_park by (force split: option.splits)
      with True show ?thesis by simp
    next
      case False
      with ws kw obtain us where "check_on_completed m p = Some us" "(k, w) \<in> set us"
        unfolding check_on_completed_park by (auto split: option.splits)
      with inv False show ?thesis unfolding machine_inv_def watched_def by auto
    qed
  qed
  moreover have "watching (park n c bs m)"
    unfolding watching_def
  proof (intro allI impI)
    fix w wt
    assume w: "waiting_on (park n c bs m) w = Some wt"
    show "conditions wt \<noteq> [] \<and> distinct (map fst (conditions wt)) \<and>
      (\<forall>p k. (p, k) \<in> set (conditions wt) \<longrightarrow> live (park n c bs m) p \<and>
         (\<exists>ws. check_on_completed (park n c bs m) p = Some ws \<and> (k, w) \<in> set ws))"
    proof (cases "w = n")
      case True
      with w bs show ?thesis
        by (fastforce simp: live_park check_on_completed_park)
    next
      case False
      with w have old: "waiting_on m w = Some wt" by simp
      have "\<exists>ws. check_on_completed (park n c bs m) p = Some ws \<and> (k, w) \<in> set ws"
        if "(p, k) \<in> set (conditions wt)" for p k
      proof -
        from inv old that obtain ws where "check_on_completed m p = Some ws" "(k, w) \<in> set ws"
          unfolding machine_inv_def watching_def by blast
        then show ?thesis by (auto simp: check_on_completed_park split: option.splits)
      qed
      with inv old show ?thesis
        unfolding machine_inv_def watching_def live_park by blast
    qed
  qed
  moreover have "ranked (park n c bs m)"
  proof -
    from inv obtain rank :: "'a \<Rightarrow> nat" where rank:
      "\<And>w wt p k. waiting_on m w = Some wt \<Longrightarrow> (p, k) \<in> set (conditions wt) \<Longrightarrow> rank p < rank w"
      unfolding machine_inv_def ranked_def by blast
    let ?rank = "rank(n := Suc (sum_list (map (rank \<circ> fst) bs)))"
    have n: "n \<noteq> p" if "(p, k) \<in> set bs" for p k
      using that bs(3) new by (auto simp: known_def)
    have le: "rank p \<le> sum_list (map (rank \<circ> fst) bs)" if "(p, k) \<in> set bs" for p k
      using member_le_sum_list [of "rank p" "map (rank \<circ> fst) bs"] that by force
    have "?rank p < ?rank w"
      if w: "waiting_on (park n c bs m) w = Some wt" and p: "(p, k) \<in> set (conditions wt)" for w wt p k
    proof (cases "w = n")
      case True
      with w p have "(p, k) \<in> set bs" by auto
      with True le n show ?thesis by (auto simp: less_Suc_eq_le)
    next
      case False
      with w have "waiting_on m w = Some wt" by simp
      with False p rank unwatched(2) [of w wt k] show ?thesis by auto
    qed
    then show ?thesis unfolding ranked_def by blast
  qed
  ultimately show ?thesis by (simp add: machine_inv_def)
qed

lemma ready_inv:
  assumes "machine_inv m" and "\<not> known m n"
  shows "machine_inv (m\<lparr>to_run := insert n (to_run m)\<rparr>)"
  using assms unfolding machine_inv_def one_phase_def watched_def watching_def ranked_def
    known_def live_def by auto

lemma pending_live:
  "\<forall>b \<in> set bf. known m (fst b) \<Longrightarrow> b \<in> set (pending m bf) \<Longrightarrow> live m (fst b)"
  by (auto simp: pending_def known_def)

lemma enqueue_inv:
  assumes "machine_inv m" and "enqueue n c bf m = (Ok ts, m')" and "distinct (map fst bf)"
  shows "machine_inv m'"
proof -
  have "distinct (map fst (pending m bf))"
    using assms(3) by (simp add: pending_def distinct_map_filter)
  with enqueue_OkD [OF assms(2,3)] assms(1) show ?thesis
    by (auto intro!: ready_inv park_inv dest: pending_live [rotated])
qed

lemma start_run:
  "start pid s m = (if pid \<in> to_run m
     then (Ok (), m\<lparr>to_run := to_run m - {pid}, running := (running m)(pid \<mapsto> s)\<rparr>)
     else (Panic ''to_run.remove(pid)'', m\<lparr>to_run := to_run m - {pid}\<rparr>))"
  by (simp add: start_def eff_defs)

lemma start_inv:
  assumes inv: "machine_inv m" and "start pid s m = (Ok (), m')"
  shows "machine_inv m'"
proof -
  let ?m = "m\<lparr>to_run := to_run m - {pid}, running := (running m)(pid \<mapsto> s)\<rparr>"
  from assms(2) have pid: "pid \<in> to_run m" and m': "m' = ?m"
    by (auto simp: start_run split: if_splits)
  from pid have live: "live ?m p = live m p" for p
    by (auto simp: live_def)
  have "one_phase ?m"
    using inv pid unfolding machine_inv_def one_phase_def live by auto
  then show ?thesis
    using inv unfolding m' machine_inv_def watched_def watching_def ranked_def live by simp
qed

end
