(* ===== verification/Scheduler.thy ===== *)
theory Scheduler
  imports Machine
begin

text \<open>
  What the scheduler of \<open>Machine\<close> promises. A command is in one phase, and each operation
  changes the map from commands to phases as a one-line specification says; the theory proves
  that the detailed operations refine it, that a command starts only after everything it
  blocked on has finished as required, that waiting commands are never all there is, and what
  happens on the two paths where a condition fails.
\<close>

section \<open>Specification\<close>

datatype ('id, 'cmd, 'st) phase =
    Absent
  | Waits 'cmd "'id \<rightharpoonup> condition"
  | Ready
  | Active 'st
  | Done exit_status

definition phase_of :: "('id, 'cmd, 'st) machine \<Rightarrow> 'id \<Rightarrow> ('id, 'cmd, 'st) phase" where
  "phase_of m p = (case finished m p of Some st \<Rightarrow> Done st | None \<Rightarrow>
     if p \<in> to_run m then Ready else
     (case running m p of Some s \<Rightarrow> Active s | None \<Rightarrow>
     (case waiting_on m p of Some wt \<Rightarrow> Waits (cmd wt) (map_of (conditions wt)) | None \<Rightarrow> Absent)))"

definition spec_finish :: "'id \<Rightarrow> exit_status \<Rightarrow> ('id \<Rightarrow> ('id, 'cmd, 'st) phase) \<Rightarrow>
    'id \<Rightarrow> ('id, 'cmd, 'st) phase" where
  "spec_finish pid st \<sigma> p = (if p = pid then Done st else
     (case \<sigma> p of
        Waits c cs \<Rightarrow> if dom cs \<subseteq> {pid} then Ready else Waits c (cs(pid := None))
      | ph \<Rightarrow> ph))"

definition spec_start :: "'id \<Rightarrow> 'st \<Rightarrow> ('id \<Rightarrow> ('id, 'cmd, 'st) phase) \<Rightarrow>
    'id \<Rightarrow> ('id, 'cmd, 'st) phase" where
  "spec_start pid s \<sigma> = \<sigma>(pid := Active s)"

definition spec_pending :: "('id \<times> condition) list \<Rightarrow> ('id \<Rightarrow> ('id, 'cmd, 'st) phase) \<Rightarrow>
    'id \<rightharpoonup> condition" where
  "spec_pending bf \<sigma> p = (case \<sigma> p of Done _ \<Rightarrow> None | _ \<Rightarrow> map_of bf p)"

definition spec_refused :: "('id \<times> condition) list \<Rightarrow> ('id \<Rightarrow> ('id, 'cmd, 'st) phase) \<Rightarrow> bool" where
  "spec_refused bf \<sigma> \<longleftrightarrow> (\<exists>b \<in> set bf. \<exists>st. \<sigma> (fst b) = Done st \<and> snd b \<noteq> None \<and> snd b \<noteq> Some st)"

definition spec_enqueue :: "'id \<Rightarrow> 'cmd \<Rightarrow> ('id \<times> condition) list \<Rightarrow>
    ('id \<Rightarrow> ('id, 'cmd, 'st) phase) \<Rightarrow> 'id \<Rightarrow> ('id, 'cmd, 'st) phase" where
  "spec_enqueue n c bf \<sigma> =
     (if spec_refused bf \<sigma> then \<sigma>
      else if spec_pending bf \<sigma> = Map.empty then \<sigma>(n := Ready)
      else \<sigma>(n := Waits c (spec_pending bf \<sigma>)))"

definition spec_tasks :: "'id \<Rightarrow> ('id \<Rightarrow> ('id, 'cmd, 'st) phase) \<Rightarrow> ('id, 'cmd) task set" where
  "spec_tasks pid \<sigma> = {Start w c | w c. \<exists>cs. \<sigma> w = Waits c cs \<and> dom cs \<subseteq> {pid}}"

section \<open>Refinement\<close>

lemma phase_of_Done: "phase_of m p = Done st \<longleftrightarrow> finished m p = Some st"
  by (simp add: phase_of_def split: option.split)

lemma phase_of_Waits:
  "machine_inv m \<Longrightarrow> phase_of m p = Waits c cs \<longleftrightarrow>
     (\<exists>wt. waiting_on m p = Some wt \<and> cmd wt = c \<and> map_of (conditions wt) = cs)"
  unfolding machine_inv_def one_phase_def live_def
  by (auto simp: phase_of_def split: option.split)

lemma left_after_Nil: "left_after pid wt = [] \<longleftrightarrow> dom (map_of (conditions wt)) \<subseteq> {pid}"
  by (auto simp: left_after_def dom_map_of_conv_image_fst filter_empty_conv)

lemma phase_of_finish:
  assumes inv: "machine_inv m" and pid: "pid \<in> to_run m \<or> running m pid \<noteq> None"
  shows "phase_of (finish pid st m) = spec_finish pid st (phase_of m)"
proof
  fix p
  have nw: "waiting_on m pid = None"
    using assms by (auto simp: machine_inv_def one_phase_def)
  show "phase_of (finish pid st m) p = spec_finish pid st (phase_of m) p"
  proof (cases "waiting_on m p")
    case None
    then show ?thesis
      by (auto simp: phase_of_def spec_finish_def waiting_on_finish [OF inv] to_run_finish [OF inv]
            split: option.split)
  next
    case (Some wt)
    then have "p \<noteq> pid" "finished m p = None" "p \<notin> to_run m" "running m p = None"
      using inv nw by (auto simp: machine_inv_def one_phase_def live_def)
    with Some show ?thesis
      by (simp add: phase_of_def spec_finish_def waiting_on_finish [OF inv] to_run_finish [OF inv]
            left_after_Nil) (simp add: left_after_def map_of_filter_key)
  qed
qed

lemma released_task_set:
  "set (released_task pid m w) =
     {Start w (cmd wt) | wt. waiting_on m w = Some wt \<and> left_after pid wt = []}"
  by (auto simp: released_task_def split: option.splits if_splits)

lemma set_released_tasks:
  assumes inv: "machine_inv m"
  shows "set (released_tasks pid m (watchers m pid)) = spec_tasks pid (phase_of m)"
proof -
  have "w \<in> set (watchers m pid)" if "waiting_on m w = Some wt" "left_after pid wt = []" for w wt
    using left_after_id [OF inv that(1)] that inv by (force simp: machine_inv_def watching_def)
  then show ?thesis
    by (auto simp: released_tasks_def released_task_set spec_tasks_def phase_of_Waits [OF inv]
          left_after_Nil)
qed

lemma distinct_released_tasks:
  "distinct ws \<Longrightarrow> distinct (released_tasks pid m ws)"
  by (induction ws)
    (auto simp: released_tasks_def released_task_def split: option.splits)

lemma distinct_watchers: "machine_inv m \<Longrightarrow> distinct (watchers m pid)"
  by (auto simp: machine_inv_def watched_def watchers_def split: option.split)

lemma finish_refines:
  assumes "machine_inv m" and "pid \<in> to_run m \<or> running m pid \<noteq> None"
  shows "machine_inv (finish pid st m) \<and>
     phase_of (finish pid st m) = spec_finish pid st (phase_of m) \<and>
     distinct (released_tasks pid m (watchers m pid)) \<and>
     set (released_tasks pid m (watchers m pid)) = spec_tasks pid (phase_of m)"
  using assms
  by (simp add: finish_inv phase_of_finish set_released_tasks distinct_released_tasks distinct_watchers)

text \<open>
  C1: When a running command completes and no command waiting for it asks for another exit
  status, \<open>completed\<close> returns; the new state satisfies the invariant, the phases change as the
  specification says (the command is done, a command that waited for nothing else becomes
  ready, every other waiting command forgets this condition), and the tasks answered are
  exactly one \<open>Start\<close> for each command that became ready.
\<close>

theorem completed_refines:
  assumes "machine_inv m" and "running m pid = Some s" and "accepts m pid st"
  shows "returns (completed n pid st) (\<lambda>ts m'. machine_inv m' \<and>
     phase_of m' = spec_finish pid st (phase_of m) \<and>
     distinct ts \<and> set ts = spec_tasks pid (phase_of m)) m"
  using completed_ok [OF assms, of n] finish_refines [of m pid st] assms
  by (simp add: wp_def)

text \<open>
  The same for a command that finishes without ever running (a builtin, or a command that
  could not be spawned): \<open>start_completed\<close> on a ready command.
\<close>

lemma start_completed_refines:
  assumes "machine_inv m" and "pid \<in> to_run m" and "accepts m pid st"
  shows "returns (start_completed n pid st) (\<lambda>ts m'. machine_inv m' \<and>
     phase_of m' = spec_finish pid st (phase_of m) \<and>
     distinct ts \<and> set ts = spec_tasks pid (phase_of m)) m"
  using start_completed_ok [OF assms, of n] finish_refines [of m pid st] assms
  by (simp add: wp_def)

lemma spec_refused_iff: "spec_refused bf (phase_of m) \<longleftrightarrow> (\<exists>b \<in> set bf. mismatch m b)"
  by (simp add: spec_refused_def mismatch_def phase_of_Done)

lemma spec_pending_eq: "spec_pending bf (phase_of m) = map_of (pending m bf)"
proof
  fix p
  show "spec_pending bf (phase_of m) p = map_of (pending m bf) p"
  proof (cases "finished m p")
    case None
    then have "map_of (pending m bf) p = map_of bf p"
      by (induction bf) (auto simp: pending_def)
    moreover have "phase_of m p \<noteq> Done st" for st using None by (simp add: phase_of_Done)
    ultimately show ?thesis by (simp add: spec_pending_def split: phase.split)
  next
    case (Some st)
    then have "map_of (pending m bf) p = None"
      by (auto simp: pending_def map_of_eq_None_iff)
    with Some phase_of_Done [of m p st] show ?thesis by (simp add: spec_pending_def)
  qed
qed

lemma spec_pending_empty: "spec_pending bf (phase_of m) = Map.empty \<longleftrightarrow> pending m bf = []"
  by (simp add: spec_pending_eq)

lemma phase_of_ready:
  "\<not> known m n \<Longrightarrow> phase_of (m\<lparr>to_run := insert n (to_run m)\<rparr>) = (phase_of m)(n := Ready)"
  by (auto simp: fun_eq_iff phase_of_def known_def split: option.split)

lemma phase_of_park:
  "\<not> known m n \<Longrightarrow> phase_of (park n c bs m) = (phase_of m)(n := Waits c (map_of bs))"
  by (auto simp: fun_eq_iff phase_of_def known_def live_def split: option.split)

text \<open>
  C26: Enqueueing a new command that blocks on known commands returns, and refines the
  specification: it is refused (nothing is recorded) when a command it blocks on has finished
  with another status than required, it is ready at once when all of them have finished, and
  otherwise it waits for exactly those that have not. The list of conditions may come in any
  order: the hash map it stands for has none.
\<close>

theorem enqueue_refines:
  assumes "machine_inv m" and "\<not> known m n" and "\<forall>b \<in> set bf. known m (fst b)"
    and "distinct (map fst bf)"
  shows "returns (enqueue n c bf) (\<lambda>ts m'. machine_inv m' \<and>
     phase_of m' = spec_enqueue n c bf (phase_of m) \<and>
     ts = (if spec_refused bf (phase_of m) then [ConditionFailed n c]
           else if spec_pending bf (phase_of m) = Map.empty then [Start n c] else [])) m"
proof -
  have "\<exists>ts m'. enqueue n c bf m = (Ok ts, m')"
    unfolding enqueue_cases [OF assms(2-4), of c] by (simp split: if_split)
  then obtain ts m' where run: "enqueue n c bf m = (Ok ts, m')" by blast
  then have "machine_inv m'" using enqueue_inv [OF assms(1) _ assms(4)] by blast
  with run enqueue_cases [OF assms(2-4), of c] show ?thesis
    by (auto simp: wp_def spec_enqueue_def spec_refused_iff spec_pending_empty
          phase_of_ready [OF assms(2)] phase_of_park [OF assms(2)] spec_pending_eq
          split: if_splits)
qed


section \<open>Failed conditions\<close>

lemma resolve_blocked_mismatch:
  assumes "waiting_on m w = Some wt" and "e \<noteq> st" and "running m w = None"
  shows "fst (resolve_blocked (Suc k) pid st ((Some e, w) # later) tasks m) = Panic ''state.is_some()''"
  using assms by (simp add: resolve_blocked.simps completed.simps eff_defs)

lemma running_release_all [simp]: "running (release_all pid W m) = running m"
  by (simp add: release_all_def)

lemma resolve_tasks_mismatch:
  assumes w: "watched m" and waiting: "\<And>w. waiting_on m w \<noteq> None \<Longrightarrow> running m w = None"
    and na: "\<not> accepts m pid st"
  shows "fst (resolve_tasks (Suc k) pid st m) = Panic ''state.is_some()''"
proof -
  let ?bad = "\<lambda>cw :: condition \<times> 'a. \<not> (fst cw = None \<or> fst cw = Some st)"
  from na obtain ws where ws: "check_on_completed m pid = Some ws" and "\<exists>cw \<in> set ws. ?bad cw"
    unfolding accepts_def by (metis fst_conv)
  then obtain us cw vs where split: "ws = us @ cw # vs" "?bad cw" "\<forall>u \<in> set us. \<not> ?bad u"
    using split_list_first_propE [of ws ?bad] by metis
  obtain e w where cw: "cw = (Some e, w)" "e \<noteq> st" using split(2) by (cases cw) auto
  let ?m = "m\<lparr>check_on_completed := (check_on_completed m)(pid := None)\<rparr>"
  have wd: "distinct (map snd ws)" "\<forall>c w. (c, w) \<in> set ws \<longrightarrow>
      (\<exists>wt. waiting_on m w = Some wt \<and> map_of (conditions wt) pid = Some c)"
    using w ws by (auto simp: watched_def)
  have "\<forall>u \<in> set us. releasable pid st ?m u"
    using wd(2) split by (auto simp: releasable_def)
  moreover have "distinct (map snd (us @ cw # vs))" using wd(1) split by simp
  ultimately have loop: "resolve_blocked (Suc k) pid st ws [] ?m =
      resolve_blocked (Suc k) pid st (cw # vs) (released_tasks pid ?m (map snd us))
        (fold (release pid) (map snd us) ?m)"
    using resolve_blocked_prefix [of us pid st ?m "cw # vs"] split(1) by simp
  obtain wt where wt: "waiting_on m w = Some wt" using wd(2) split(1) cw by auto
  have "w \<notin> set (map snd us)" "distinct (map snd us)" using wd(1) split(1) cw by auto
  then have "waiting_on (fold (release pid) (map snd us) ?m) w = Some wt"
    "running (fold (release pid) (map snd us) ?m) w = None"
    unfolding fold_release [OF \<open>distinct (map snd us)\<close>] using wt waiting [of w]
    by (simp_all add: release_all_def)
  then have "fst (resolve_blocked (Suc k) pid st ws [] ?m) = Panic ''state.is_some()''"
    unfolding loop cw(1) using cw(2) by (intro resolve_blocked_mismatch)
  then show ?thesis
    using ws by (simp add: resolve_tasks.simps eff_defs)
qed

lemma completed_mismatch:
  assumes "machine_inv m" and "running m pid = Some s" and "\<not> accepts m pid st"
  shows "fst (completed (Suc n) pid st m) = Panic ''state.is_some()''"
proof -
  let ?m = "m\<lparr>running := (running m)(pid := None), finished := (finished m)(pid \<mapsto> st)\<rparr>"
  have *: "watched ?m" "\<not> accepts ?m pid st"
    using assms by (simp_all add: machine_inv_def watched_def accepts_def)
  have "running ?m w = None" if "waiting_on ?m w \<noteq> None" for w
    using assms(1) that by (auto simp: machine_inv_def one_phase_def)
  with resolve_tasks_mismatch [OF *(1) _ *(2)]
  have "fst (resolve_tasks (Suc n) pid st ?m) = Panic ''state.is_some()''" by blast
  then show ?thesis
    using assms(2) by (simp add: completed.simps eff_defs)
qed

text \<open>
  When a running command finishes with a status that some waiting command does not accept,
  the scheduler panics: \<open>resolve_tasks\<close> hands the refused command to \<open>completed\<close>, which asserts
  that it was running, and a waiting command never is. The cascade of failures the code spells
  out is never carried out.
\<close>

lemma completed_mismatch_panics:
  assumes "machine_inv m" and "running m pid = Some s" and "\<not> accepts m pid st"
  shows "fst (completed (Suc n) pid st m) = Panic ''state.is_some()''"
  using assms by (rule completed_mismatch)

text \<open>
  A command refused by \<open>enqueue\<close> leaves no trace, so a later command that blocks on it trips
  the assertion that every blocked-on command is known.
\<close>

text \<open>
  After \<open>enqueue\<close> has answered \<open>ConditionFailed\<close> for a command, enqueueing a command that
  blocks on it panics.
\<close>

lemma enqueue_after_refusal_panics:
  assumes "enqueue n c bf m = (Ok [ConditionFailed n c], m')" and "distinct (map fst bf)"
    and "\<not> known m q"
  shows "fst (enqueue q d [(n, k)] m') = Panic ''to_run, running or waiting_on''"
  using enqueue_OkD [OF assms(1,2)] assms(3)
  by (auto simp: enqueue_def eff_defs known_def live_def)

section \<open>Histories\<close>

text \<open>
  The states reached by any sequence of operations that return, together with the conditions
  each accepted command was enqueued with.
\<close>

inductive sched_reach :: "('id, 'cmd, 'st) machine \<Rightarrow> ('id \<rightharpoonup> ('id \<times> condition) list) \<Rightarrow> bool" where
  reach_new: "sched_reach machine_new Map.empty"
| reach_enqueue: "sched_reach m req \<Longrightarrow> distinct (map fst bf) \<Longrightarrow> enqueue n c bf m = (Ok ts, m') \<Longrightarrow>
    sched_reach m' (if ts = [ConditionFailed n c] then req else req(n \<mapsto> bf))"
| reach_start: "sched_reach m req \<Longrightarrow> start pid s m = (Ok (), m') \<Longrightarrow> sched_reach m' req"
| reach_start_completed: "sched_reach m req \<Longrightarrow> start_completed fuel pid st m = (Ok ts, m') \<Longrightarrow>
    sched_reach m' req"
| reach_completed: "sched_reach m req \<Longrightarrow> completed fuel pid st m = (Ok ts, m') \<Longrightarrow>
    sched_reach m' req"

lemma resolve_tasks_no_fuel:
  assumes w: "watched m" and "\<not> accepts m pid st"
  shows "fst (resolve_tasks 0 pid st m) = Diverge"
proof -
  have "fst (resolve_blocked 0 pid st ws tasks m) = Diverge"
    if "\<exists>cw \<in> set ws. fst cw \<noteq> None \<and> fst cw \<noteq> Some st"
      "\<forall>c w. (c, w) \<in> set ws \<longrightarrow> (\<exists>wt. waiting_on m w = Some wt \<and> map_of (conditions wt) pid = Some c)"
      "distinct (map snd ws)" for ws tasks and m :: "('a, 'b, 'c) machine"
    using that
  proof (induction ws arbitrary: tasks m)
    case (Cons cw ws)
    obtain c w where cw: "cw = (c, w)" by fastforce
    show ?case
    proof (cases "c = None \<or> c = Some st")
      case False
      with Cons.prems(2) cw show ?thesis
        by (auto simp: resolve_blocked.simps eff_defs split: option.splits)
    next
      case True
      with Cons.prems(2) cw have rel: "releasable pid st m (c, w)"
        by (auto simp: releasable_def)
      have "\<forall>c' w'. (c', w') \<in> set ws \<longrightarrow>
          (\<exists>wt. waiting_on (release pid w m) w' = Some wt \<and> map_of (conditions wt) pid = Some c')"
      proof (intro allI impI)
        fix c' w'
        assume "(c', w') \<in> set ws"
        moreover from this have "w' \<noteq> w" using Cons.prems(3) cw by force
        ultimately show "\<exists>wt. waiting_on (release pid w m) w' = Some wt \<and>
            map_of (conditions wt) pid = Some c'"
          using Cons.prems(2) by simp
      qed
      moreover have "\<exists>cw \<in> set ws. fst cw \<noteq> None \<and> fst cw \<noteq> Some st" "distinct (map snd ws)"
        using Cons.prems True cw by auto
      ultimately show ?thesis
        unfolding cw resolve_blocked_step [OF rel] by (intro Cons.IH)
    qed
  qed simp
  note diverges = this
  from assms(2) obtain ws where ws: "check_on_completed m pid = Some ws"
    "\<exists>cw \<in> set ws. fst cw \<noteq> None \<and> fst cw \<noteq> Some st"
    unfolding accepts_def by (metis fst_conv)
  moreover have "distinct (map snd ws)" "\<forall>c w. (c, w) \<in> set ws \<longrightarrow>
      (\<exists>wt. waiting_on m w = Some wt \<and> map_of (conditions wt) pid = Some c)"
    using w ws(1) by (auto simp: watched_def)
  ultimately show ?thesis
    using diverges by (simp add: resolve_tasks.simps eff_defs)
qed

lemma completed_OkD:
  assumes inv: "machine_inv m" and run: "completed n pid st m = (Ok ts, m')"
  shows "running m pid \<noteq> None \<and> accepts m pid st \<and> m' = finish pid st m"
proof -
  obtain s where s: "running m pid = Some s"
    using run by (cases "running m pid") (auto simp: completed.simps eff_defs)
  let ?m = "m\<lparr>running := (running m)(pid := None), finished := (finished m)(pid \<mapsto> st)\<rparr>"
  have "accepts m pid st"
  proof (rule ccontr)
    assume na: "\<not> accepts m pid st"
    show False
    proof (cases n)
      case 0
      have "watched ?m" "\<not> accepts ?m pid st"
        using inv na by (simp_all add: machine_inv_def watched_def accepts_def)
      from resolve_tasks_no_fuel [OF this] run s 0 show False
        by (simp add: completed.simps eff_defs)
    next
      case (Suc k)
      from completed_mismatch [OF inv s na, of k] run Suc show False by simp
    qed
  qed
  with completed_ok [OF inv s this, of n] run s show ?thesis by simp
qed

lemma start_completed_OkD:
  assumes inv: "machine_inv m" and run: "start_completed n pid st m = (Ok ts, m')"
  shows "pid \<in> to_run m \<and> accepts m pid st \<and> m' = finish pid st m"
proof -
  have pid: "pid \<in> to_run m"
    using run by (cases "pid \<in> to_run m") (auto simp: start_completed_def eff_defs)
  let ?m = "m\<lparr>to_run := to_run m - {pid}, finished := (finished m)(pid \<mapsto> st)\<rparr>"
  have "accepts m pid st"
  proof (rule ccontr)
    assume na: "\<not> accepts m pid st"
    have *: "watched ?m" "\<not> accepts ?m pid st"
      using inv na by (simp_all add: machine_inv_def watched_def accepts_def)
    have "running ?m w = None" if "waiting_on ?m w \<noteq> None" for w
      using inv that by (auto simp: machine_inv_def one_phase_def)
    with resolve_tasks_mismatch [OF *(1) _ *(2)]
    have "fst (resolve_tasks (Suc k) pid st ?m) = Panic ''state.is_some()''" for k by blast
    then have "fst (resolve_tasks n pid st ?m) \<noteq> Ok ts"
      using resolve_tasks_no_fuel [OF *] by (cases n) auto
    with run pid show False by (simp add: start_completed_def eff_defs)
  qed
  with start_completed_ok [OF inv pid this, of n] run pid show ?thesis by simp
qed


definition met :: "('id, 'cmd, 'st) machine \<Rightarrow> 'id \<times> condition \<Rightarrow> bool" where
  "met m b \<longleftrightarrow> (\<exists>st. finished m (fst b) = Some st \<and> (snd b = None \<or> snd b = Some st))"

definition accounted :: "('id, 'cmd, 'st) machine \<Rightarrow> 'id \<Rightarrow> ('id \<times> condition) list \<Rightarrow> bool" where
  "accounted m p bf \<longleftrightarrow> (\<forall>q c. (q, c) \<in> set bf \<longrightarrow> met m (q, c) \<or>
     (\<exists>wt. waiting_on m p = Some wt \<and> (q, c) \<in> set (conditions wt)))"

definition history_inv :: "('id, 'cmd, 'st) machine \<Rightarrow> ('id \<rightharpoonup> ('id \<times> condition) list) \<Rightarrow> bool" where
  "history_inv m req \<longleftrightarrow> (\<forall>p. known m p \<longrightarrow> (\<exists>bf. req p = Some bf \<and> accounted m p bf))"

lemma known_finish:
  "machine_inv m \<Longrightarrow> known m pid \<Longrightarrow> known (finish pid st m) p \<longleftrightarrow> known m p"
  by (auto simp: known_def live_finish)

lemma finish_history:
  assumes inv: "machine_inv m" and hist: "history_inv m req"
    and pid: "pid \<in> to_run m \<or> running m pid \<noteq> None" and acc: "accepts m pid st"
  shows "history_inv (finish pid st m) req"
  unfolding history_inv_def
proof (intro allI impI)
  fix p
  assume "known (finish pid st m) p"
  moreover have kp: "known m pid" using pid by (auto simp: known_def live_def)
  ultimately have "known m p" using known_finish [OF inv kp] by simp
  then obtain bf where bf: "req p = Some bf" and each:
      "\<And>q c. (q, c) \<in> set bf \<Longrightarrow> met m (q, c) \<or>
        (\<exists>wt. waiting_on m p = Some wt \<and> (q, c) \<in> set (conditions wt))"
    using hist unfolding history_inv_def accounted_def by blast
  have unfinished: "finished m pid = None"
    using inv pid by (auto simp: machine_inv_def one_phase_def live_def)
  have "met (finish pid st m) (q, c) \<or>
      (\<exists>wt. waiting_on (finish pid st m) p = Some wt \<and> (q, c) \<in> set (conditions wt))"
    if "(q, c) \<in> set bf" for q c
  proof (cases "met m (q, c)")
    case True
    with unfinished show ?thesis by (auto simp: met_def)
  next
    case False
    with each that obtain wt where wt: "waiting_on m p = Some wt" "(q, c) \<in> set (conditions wt)"
      by blast
    show ?thesis
    proof (cases "q = pid")
      case True
      with inv wt have "\<exists>ws. check_on_completed m pid = Some ws \<and> (c, p) \<in> set ws"
        unfolding machine_inv_def watching_def by blast
      with acc True show ?thesis by (auto simp: met_def accepts_def)
    next
      case False
      with wt have "(q, c) \<in> set (left_after pid wt)" by (simp add: left_after_def)
      with wt show ?thesis by (auto simp: waiting_on_finish [OF inv])
    qed
  qed
  with bf show "\<exists>bf. req p = Some bf \<and> accounted (finish pid st m) p bf"
    unfolding accounted_def by blast
qed

lemma ready_history:
  assumes "history_inv m req" and "pending m bf = []"
    and "\<forall>b \<in> set bf. known m (fst b) \<and> \<not> mismatch m b"
  shows "history_inv (m\<lparr>to_run := insert n (to_run m)\<rparr>) (req(n \<mapsto> bf))"
proof -
  let ?m = "m\<lparr>to_run := insert n (to_run m)\<rparr>"
  have "accounted m n bf"
    using assms(2,3) by (fastforce simp: accounted_def met_def mismatch_def pending_def filter_empty_conv)
  moreover have "accounted ?m p = accounted m p" "known ?m p \<longleftrightarrow> p = n \<or> known m p" for p
    by (auto simp: accounted_def [abs_def] met_def known_def live_def)
  ultimately show ?thesis
    using assms(1) unfolding history_inv_def by auto
qed

lemma park_history:
  assumes "history_inv m req" and "\<forall>b \<in> set bf. known m (fst b) \<and> \<not> mismatch m b"
  shows "history_inv (park n c (pending m bf) m) (req(n \<mapsto> bf))"
proof -
  let ?m = "park n c (pending m bf) m"
  have "met m b \<or> b \<in> set (pending m bf)" if "b \<in> set bf" for b
    using that assms(2) by (auto simp: met_def mismatch_def pending_def)
  moreover have "met ?m b = met m b" for b by (simp add: met_def)
  ultimately have "accounted ?m n bf" by (auto simp: accounted_def)
  moreover have "accounted ?m p bs = accounted m p bs" if "p \<noteq> n" for p bs
    using that by (simp add: accounted_def met_def)
  moreover have "known ?m p \<longleftrightarrow> p = n \<or> known m p" for p
    by (auto simp: known_def live_park)
  ultimately show ?thesis
    using assms(1) unfolding history_inv_def by auto
qed

lemma enqueue_history:
  assumes "history_inv m req" and "enqueue n c bf m = (Ok ts, m')" and "distinct (map fst bf)"
  shows "history_inv m' (if ts = [ConditionFailed n c] then req else req(n \<mapsto> bf))"
  using enqueue_OkD [OF assms(2,3)] ready_history [OF assms(1)] park_history [OF assms(1)] assms(1)
  by auto

lemma sched_reach_inv:
  "sched_reach m req \<Longrightarrow> machine_inv m \<and> history_inv m req"
proof (induction rule: sched_reach.induct)
  case reach_new
  show ?case
    by (simp add: machine_inv_new history_inv_def known_def live_def) (simp add: machine_new_def)
next
  case (reach_enqueue m req bf n c ts m')
  note run = reach_enqueue.hyps(3,2)
  show ?case
    using enqueue_inv [OF conjunct1 [OF reach_enqueue.IH] run]
      enqueue_history [OF conjunct2 [OF reach_enqueue.IH] run] by (rule conjI)
next
  case (reach_start m req pid s m')
  then have "pid \<in> to_run m" "m' = m\<lparr>to_run := to_run m - {pid}, running := (running m)(pid \<mapsto> s)\<rparr>"
    by (auto simp: start_run split: if_splits)
  moreover from this have "known m' p = known m p" for p
    by (auto simp: known_def live_def)
  ultimately show ?case
    using reach_start start_inv by (auto simp: history_inv_def accounted_def met_def)
next
  case (reach_start_completed m req fuel pid st ts m')
  from start_completed_OkD [OF conjunct1 [OF reach_start_completed.IH] reach_start_completed.hyps(2)]
    reach_start_completed.IH
  show ?case by (simp add: finish_inv finish_history)
next
  case (reach_completed m req fuel pid st ts m')
  from completed_OkD [OF conjunct1 [OF reach_completed.IH] reach_completed.hyps(2)]
    reach_completed.IH
  show ?case by (simp add: finish_inv finish_history)
qed

text \<open>
  C27: Whatever sequence of operations led here, a command that is ready, running or finished
  was enqueued, and every command it blocked on has finished with the exit status it asked for
  (any status, where it asked for none).
\<close>

theorem started_after_prerequisites:
  assumes "sched_reach m req" and "p \<in> to_run m \<or> running m p \<noteq> None \<or> finished m p \<noteq> None"
  shows "\<exists>bf. req p = Some bf \<and>
     (\<forall>b \<in> set bf. \<exists>st. finished m (fst b) = Some st \<and> (snd b = None \<or> snd b = Some st))"
proof -
  have "waiting_on m p = None" "known m p"
    using sched_reach_inv [OF assms(1)] assms(2)
    by (auto simp: machine_inv_def one_phase_def known_def live_def)
  with sched_reach_inv [OF assms(1)] show ?thesis
    unfolding history_inv_def accounted_def met_def by fastforce
qed

lemma some_active:
  fixes m :: "('id, 'cmd, 'st) machine"
  assumes inv: "machine_inv m" and "waiting_on m p \<noteq> None"
  shows "\<exists>q. q \<in> to_run m \<or> running m q \<noteq> None"
proof -
  from inv obtain rank :: "'id \<Rightarrow> nat" where rank:
      "\<And>w wt q k. waiting_on m w = Some wt \<Longrightarrow> (q, k) \<in> set (conditions wt) \<Longrightarrow> rank q < rank w"
    unfolding machine_inv_def ranked_def by blast
  from assms(2) show ?thesis
  proof (induction "rank p" arbitrary: p rule: less_induct)
    case less
    then obtain wt where wt: "waiting_on m p = Some wt" by auto
    with inv obtain q k where q: "(q, k) \<in> set (conditions wt)" "live m q"
      unfolding machine_inv_def watching_def by (metis list.set_intros(1) neq_Nil_conv prod.collapse)
    show ?case
    proof (cases "waiting_on m q = None")
      case True
      with q(2) show ?thesis by (auto simp: live_def)
    next
      case False
      then show ?thesis using less.hyps rank wt q(1) by blast
    qed
  qed
qed

text \<open>
  C31: Waiting commands never wait for each other only: while some command waits, another is
  ready to run or running.
\<close>

theorem scheduler_no_deadlock:
  assumes "sched_reach m req" and "waiting_on m p \<noteq> None"
  shows "\<exists>q. q \<in> to_run m \<or> running m q \<noteq> None"
  by (rule some_active [OF _ assms(2)]) (use sched_reach_inv [OF assms(1)] in simp)

section \<open>The scheduler as the executor uses it\<close>

text \<open>
  The identifiers a list of tasks starts.
\<close>

fun starts :: "('id, 'cmd) task list \<Rightarrow> 'id list" where
  "starts [] = []"
| "starts (Start p c # ts) = p # starts ts"
| "starts (ConditionFailed p c # ts) = starts ts"

fun is_start :: "('id, 'cmd) task \<Rightarrow> bool" where
  "is_start (Start p c) = True"
| "is_start (ConditionFailed p c) = False"

lemma starts_append [simp]: "starts (ts @ us) = starts ts @ starts us"
  by (induction ts rule: starts.induct) auto

lemma length_starts: "list_all is_start ts \<Longrightarrow> length (starts ts) = length ts"
  by (induction ts rule: starts.induct) auto

text \<open>
  The interface the executor's task loop relies on: some commands are ready, a number of them
  is held back; a ready command can be begun or finished on the spot, and finishing one answers
  tasks for exactly the commands it makes ready, each of which was held back before. Finishing
  may panic (a condition failed), and does not run out of fuel.
\<close>

locale task_scheduler =
  fixes begin_task :: "'id \<Rightarrow> 'st \<Rightarrow> ('m, unit) eff"
    and finish_task :: "nat \<Rightarrow> 'id \<Rightarrow> exit_status \<Rightarrow> ('m, ('id, 'cmd) task list) eff"
    and inv :: "'m \<Rightarrow> bool" and ready :: "'m \<Rightarrow> 'id set" and held :: "'m \<Rightarrow> nat"
  assumes begin_law: "inv m \<Longrightarrow> p \<in> ready m \<Longrightarrow>
      returns (begin_task p s) (\<lambda>_ m'. inv m' \<and> ready m' = ready m - {p} \<and> held m' = held m) m"
    and finish_law: "inv m \<Longrightarrow> p \<in> ready m \<Longrightarrow>
      wp (finish_task (Suc n) p st) (\<lambda>ts m'. inv m' \<and> list_all is_start ts \<and> distinct (starts ts) \<and>
          set (starts ts) \<inter> ready m = {} \<and> ready m' = ready m - {p} \<union> set (starts ts) \<and>
          held m = held m' + length ts) (\<lambda>_ _. False) (\<lambda>_ _. True) m"
begin

text \<open>
  A round of the loop: the tasks still to do in this round and the ones it has made for the
  next are all there is to start, and \<open>k\<close> counts what was held back when the round began.
\<close>

definition in_round :: "nat \<Rightarrow> ('id, 'cmd) task list \<Rightarrow> ('id, 'cmd) task list \<Rightarrow> 'm \<Rightarrow> bool" where
  "in_round k todo made m \<longleftrightarrow> inv m \<and> list_all is_start made \<and> distinct (starts (todo @ made)) \<and>
     ready m = set (starts (todo @ made)) \<and> held m + length made = k"

lemma round_begin:
  "in_round k (Start p c # todo) made m \<Longrightarrow>
   returns (begin_task p s) (\<lambda>_. in_round k todo made) m"
  by (rule wp_mono [OF begin_law]) (auto simp: in_round_def)

lemma round_finish:
  "in_round k (Start p c # todo) made m \<Longrightarrow>
   wp (finish_task (Suc n) p st) (\<lambda>ts. in_round k todo (made @ ts)) (\<lambda>_ _. False) (\<lambda>_ _. True) m"
  by (rule wp_mono [OF finish_law]) (auto simp: in_round_def)

lemma round_refused: "in_round k (ConditionFailed p c # todo) made m \<Longrightarrow> in_round k todo made m"
  by (simp add: in_round_def)

lemma round_over: "in_round k [] made m \<Longrightarrow> in_round (held m) made [] m \<and> held m + length made = k"
  by (simp add: in_round_def)

lemma all_done: "in_round k [] [] m \<Longrightarrow> inv m \<and> ready m = {}"
  by (simp add: in_round_def)

end

definition tasks_inv :: "('id, 'cmd, 'st) machine \<Rightarrow> bool" where
  "tasks_inv m \<longleftrightarrow> machine_inv m \<and> finite (dom (waiting_on m))"

definition held_back :: "('id, 'cmd, 'st) machine \<Rightarrow> nat" where
  "held_back m = card (dom (waiting_on m))"

definition freed :: "'id \<Rightarrow> ('id, 'cmd, 'st) machine \<Rightarrow> 'id set" where
  "freed pid m = {w. \<exists>wt. waiting_on m w = Some wt \<and> left_after pid wt = []}"

lemma starts_released:
  "distinct ws \<Longrightarrow> list_all is_start (released_tasks pid m ws) \<and> distinct (starts (released_tasks pid m ws)) \<and>
     set (starts (released_tasks pid m ws)) = set ws \<inter> freed pid m"
  by (induction ws)
    (auto simp: released_tasks_def released_task_def freed_def split: option.splits)

lemma freed_watchers: "machine_inv m \<Longrightarrow> freed pid m \<subseteq> set (watchers m pid)"
  using left_after_id [of m] by (force simp: freed_def machine_inv_def watching_def)

lemma finish_frees:
  assumes "tasks_inv m" and "pid \<in> to_run m \<or> running m pid \<noteq> None"
    and ts: "ts = released_tasks pid m (watchers m pid)"
  shows "tasks_inv (finish pid st m) \<and> list_all is_start ts \<and> distinct (starts ts) \<and>
     set (starts ts) \<inter> to_run m = {} \<and>
     to_run (finish pid st m) = to_run m - {pid} \<union> set (starts ts) \<and>
     held_back m = held_back (finish pid st m) + length ts"
proof -
  have inv: "machine_inv m" and fin: "finite (dom (waiting_on m))"
    using assms(1) by (simp_all add: tasks_inv_def)
  have set_ts: "set (starts ts) = freed pid m" and ts': "list_all is_start ts" "distinct (starts ts)"
    using starts_released [OF distinct_watchers [OF inv], of pid m pid] freed_watchers [OF inv, of pid]
    by (auto simp: ts)
  have sub: "freed pid m \<subseteq> dom (waiting_on m)" by (auto simp: freed_def)
  have dom: "dom (waiting_on (finish pid st m)) = dom (waiting_on m) - freed pid m"
    by (auto simp: waiting_on_finish [OF inv] freed_def split: option.splits if_splits)
  have "length ts = card (freed pid m)"
    using length_starts [OF ts'(1)] distinct_card [OF ts'(2)] set_ts by simp
  moreover have "card (dom (waiting_on m)) = card (dom (waiting_on m) - freed pid m) + card (freed pid m)"
    using card_Diff_subset [OF finite_subset [OF sub fin] sub] card_mono [OF fin sub] by simp
  ultimately have "held_back m = held_back (finish pid st m) + length ts"
    by (simp add: held_back_def dom)
  moreover have "freed pid m \<inter> to_run m = {}"
    using inv sub by (auto simp: machine_inv_def one_phase_def)
  moreover have "to_run (finish pid st m) = to_run m - {pid} \<union> freed pid m"
    by (simp add: to_run_finish [OF inv] freed_def)
  ultimately show ?thesis
    using finish_inv [OF inv assms(2)] fin dom ts' set_ts by (simp add: tasks_inv_def)
qed

lemma start_completed_mismatch:
  assumes "machine_inv m" and "pid \<in> to_run m" and "\<not> accepts m pid st"
  shows "fst (start_completed (Suc n) pid st m) = Panic ''state.is_some()''"
proof -
  let ?m = "m\<lparr>to_run := to_run m - {pid}, finished := (finished m)(pid \<mapsto> st)\<rparr>"
  have *: "watched ?m" "\<not> accepts ?m pid st"
    using assms by (simp_all add: machine_inv_def watched_def accepts_def)
  have "running ?m w = None" if "waiting_on ?m w \<noteq> None" for w
    using assms(1) that by (auto simp: machine_inv_def one_phase_def)
  with resolve_tasks_mismatch [OF *(1) _ *(2)]
  have "fst (resolve_tasks (Suc n) pid st ?m) = Panic ''state.is_some()''" by blast
  then show ?thesis using assms(2) by (simp add: start_completed_def eff_defs)
qed

interpretation machine_tasks: task_scheduler start start_completed tasks_inv to_run held_back
proof
  fix m :: "('id, 'cmd, 'st) machine" and p s
  assume m: "tasks_inv m" "p \<in> to_run m"
  let ?m = "m\<lparr>to_run := to_run m - {p}, running := (running m)(p \<mapsto> s)\<rparr>"
  have run: "start p s m = (Ok (), ?m)" using m(2) by (simp add: start_run)
  with start_inv [OF _ run] m show "returns (start p s) (\<lambda>_ m'. tasks_inv m' \<and>
      to_run m' = to_run m - {p} \<and> held_back m' = held_back m) m"
    by (simp add: wp_def tasks_inv_def held_back_def)
next
  fix m :: "('id, 'cmd, 'st) machine" and p st n
  assume m: "tasks_inv m" "p \<in> to_run m"
  then have inv: "machine_inv m" by (simp add: tasks_inv_def)
  show "wp (start_completed (Suc n) p st) (\<lambda>ts m'. tasks_inv m' \<and> list_all is_start ts \<and>
      distinct (starts ts) \<and> set (starts ts) \<inter> to_run m = {} \<and>
      to_run m' = to_run m - {p} \<union> set (starts ts) \<and> held_back m = held_back m' + length ts)
      (\<lambda>_ _. False) (\<lambda>_ _. True) m"
  proof (cases "accepts m p st")
    case True
    then show ?thesis
      using start_completed_ok [OF inv m(2) True, of "Suc n"] finish_frees [OF m(1) _ refl, of p st] m(2)
      by (simp add: wp_def)
  next
    case False
    then show ?thesis
      using start_completed_mismatch [OF inv m(2) False, of n] by (auto simp: wp_def split: prod.split)
  qed
qed

lemma completed_task:
  assumes "tasks_inv m" and "to_run m = {}"
  shows "wp (completed (Suc n) p st) (\<lambda>ts m'. held_back m' \<le> held_back m \<and>
       machine_tasks.in_round (held_back m') ts [] m') (\<lambda>_ _. False) (\<lambda>_ _. True) m"
proof -
  have inv: "machine_inv m" using assms(1) by (simp add: tasks_inv_def)
  consider (absent) "running m p = None"
    | (mismatch) s where "running m p = Some s" "\<not> accepts m p st"
    | (ok) s where "running m p = Some s" "accepts m p st"
    by fastforce
  then show ?thesis
  proof cases
    case absent
    then show ?thesis by (simp add: completed.simps wp_simps)
  next
    case mismatch
    from completed_mismatch [OF inv mismatch, of n] show ?thesis
      by (cases "completed (Suc n) p st m") (simp add: wp_def)
  next
    case ok
    with completed_ok [OF inv ok, of "Suc n"] finish_frees [OF assms(1) _ refl, of p st] assms(2)
    show ?thesis by (simp add: wp_def machine_tasks.in_round_def)
  qed
qed

lemma scan_conditions_answers:
  "wp (scan_conditions bf still) (\<lambda>_ _. True) (\<lambda>_ _. False) (\<lambda>_ _. True) m"
  by (induction bf arbitrary: still) (auto simp: wp_simps split: option.split)

lemma enqueue_task:
  assumes "tasks_inv m" and "to_run m = {}" and "distinct (map fst bf)"
  shows "wp (enqueue n c bf) (\<lambda>ts m'. held_back m' \<le> Suc (held_back m) \<and>
     machine_tasks.in_round (held_back m') ts [] m') (\<lambda>_ _. False) (\<lambda>_ _. True) m"
proof -
  have inv: "machine_inv m" and fin: "finite (dom (waiting_on m))"
    using assms(1) by (simp_all add: tasks_inv_def)
  have "wp (enqueue n c bf) (\<lambda>_ _. True) (\<lambda>_ _. False) (\<lambda>_ _. True) m"
    by (simp add: enqueue_def wp_simps)
      (auto intro!: wp_mono [OF scan_conditions_answers] simp: wp_simps wp_for_each_upd split: option.split)
  moreover have "held_back m' \<le> Suc (held_back m) \<and> machine_tasks.in_round (held_back m') ts [] m'"
    if run: "enqueue n c bf m = (Ok ts, m')" for ts m'
  proof -
    have "machine_inv m'" using enqueue_inv [OF inv run assms(3)] .
    with enqueue_OkD [OF run assms(3)] fin assms(2) show ?thesis
      by (auto simp: machine_tasks.in_round_def tasks_inv_def held_back_def card_insert_if)
  qed
  ultimately show ?thesis by (auto simp: wp_def split: prod.splits outcome.splits)
qed

section \<open>Concrete runs\<close>

text \<open>Job 0 runs and job 1 waits for it; and the same with a condition on the exit status.\<close>

definition two_jobs :: "condition \<Rightarrow> (nat, string, string) machine" where
  "two_jobs k = \<lparr>finished = Map.empty, to_run = {}, running = [0 \<mapsto> ''waffle''],
     check_on_completed = [0 \<mapsto> [(k, 1)]],
     waiting_on = [1 \<mapsto> \<lparr>cmd = ''b'', conditions = [(0, k)]\<rparr>]\<rparr>"

definition one_ready :: "(nat, string, string) machine" where
  "one_ready = \<lparr>finished = Map.empty, to_run = {0}, running = Map.empty,
     check_on_completed = [0 \<mapsto> [(None, 1)]],
     waiting_on = [1 \<mapsto> \<lparr>cmd = ''b'', conditions = [(0, None)]\<rparr>]\<rparr>"

lemma one_ready_reach: "sched_reach one_ready [0 \<mapsto> [], 1 \<mapsto> [(0, None)]]"
proof -
  let ?m = "\<lparr>finished = Map.empty, to_run = {0}, running = Map.empty, check_on_completed = Map.empty,
     waiting_on = Map.empty\<rparr> :: (nat, string, string) machine"
  have "enqueue 0 ''a'' [] machine_new = (Ok [Start 0 ''a''], ?m)"
    by (simp add: enqueue_def machine_new_def eff_defs)
  from reach_enqueue [OF reach_new _ this] have "sched_reach ?m [0 \<mapsto> []]" by simp
  moreover have "enqueue 1 ''b'' [(0, None)] ?m = (Ok [], one_ready)"
    by (simp add: enqueue_def watch_def one_ready_def eff_defs)
  ultimately have "sched_reach one_ready
    (if [] = [ConditionFailed (1::nat) ''b''] then [0 \<mapsto> []] else [0 \<mapsto> [], 1 \<mapsto> [(0, None)]])"
    by (intro reach_enqueue) simp_all
  then show ?thesis by simp
qed

lemma two_jobs_reach: "sched_reach (two_jobs None) [0 \<mapsto> [], 1 \<mapsto> [(0, None)]]"
proof -
  have "start 0 ''waffle'' one_ready = (Ok (), two_jobs None)"
    by (simp add: start_def one_ready_def two_jobs_def eff_defs)
  from reach_start [OF one_ready_reach this] show ?thesis .
qed

lemma two_jobs_inv: "machine_inv (two_jobs k)"
proof -
  have "ranked (two_jobs k)"
    unfolding ranked_def by (rule exI [of _ "\<lambda>p. p"]) (auto simp: two_jobs_def split: if_splits)
  then show ?thesis
    by (simp add: machine_inv_def one_phase_def watched_def watching_def live_def two_jobs_def)
qed

lemma one_ready_inv: "machine_inv one_ready"
  using sched_reach_inv [OF one_ready_reach] by simp

lemma completed_refines_witness:
  "returns (completed 0 0 Failure) (\<lambda>ts m'. machine_inv m' \<and>
     phase_of m' = spec_finish 0 Failure (phase_of (two_jobs None)) \<and>
     distinct ts \<and> set ts = spec_tasks 0 (phase_of (two_jobs None))) (two_jobs None)"
  by (rule completed_refines [where s = "''waffle''"])
    (simp_all add: two_jobs_inv accepts_def, simp_all add: two_jobs_def)

lemma start_completed_refines_witness:
  "returns (start_completed 0 0 Success) (\<lambda>ts m'. machine_inv m' \<and>
     phase_of m' = spec_finish 0 Success (phase_of one_ready) \<and>
     distinct ts \<and> set ts = spec_tasks 0 (phase_of one_ready)) one_ready"
  by (rule start_completed_refines)
    (simp_all add: one_ready_inv accepts_def, simp_all add: one_ready_def)

lemma enqueue_refines_witness:
  "returns (enqueue 2 ''c'' [(0, None)]) (\<lambda>ts m'. machine_inv m' \<and>
     phase_of m' = spec_enqueue 2 ''c'' [(0, None)] (phase_of one_ready) \<and>
     ts = (if spec_refused [(0, None)] (phase_of one_ready) then [ConditionFailed 2 ''c'']
           else if spec_pending [(0, None)] (phase_of one_ready) = Map.empty then [Start 2 ''c'']
           else [])) one_ready"
  by (rule enqueue_refines)
    (simp_all add: one_ready_inv known_def live_def, simp_all add: one_ready_def)

lemma completed_mismatch_panics_witness:
  "fst (completed (Suc 0) 0 Failure (two_jobs (Some Success))) = Panic ''state.is_some()''"
  by (rule completed_mismatch_panics [where s = "''waffle''"])
    (simp_all add: two_jobs_inv accepts_def, simp_all add: two_jobs_def)

lemma enqueue_after_refusal_panics_witness:
  "fst (enqueue 2 ''d'' [(1, None)] (one_ready\<lparr>to_run := {}, finished := [0 \<mapsto> Failure],
     check_on_completed := Map.empty, waiting_on := Map.empty\<rparr>)) =
   Panic ''to_run, running or waiting_on''"
  by (rule enqueue_after_refusal_panics [where c = "''b''" and bf = "[(0, Some Success)]" and
        m = "one_ready\<lparr>to_run := {}, finished := [0 \<mapsto> Failure],
          check_on_completed := Map.empty, waiting_on := Map.empty\<rparr>"])
    (simp_all add: enqueue_def one_ready_def known_def live_def eff_defs)

lemma started_after_prerequisites_witness:
  "\<exists>bf. [0 \<mapsto> [], 1 \<mapsto> [(0, None)]] (0::nat) = Some bf \<and>
     (\<forall>b \<in> set bf. \<exists>st. finished one_ready (fst b) = Some st \<and> (snd b = None \<or> snd b = Some st))"
  by (rule started_after_prerequisites [OF one_ready_reach]) (simp add: one_ready_def)

lemma scheduler_no_deadlock_witness:
  "\<exists>q. q \<in> to_run (two_jobs None) \<or> running (two_jobs None) q \<noteq> None"
  by (rule scheduler_no_deadlock [OF two_jobs_reach, of 1]) (simp add: two_jobs_def)

end
