(* ===== verification/Endpoint.thy ===== *)
theory Endpoint
  imports Protocol
begin

text \<open>
  \<open>protocol/src/comm.rs\<close>: the two ends of the line protocol. The frontend's \<open>Endpoint\<close> numbers
  remotes, processes and pipes and sends requests; the backend's \<open>Backend\<close> sends responses; a
  request received is routed to a \<open>BackendHandler\<close>, a response to an \<open>EndpointHandler\<close>. Traits
  are records of operations. The transport and \<open>serde_json::to_string\<close> are parameters, the
  fields of \<open>wire\<close>.
\<close>

section \<open>Lines on the wire\<close>

record 't wire =
  wire_send :: "bytes \<Rightarrow> ('t, unit) call"
  request_string :: "request \<Rightarrow> bytes option"
  response_string :: "response \<Rightarrow> bytes option"

definition newline :: bytes where
  "newline = [CHR 0x0A]"

text \<open>The line a backend writes first, and whoever started it expects.\<close>

definition handshake :: bytes where
  "handshake = ''nxQh6wsIiiFomXWE+7HQhQ=='' @ newline"

text \<open>
  Both transports hand a line to \<open>write\<close>, which answers how many bytes it took, and flush; the
  answer is not looked at.
\<close>

definition write_flush :: "(bytes \<Rightarrow> ('t, nat) call) \<Rightarrow> ('t, unit) call \<Rightarrow> bytes \<Rightarrow> ('t, unit) call" where
  "write_flush write_some flush data t = (case write_some data t of
     (Inl e, t1) \<Rightarrow> (Inl e, t1)
   | (Inr taken, t1) \<Rightarrow> flush t1)"

definition ser_to_endpoint :: "'t wire \<Rightarrow> remote_id \<Rightarrow> remote_request \<Rightarrow> ('s, bytes) eff" where
  "ser_to_endpoint w remote message =
     bnd (expect ''unwrap'' (request_string w \<lparr>rq_remote_id = rid_num remote, rq_message = message\<rparr>))
     (\<lambda>s. ret (s @ newline))"

definition ser_to_frontend :: "'t wire \<Rightarrow> remote_id \<Rightarrow> remote_response \<Rightarrow> ('s, bytes) eff" where
  "ser_to_frontend w remote message =
     bnd (expect ''unwrap'' (response_string w \<lparr>rs_remote_id = rid_num remote, rs_message = message\<rparr>))
     (\<lambda>s. ret (s @ newline))"

section \<open>The frontend's end\<close>

record ('t, 'h) endpoint =
  ep_trans :: 't
  ep_handler :: 'h
  ep_ids :: ids
  ep_remotes :: "remote_id \<rightharpoonup> remote_state"
  ep_jobs :: "process_id \<rightharpoonup> process_state"
  ep_pipes :: "nat set"

record 's endpoint_handler =
  on_remote_ready :: "remote_id \<Rightarrow> remote_info \<Rightarrow> ('s, unit) eff"
  on_command_done :: "process_id \<Rightarrow> int \<Rightarrow> ('s, unit) eff"
  on_directory_listing :: "nat \<Rightarrow> string list \<Rightarrow> ('s, unit) eff"
  on_edit_request :: "nat \<Rightarrow> process_id \<Rightarrow> string \<Rightarrow> bytes \<Rightarrow> ('s, unit) eff"
  on_pipe :: "generic_pipe \<Rightarrow> pipe_message \<Rightarrow> ('s, unit) eff"

definition ep_new :: "'t \<Rightarrow> 'h \<Rightarrow> ('t, 'h) endpoint" where
  "ep_new t handler = \<lparr>ep_trans = t, ep_handler = handler, ep_ids = ids_new,
     ep_remotes = [RemoteId 0 \<mapsto> \<lparr>parent = None\<rparr>], ep_jobs = Map.empty, ep_pipes = {}\<rparr>"

definition ep_root :: remote_id where
  "ep_root = RemoteId 0"

definition ep_next :: "(('t, 'h) endpoint, nat) eff" where
  "ep_next = zoom ep_ids (\<lambda>i e. e\<lparr>ep_ids := i\<rparr>) ids_next"

definition ep_send :: "'t wire \<Rightarrow> remote_id \<Rightarrow> remote_request \<Rightarrow> (('t, 'h) endpoint, unit) eff" where
  "ep_send w remote message = bnd (ser_to_endpoint w remote message) (\<lambda>line.
     zoom ep_trans (\<lambda>t e. e\<lparr>ep_trans := t\<rparr>) (from_call (wire_send w line)))"

definition ep_connected :: "remote_id \<Rightarrow> (('t, 'h) endpoint, unit) eff" where
  "ep_connected remote = bnd (gets (\<lambda>e. ep_remotes e remote \<noteq> None))
     (ensure ''self.remotes.contains_key(&remote)'')"

definition ep_receive :: "('t, 'h) endpoint endpoint_handler \<Rightarrow> response \<Rightarrow>
    (('t, 'h) endpoint, unit) eff" where
  "ep_receive eh message = (case rs_message message of
     RsRemoteReady info \<Rightarrow> on_remote_ready eh (RemoteId (rs_remote_id message)) info
   | RsCommandDone k exit_code \<Rightarrow> on_command_done eh k exit_code
   | RsDirectoryListing k items \<Rightarrow> on_directory_listing eh k items
   | RsEditRequest command_id edit_id name data \<Rightarrow> on_edit_request eh edit_id command_id name data
   | RsPipe p \<Rightarrow>
       bnd (gets (\<lambda>e. env_id p \<in> ep_pipes e)) (\<lambda>known.
       thn (ensure ''self.pipes.contains(&pipe.id)'' known)
       (on_pipe eh (GenericPipe (env_id p)) (env_msg p))))"

definition ep_remote :: "'t wire \<Rightarrow> remote_id \<Rightarrow> command \<Rightarrow> (('t, 'h) endpoint, remote_id) eff" where
  "ep_remote w remote c =
     thn (ep_connected remote)
     (bnd ep_next (\<lambda>k.
     thn (ep_send w remote (RqBeginRemote k c))
     (bnd (gets (\<lambda>e. ep_remotes e (RemoteId k))) (\<lambda>old_state.
     thn (upd (\<lambda>e. e\<lparr>ep_remotes := (ep_remotes e)(RemoteId k \<mapsto> \<lparr>parent = Some remote\<rparr>)\<rparr>))
     (thn (ensure ''old_state.is_none()'' (old_state = None))
     (ret (RemoteId k)))))))"

definition ep_pipe :: "(('t, 'h) endpoint, read_pipe \<times> write_pipe) eff" where
  "ep_pipe = bnd ep_next (\<lambda>k.
     thn (upd (\<lambda>e. e\<lparr>ep_pipes := insert k (ep_pipes e)\<rparr>))
     (ret (ReadPipe k, WritePipe k)))"

definition ep_command :: "'t wire \<Rightarrow> remote_id \<Rightarrow> command \<Rightarrow> (process_id \<times> condition) list \<Rightarrow>
    write_pipes \<Rightarrow> (('t, 'h) endpoint, process_id) eff" where
  "ep_command w remote c block_for pipes =
     thn (ep_connected remote)
     (bnd ep_next (\<lambda>n.
     let k = ProcessId n;
         process = \<lparr>ap_id = k, ap_stdin = read_num (w_stdin pipes),
           ap_stdout = write_num (w_stdout pipes), ap_stderr = write_num (w_stderr pipes)\<rparr>
     in thn (ep_send w remote (RqBeginCommand block_for process c))
     (thn (upd (\<lambda>e. e\<lparr>ep_jobs := (ep_jobs e)(k \<mapsto> \<lparr>ps_parent = remote\<rparr>)\<rparr>))
     (ret k))))"

definition ep_open_output_file :: "'t wire \<Rightarrow> remote_id \<Rightarrow> string \<Rightarrow>
    (('t, 'h) endpoint, write_pipe) eff" where
  "ep_open_output_file w remote path =
     thn (ep_connected remote)
     (bnd ep_next (\<lambda>k.
     thn (upd (\<lambda>e. e\<lparr>ep_pipes := insert k (ep_pipes e)\<rparr>))
     (thn (ep_send w remote (RqOpenOutputFile k path))
     (ret (WritePipe k)))))"

definition ep_open_input_file :: "'t wire \<Rightarrow> remote_id \<Rightarrow> string \<Rightarrow>
    (('t, 'h) endpoint, read_pipe) eff" where
  "ep_open_input_file w remote path =
     thn (ep_connected remote)
     (bnd ep_next (\<lambda>k.
     thn (upd (\<lambda>e. e\<lparr>ep_pipes := insert k (ep_pipes e)\<rparr>))
     (thn (ep_send w remote (RqOpenInputFile k path))
     (ret (ReadPipe k)))))"

definition ep_close_remote :: "'t wire \<Rightarrow> remote_id \<Rightarrow> (('t, 'h) endpoint, unit) eff" where
  "ep_close_remote w remote = bnd (gets (\<lambda>e. ep_remotes e remote)) (\<lambda>old.
     thn (upd (\<lambda>e. e\<lparr>ep_remotes := (ep_remotes e)(remote := None)\<rparr>))
     (bnd (expect ''remote not connected'' old) (\<lambda>state.
     bnd (expect ''closing root remote'' (parent state)) (\<lambda>p.
     ep_send w p (RqEndRemote (rid_num remote))))))"

definition ep_close_process :: "'t wire \<Rightarrow> process_id \<Rightarrow> (('t, 'h) endpoint, unit) eff" where
  "ep_close_process w k = bnd (gets (\<lambda>e. ep_jobs e k)) (\<lambda>old.
     thn (upd (\<lambda>e. e\<lparr>ep_jobs := (ep_jobs e)(k := None)\<rparr>))
     (bnd (expect ''process not running'' old) (\<lambda>process_state.
     thn (ep_connected (ps_parent process_state))
     (ep_send w (ps_parent process_state) (RqCancelCommand k)))))"

definition ep_finish_edit :: "'t wire \<Rightarrow> process_id \<Rightarrow> nat \<Rightarrow> bytes \<Rightarrow> (('t, 'h) endpoint, unit) eff" where
  "ep_finish_edit w command_id edit_id data = bnd (gets (\<lambda>e. ep_jobs e command_id)) (\<lambda>old.
     bnd (expect ''process not running'' old) (\<lambda>process_state.
     thn (ep_connected (ps_parent process_state))
     (ep_send w (ps_parent process_state) (RqFinishEdit edit_id data))))"

definition ep_pipe_read :: "'t wire \<Rightarrow> remote_id \<Rightarrow> read_pipe \<Rightarrow> u64 \<Rightarrow> (('t, 'h) endpoint, unit) eff" where
  "ep_pipe_read w remote k read_up_to =
     ep_send w remote (RqPipe \<lparr>env_id = read_num k, env_msg = Read read_up_to\<rparr>)"

definition ep_pipe_begin_read :: "'t wire \<Rightarrow> remote_id \<Rightarrow> read_pipe \<Rightarrow> (('t, 'h) endpoint, unit) eff" where
  "ep_pipe_begin_read w remote k =
     ep_send w remote (RqPipe \<lparr>env_id = read_num k, env_msg = BeginRead\<rparr>)"

section \<open>The backend's end\<close>

record 's backend_handler =
  do_begin_command :: "(process_id \<times> condition) list \<Rightarrow> write_process \<Rightarrow> command \<Rightarrow> ('s, unit) eff"
  do_cancel_command :: "process_id \<Rightarrow> ('s, unit) eff"
  do_begin_remote :: "nat \<Rightarrow> command \<Rightarrow> ('s, unit) eff"
  do_open_output_file :: "write_pipe \<Rightarrow> string \<Rightarrow> ('s, unit) eff"
  do_open_input_file :: "read_pipe \<Rightarrow> string \<Rightarrow> ('s, unit) eff"
  do_end_remote :: "nat \<Rightarrow> ('s, unit) eff"
  do_list_directory :: "nat \<Rightarrow> string \<Rightarrow> ('s, unit) eff"
  do_finish_edit :: "nat \<Rightarrow> bytes \<Rightarrow> ('s, unit) eff"
  do_pipe :: "generic_pipe \<Rightarrow> pipe_message \<Rightarrow> ('s, unit) eff"

definition request_route :: "'s backend_handler \<Rightarrow> request \<Rightarrow> ('s, unit) eff" where
  "request_route eh r = (case rq_message r of
     RqBeginCommand block_for p c \<Rightarrow>
       do_begin_command eh block_for \<lparr>wp_id = ap_id p, wp_pipes = \<lparr>w_stdin = ReadPipe (ap_stdin p),
         w_stdout = WritePipe (ap_stdout p), w_stderr = WritePipe (ap_stderr p)\<rparr>\<rparr> c
   | RqCancelCommand k \<Rightarrow> do_cancel_command eh k
   | RqBeginRemote k c \<Rightarrow> do_begin_remote eh k c
   | RqOpenOutputFile k path \<Rightarrow> do_open_output_file eh (WritePipe k) path
   | RqOpenInputFile k path \<Rightarrow> do_open_input_file eh (ReadPipe k) path
   | RqEndRemote k \<Rightarrow> do_end_remote eh k
   | RqListDirectory k path \<Rightarrow> do_list_directory eh k path
   | RqFinishEdit k data \<Rightarrow> do_finish_edit eh k data
   | RqPipe p \<Rightarrow> do_pipe eh (GenericPipe (env_id p)) (env_msg p))"

record 't backend =
  bk_trans :: 't

definition bk_new :: "'t \<Rightarrow> 't backend" where
  "bk_new t = \<lparr>bk_trans = t\<rparr>"

definition bk_send :: "'t wire \<Rightarrow> remote_response \<Rightarrow> ('t backend, unit) eff" where
  "bk_send w message = bnd (ser_to_frontend w (RemoteId 0) message) (\<lambda>line.
     zoom bk_trans (\<lambda>t b. b\<lparr>bk_trans := t\<rparr>) (from_call (wire_send w line)))"

definition bk_remote_ready :: "'t wire \<Rightarrow> remote_info \<Rightarrow> ('t backend, unit) eff" where
  "bk_remote_ready w info = bk_send w (RsRemoteReady info)"

definition bk_pipe_data :: "'t wire \<Rightarrow> write_pipe \<Rightarrow> bytes \<Rightarrow> u64 \<Rightarrow> ('t backend, unit) eff" where
  "bk_pipe_data w k data end_offset =
     bk_send w (RsPipe \<lparr>env_id = write_num k, env_msg = Data data end_offset\<rparr>)"

definition bk_pipe_closed :: "'t wire \<Rightarrow> write_pipe \<Rightarrow> u64 \<Rightarrow> ('t backend, unit) eff" where
  "bk_pipe_closed w k end_offset =
     bk_send w (RsPipe \<lparr>env_id = write_num k, env_msg = Closed end_offset\<rparr>)"

definition bk_command_done :: "'t wire \<Rightarrow> process_id \<Rightarrow> int \<Rightarrow> ('t backend, unit) eff" where
  "bk_command_done w k exit_code = bk_send w (RsCommandDone k exit_code)"

definition bk_directory_listing :: "'t wire \<Rightarrow> nat \<Rightarrow> string list \<Rightarrow> ('t backend, unit) eff" where
  "bk_directory_listing w k items = bk_send w (RsDirectoryListing k items)"

definition bk_edit_request :: "'t wire \<Rightarrow> process_id \<Rightarrow> nat \<Rightarrow> string \<Rightarrow> bytes \<Rightarrow>
    ('t backend, unit) eff" where
  "bk_edit_request w command_id edit_id name data =
     bk_send w (RsEditRequest command_id edit_id name data)"

section \<open>The bookkeeping of the frontend's end\<close>

lemma wp_ep_send [wp_simps]:
  "wp (ep_send w r m) Q E P e =
    (case request_string w \<lparr>rq_remote_id = rid_num r, rq_message = m\<rparr> of
       None \<Rightarrow> P ''unwrap'' e
     | Some s \<Rightarrow> (case wire_send w (s @ newline) (ep_trans e) of
         (Inl x, t) \<Rightarrow> E x (e\<lparr>ep_trans := t\<rparr>)
       | (Inr _, t) \<Rightarrow> Q () (e\<lparr>ep_trans := t\<rparr>)))"
  by (simp add: ep_send_def ser_to_endpoint_def wp_simps split: option.split)

lemma wp_ep_next [wp_simps]:
  "wp ep_next Q E P e =
     Q (next_id (ep_ids e)) (e\<lparr>ep_ids := (ep_ids e)\<lparr>next_id := next_id (ep_ids e) + 1\<rparr>\<rparr>)"
  by (simp add: ep_next_def wp_simps)

lemma wp_ep_connected [wp_simps]:
  "wp (ep_connected r) Q E P e =
     (if ep_remotes e r \<noteq> None then Q () e else P ''self.remotes.contains_key(&remote)'' e)"
  by (simp add: ep_connected_def wp_simps)

lemma wp_bk_send [wp_simps]:
  "wp (bk_send w m) Q E P b =
    (case response_string w \<lparr>rs_remote_id = 0, rs_message = m\<rparr> of
       None \<Rightarrow> P ''unwrap'' b
     | Some s \<Rightarrow> (case wire_send w (s @ newline) (bk_trans b) of
         (Inl x, t) \<Rightarrow> E x (b\<lparr>bk_trans := t\<rparr>)
       | (Inr _, t) \<Rightarrow> Q () (b\<lparr>bk_trans := t\<rparr>)))"
  by (simp add: bk_send_def ser_to_frontend_def wp_simps split: option.split)

definition ep_issued :: "('t, 'h) endpoint \<Rightarrow> nat set" where
  "ep_issued e = {..<next_id (ep_ids e)}"

interpretation ep_source: id_source ep_next ep_issued
  by unfold_locales (auto simp: ep_issued_def wp_simps)

text \<open>
  Every number in use was drawn from the counter and stands for one thing only: a remote, a
  process or a pipe. The root is connected and has no parent; every other remote has one.
\<close>

definition ep_inv :: "('t, 'h) endpoint \<Rightarrow> bool" where
  "ep_inv e \<longleftrightarrow> (\<forall>n \<ge> next_id (ep_ids e). n \<notin> ep_pipes e \<and> ep_jobs e (ProcessId n) = None \<and>
       (n \<noteq> 0 \<longrightarrow> ep_remotes e (RemoteId n) = None)) \<and>
     (\<forall>n \<in> ep_pipes e. ep_jobs e (ProcessId n) = None) \<and>
     (\<forall>n. n \<noteq> 0 \<longrightarrow> ep_remotes e (RemoteId n) \<noteq> None \<longrightarrow>
       n \<notin> ep_pipes e \<and> ep_jobs e (ProcessId n) = None) \<and>
     ep_remotes e ep_root = Some \<lparr>parent = None\<rparr> \<and>
     (\<forall>r st. r \<noteq> ep_root \<longrightarrow> ep_remotes e r = Some st \<longrightarrow> parent st \<noteq> None)"

lemma ep_inv_new: "ep_inv (ep_new t h)"
  by (simp add: ep_inv_def ep_new_def ids_new_def ep_root_def)

lemma ep_inv_frame [simp]:
  "ep_inv (e\<lparr>ep_trans := t\<rparr>) = ep_inv e" "ep_inv (e\<lparr>ep_handler := h\<rparr>) = ep_inv e"
  by (simp_all add: ep_inv_def)

lemma ep_inv_draw: "ep_inv e \<Longrightarrow> ep_inv (e\<lparr>ep_ids := (ep_ids e)\<lparr>next_id := next_id (ep_ids e) + 1\<rparr>\<rparr>)"
  by (simp add: ep_inv_def)

lemma ep_inv_pipe:
  "ep_inv e \<Longrightarrow> ep_inv (e\<lparr>ep_ids := (ep_ids e)\<lparr>next_id := Suc (next_id (ep_ids e))\<rparr>,
     ep_pipes := insert (next_id (ep_ids e)) (ep_pipes e)\<rparr>)"
  unfolding ep_inv_def by (auto simp: not_less_eq_eq)

lemma ep_inv_job:
  "ep_inv e \<Longrightarrow> ep_inv (e\<lparr>ep_ids := (ep_ids e)\<lparr>next_id := Suc (next_id (ep_ids e))\<rparr>, ep_trans := t,
     ep_jobs := (ep_jobs e)(ProcessId (next_id (ep_ids e)) \<mapsto> j)\<rparr>)"
  unfolding ep_inv_def by auto

lemma ep_inv_remote:
  "ep_inv e \<Longrightarrow> ep_remotes e (RemoteId (next_id (ep_ids e))) = None \<Longrightarrow>
   ep_inv (e\<lparr>ep_ids := (ep_ids e)\<lparr>next_id := Suc (next_id (ep_ids e))\<rparr>, ep_trans := t,
     ep_remotes := (ep_remotes e)(RemoteId (next_id (ep_ids e)) \<mapsto> \<lparr>parent = Some r\<rparr>)\<rparr>)"
  by (cases "next_id (ep_ids e) = 0") (auto simp: ep_inv_def ep_root_def)

lemma ep_inv_drop_job: "ep_inv e \<Longrightarrow> ep_inv (e\<lparr>ep_jobs := (ep_jobs e)(p := None)\<rparr>)"
  unfolding ep_inv_def by auto

lemma ep_inv_drop_remote: "ep_inv e \<Longrightarrow> r \<noteq> ep_root \<Longrightarrow> ep_inv (e\<lparr>ep_remotes := (ep_remotes e)(r := None)\<rparr>)"
  unfolding ep_inv_def by auto

text \<open>
  The interface of an operation of the endpoint: unless it panics it keeps the invariant, also
  when the transport fails, and no number is ever given back.
\<close>

definition ep_kept :: "('t, 'h) endpoint \<Rightarrow> ('t, 'h) endpoint \<Rightarrow> bool" where
  "ep_kept e e' \<longleftrightarrow> (ep_inv e \<longrightarrow> ep_inv e') \<and> ep_issued e \<subseteq> ep_issued e'"

locale endpoint_op =
  fixes m :: "(('t, 'h) endpoint, 'a) eff"
  assumes op: "ep_inv e \<Longrightarrow> wp m (\<lambda>_. ep_kept e) (\<lambda>_. ep_kept e) (\<lambda>_ _. True) e"
begin

lemma keeps:
  "ep_inv e \<Longrightarrow> m e = (r, e') \<Longrightarrow> \<forall>p. r \<noteq> Panic p \<Longrightarrow> ep_inv e' \<and> ep_issued e \<subseteq> ep_issued e'"
  using op [of e] by (cases r) (auto simp: wp_def ep_kept_def)

end

lemma ep_kept_frame [simp]:
  "ep_kept e e" "ep_kept e (e'\<lparr>ep_trans := t\<rparr>) = ep_kept e e'"
  by (simp_all add: ep_kept_def ep_issued_def)

lemma ep_kept_draw:
  "ep_kept e (e\<lparr>ep_ids := (ep_ids e)\<lparr>next_id := Suc (next_id (ep_ids e))\<rparr>\<rparr>)"
  using ep_inv_draw [of e] by (auto simp: ep_kept_def ep_issued_def)

lemma ep_kept_pipe:
  "ep_kept e (e\<lparr>ep_ids := (ep_ids e)\<lparr>next_id := Suc (next_id (ep_ids e))\<rparr>,
     ep_pipes := insert (next_id (ep_ids e)) (ep_pipes e)\<rparr>)"
  using ep_inv_pipe [of e] by (auto simp: ep_kept_def ep_issued_def)

interpretation op_pipe: endpoint_op ep_pipe
  by unfold_locales (simp add: ep_pipe_def wp_simps ep_kept_pipe)

interpretation op_output: endpoint_op "ep_open_output_file w r path" for w r path
  by unfold_locales
    (simp add: ep_open_output_file_def wp_simps ep_kept_pipe split: option.split prod.split sum.split)

interpretation op_input: endpoint_op "ep_open_input_file w r path" for w r path
  by unfold_locales
    (simp add: ep_open_input_file_def wp_simps ep_kept_pipe split: option.split prod.split sum.split)

interpretation op_command: endpoint_op "ep_command w r c bf ps" for w r c bf ps
proof
  fix e :: "('a, 'b) endpoint"
  have "ep_kept e (e\<lparr>ep_ids := (ep_ids e)\<lparr>next_id := Suc (next_id (ep_ids e))\<rparr>, ep_trans := t,
     ep_jobs := (ep_jobs e)(ProcessId (next_id (ep_ids e)) \<mapsto> j)\<rparr>)" for t j
    using ep_inv_job [of e] by (auto simp: ep_kept_def ep_issued_def)
  then show "wp (ep_command w r c bf ps) (\<lambda>_. ep_kept e) (\<lambda>_. ep_kept e) (\<lambda>_ _. True) e"
    by (simp add: ep_command_def Let_def wp_simps ep_kept_draw split: option.split prod.split sum.split)
qed

interpretation op_remote: endpoint_op "ep_remote w r c" for w r c
proof
  fix e :: "('a, 'b) endpoint"
  have "ep_remotes e (RemoteId (next_id (ep_ids e))) = None \<Longrightarrow>
    ep_kept e (e\<lparr>ep_ids := (ep_ids e)\<lparr>next_id := Suc (next_id (ep_ids e))\<rparr>, ep_trans := t,
     ep_remotes := (ep_remotes e)(RemoteId (next_id (ep_ids e)) \<mapsto> \<lparr>parent = Some r\<rparr>)\<rparr>)" for t
    using ep_inv_remote [of e] by (auto simp: ep_kept_def ep_issued_def)
  then show "wp (ep_remote w r c) (\<lambda>_. ep_kept e) (\<lambda>_. ep_kept e) (\<lambda>_ _. True) e"
    by (simp add: ep_remote_def wp_simps ep_kept_draw split: option.split prod.split sum.split)
qed

interpretation op_close: endpoint_op "ep_close_remote w r" for w r
proof
  fix e :: "('a, 'b) endpoint"
  assume inv: "ep_inv e"
  show "wp (ep_close_remote w r) (\<lambda>_. ep_kept e) (\<lambda>_. ep_kept e) (\<lambda>_ _. True) e"
  proof (cases "r = ep_root")
    case True
    with inv show ?thesis by (simp add: ep_close_remote_def wp_simps ep_inv_def)
  next
    case False
    then have "ep_kept e (e\<lparr>ep_remotes := (ep_remotes e)(r := None)\<rparr>)"
      using ep_inv_drop_remote [of e r] by (simp add: ep_kept_def ep_issued_def)
    then show ?thesis
      by (simp add: ep_close_remote_def wp_simps split: option.split prod.split sum.split)
  qed
qed

interpretation op_close_process: endpoint_op "ep_close_process w p" for w p
proof
  fix e :: "('a, 'b) endpoint"
  have "ep_kept e (e\<lparr>ep_jobs := (ep_jobs e)(p := None)\<rparr>)"
    using ep_inv_drop_job [of e p] by (simp add: ep_kept_def ep_issued_def)
  then show "wp (ep_close_process w p) (\<lambda>_. ep_kept e) (\<lambda>_. ep_kept e) (\<lambda>_ _. True) e"
    by (simp add: ep_close_process_def wp_simps split: option.split prod.split sum.split)
qed

interpretation op_finish_edit: endpoint_op "ep_finish_edit w p k data" for w p k data
  by unfold_locales
    (simp add: ep_finish_edit_def wp_simps split: option.split prod.split sum.split)

interpretation op_send: endpoint_op "ep_send w r m" for w r m
  by unfold_locales (simp add: wp_simps split: option.split prod.split sum.split)

section \<open>Properties\<close>

text \<open>The states an endpoint reaches, whatever its user calls and whatever the transport answers.\<close>

definition survives :: "'a outcome \<Rightarrow> bool" where
  "survives r \<longleftrightarrow> (\<forall>p. r \<noteq> Panic p)"

inductive ep_reach :: "'t wire \<Rightarrow> ('t, 'h) endpoint \<Rightarrow> bool" for w :: "'t wire" where
  reach_new: "ep_reach w (ep_new t h)"
| reach_handler: "ep_reach w e \<Longrightarrow> ep_reach w (e\<lparr>ep_handler := h\<rparr>)"
| reach_pipe: "ep_reach w e \<Longrightarrow> ep_pipe e = (r, e') \<Longrightarrow> ep_reach w e'"
| reach_remote: "ep_reach w e \<Longrightarrow> ep_remote w q c e = (r, e') \<Longrightarrow> survives r \<Longrightarrow> ep_reach w e'"
| reach_command: "ep_reach w e \<Longrightarrow> ep_command w q c bf ps e = (r, e') \<Longrightarrow> survives r \<Longrightarrow> ep_reach w e'"
| reach_output: "ep_reach w e \<Longrightarrow> ep_open_output_file w q f e = (r, e') \<Longrightarrow> survives r \<Longrightarrow> ep_reach w e'"
| reach_input: "ep_reach w e \<Longrightarrow> ep_open_input_file w q f e = (r, e') \<Longrightarrow> survives r \<Longrightarrow> ep_reach w e'"
| reach_close: "ep_reach w e \<Longrightarrow> ep_close_remote w q e = (r, e') \<Longrightarrow> survives r \<Longrightarrow> ep_reach w e'"
| reach_close_process: "ep_reach w e \<Longrightarrow> ep_close_process w p e = (r, e') \<Longrightarrow> survives r \<Longrightarrow> ep_reach w e'"
| reach_finish_edit: "ep_reach w e \<Longrightarrow> ep_finish_edit w p k data e = (r, e') \<Longrightarrow> survives r \<Longrightarrow> ep_reach w e'"
| reach_read: "ep_reach w e \<Longrightarrow> ep_pipe_read w q i n e = (r, e') \<Longrightarrow> survives r \<Longrightarrow> ep_reach w e'"
| reach_begin_read: "ep_reach w e \<Longrightarrow> ep_pipe_begin_read w q i e = (r, e') \<Longrightarrow> survives r \<Longrightarrow> ep_reach w e'"

lemma ep_reach_inv: "ep_reach w e \<Longrightarrow> ep_inv e"
proof (induction rule: ep_reach.induct)
  case (reach_pipe e r e')
  have "\<forall>p. r \<noteq> Panic p" using reach_pipe by (auto simp: ep_pipe_def ep_next_def ids_next_def eff_defs)
  with op_pipe.keeps reach_pipe show ?case by blast
qed (auto simp: ep_inv_new survives_def ep_pipe_read_def ep_pipe_begin_read_def
    dest: op_remote.keeps op_command.keeps op_output.keeps op_input.keeps op_close.keeps
      op_close_process.keeps op_finish_edit.keeps op_send.keeps)

text \<open>
  C17: A number names one thing. Whatever the frontend calls and whether or not the transport
  fails, no number is both a pipe and a process, or a remote other than the root and one of
  them; nothing in use is at or above the counter, so every number still to be drawn is new;
  and the root stays connected.
\<close>

theorem endpoint_numbers_unique:
  assumes "ep_reach w e"
  shows "ep_issued e = {..<next_id (ep_ids e)} \<and> ep_pipes e \<subseteq> ep_issued e \<and>
     (\<forall>p. ep_jobs e p \<noteq> None \<longrightarrow> pid_num p \<in> ep_issued e - ep_pipes e) \<and>
     (\<forall>r. r \<noteq> ep_root \<longrightarrow> ep_remotes e r \<noteq> None \<longrightarrow>
       rid_num r \<in> ep_issued e - ep_pipes e \<and> ep_jobs e (ProcessId (rid_num r)) = None) \<and>
     ep_remotes e ep_root = Some \<lparr>parent = None\<rparr>"
proof -
  from ep_reach_inv [OF assms] have inv: "ep_inv e" .
  have below: "n < next_id (ep_ids e)"
    if "n \<in> ep_pipes e \<or> ep_jobs e (ProcessId n) \<noteq> None \<or> n \<noteq> 0 \<and> ep_remotes e (RemoteId n) \<noteq> None" for n
    using inv that unfolding ep_inv_def by (metis not_le)
  have "pid_num p \<in> ep_issued e - ep_pipes e" if "ep_jobs e p \<noteq> None" for p
    using inv that below [of "pid_num p"] by (cases p) (auto simp: ep_inv_def ep_issued_def)
  moreover have "rid_num r \<in> ep_issued e - ep_pipes e \<and> ep_jobs e (ProcessId (rid_num r)) = None"
    if "r \<noteq> ep_root" "ep_remotes e r \<noteq> None" for r
    using inv that below [of "rid_num r"] by (cases r) (auto simp: ep_inv_def ep_issued_def ep_root_def)
  ultimately show ?thesis
    using inv below by (auto simp: ep_inv_def ep_issued_def)
qed

text \<open>
  C37: Connecting to another remote works with any number but the first. \<open>remote\<close> draws a number, sends
  its parent the request to begin that remote, connects it under its parent and answers it, and
  changes nothing else. But the root is numbered 0 and the counter starts at 0, so on an endpoint
  that has drawn no number yet it has then overwritten the root, and fails its assertion.
\<close>

theorem remote_unless_first:
  assumes "ep_reach w e" and "ep_remotes e r \<noteq> None" and "n = next_id (ep_ids e)"
    and "request_string w \<lparr>rq_remote_id = rid_num r, rq_message = RqBeginRemote n c\<rparr> = Some s"
    and "wire_send w (s @ newline) (ep_trans e) = (Inr (), t)"
  shows "ep_remote w r c e =
    (if n = 0 then Panic ''old_state.is_none()'' else Ok (RemoteId n),
     e\<lparr>ep_trans := t, ep_ids := \<lparr>next_id = Suc n\<rparr>, ep_remotes := (ep_remotes e)(RemoteId n \<mapsto> \<lparr>parent = Some r\<rparr>)\<rparr>)"
proof -
  from ep_reach_inv [OF assms(1)] have "ep_inv e" .
  then show ?thesis
    using assms(2-5)
    by (auto simp: ep_remote_def ep_send_def ser_to_endpoint_def ep_connected_def ep_next_def
        ids_next_def ep_inv_def ep_root_def eff_defs)
qed

text \<open>
  Closing the root removes it and panics; from then on the endpoint can start nothing on it.
\<close>

lemma close_root_panics:
  assumes "ep_reach w e"
  shows "ep_close_remote w ep_root e =
    (Panic ''closing root remote'', e\<lparr>ep_remotes := (ep_remotes e)(ep_root := None)\<rparr>)"
  using ep_reach_inv [OF assms] by (simp add: ep_close_remote_def ep_inv_def eff_defs)

section \<open>A concrete endpoint\<close>

text \<open>A transport that keeps the lines, and a printer that only tells the kinds of messages apart.\<close>

definition kind_of :: "request \<Rightarrow> bytes" where
  "kind_of r = (case rq_message r of
     RqBeginRemote _ _ \<Rightarrow> ''begin_remote'' | RqBeginCommand _ _ _ \<Rightarrow> ''begin_command'' | _ \<Rightarrow> ''other'')"

definition log_wire :: "bytes list wire" where
  "log_wire = \<lparr>wire_send = (\<lambda>line log. (Inr (), log @ [line])),
     request_string = (\<lambda>r. Some (kind_of r)), response_string = (\<lambda>r. Some ''response'')\<rparr>"

definition fresh_endpoint :: "(bytes list, unit) endpoint" where
  "fresh_endpoint = ep_new [] ()"

lemma fresh_endpoint_reach: "ep_reach log_wire fresh_endpoint"
  unfolding fresh_endpoint_def by (rule reach_new)

text \<open>The same endpoint after a pipe has been made and a command started on the root.\<close>

definition piped_endpoint :: "(bytes list, unit) endpoint" where
  "piped_endpoint = snd (ep_pipe fresh_endpoint)"

definition busy_endpoint :: "(bytes list, unit) endpoint" where
  "busy_endpoint = snd (ep_command log_wire ep_root GetDirectory []
     \<lparr>w_stdin = ReadPipe 0, w_stdout = WritePipe 0, w_stderr = WritePipe 0\<rparr> piped_endpoint)"

lemmas demo_endpoint_defs = fresh_endpoint_def piped_endpoint_def busy_endpoint_def ep_new_def ids_new_def
  ep_root_def log_wire_def kind_of_def ep_pipe_def ep_command_def Let_def ep_connected_def ep_send_def
  ser_to_endpoint_def ep_next_def ids_next_def

lemma busy_endpoint_reach: "ep_reach log_wire busy_endpoint"
proof -
  have "ep_reach log_wire piped_endpoint"
    unfolding piped_endpoint_def by (rule reach_pipe [OF fresh_endpoint_reach surjective_pairing])
  moreover have "survives (fst (ep_command log_wire ep_root GetDirectory []
     \<lparr>w_stdin = ReadPipe 0, w_stdout = WritePipe 0, w_stderr = WritePipe 0\<rparr> piped_endpoint))"
    by (simp add: survives_def demo_endpoint_defs eff_defs)
  ultimately show ?thesis
    unfolding busy_endpoint_def by (rule reach_command [OF _ surjective_pairing])
qed

lemma endpoint_numbers_unique_witness:
  "ep_pipes busy_endpoint = {0} \<and> 1 \<in> ep_issued busy_endpoint - ep_pipes busy_endpoint \<and>
   ep_remotes busy_endpoint ep_root = Some \<lparr>parent = None\<rparr>"
proof -
  note all = endpoint_numbers_unique [OF busy_endpoint_reach]
  have "ep_jobs busy_endpoint (ProcessId 1) \<noteq> None" "ep_pipes busy_endpoint = {0}"
    by (simp_all add: demo_endpoint_defs eff_defs)
  with all show ?thesis by force
qed

lemma remote_unless_first_witness:
  "ep_remote log_wire ep_root (Unknown ''ssh'' []) fresh_endpoint =
    (if (0 :: nat) = 0 then Panic ''old_state.is_none()'' else Ok (RemoteId 0),
     fresh_endpoint\<lparr>ep_trans := [''begin_remote'' @ newline], ep_ids := \<lparr>next_id = Suc 0\<rparr>,
       ep_remotes := (ep_remotes fresh_endpoint)(RemoteId 0 \<mapsto> \<lparr>parent = Some ep_root\<rparr>)\<rparr>) \<and>
   ep_remote log_wire ep_root (Unknown ''ssh'' []) busy_endpoint =
    (if (2 :: nat) = 0 then Panic ''old_state.is_none()'' else Ok (RemoteId 2),
     busy_endpoint\<lparr>ep_trans := ep_trans busy_endpoint @ [''begin_remote'' @ newline], ep_ids := \<lparr>next_id = Suc 2\<rparr>,
       ep_remotes := (ep_remotes busy_endpoint)(RemoteId 2 \<mapsto> \<lparr>parent = Some ep_root\<rparr>)\<rparr>)"
  by (intro conjI; rule remote_unless_first [where s = "''begin_remote''"])
    (simp_all add: fresh_endpoint_reach busy_endpoint_reach, simp_all add: demo_endpoint_defs eff_defs)

lemma close_root_panics_witness:
  "ep_close_remote log_wire ep_root fresh_endpoint =
    (Panic ''closing root remote'', fresh_endpoint\<lparr>ep_remotes := (ep_remotes fresh_endpoint)(ep_root := None)\<rparr>)"
  by (rule close_root_panics [OF fresh_endpoint_reach])

end
