(* ===== verification/Exec.thy ===== *)
theory Exec
  imports Scheduler Endpoint Rust_String
begin

text \<open>
  \<open>backend/src/exec.rs\<close>: the executor, one thread that handles events from a channel. It runs
  what the scheduler releases, owns the pipe ends that are not in use yet, and reports to a
  \<open>Handler\<close>. The operating system is a parameter (the record \<open>os\<close>) with a state of its own;
  the threads the code spawns are kept as a list, and what a thread later sends to the channel
  is a function of what the operating system tells it.
\<close>

section \<open>State\<close>

record run_cmd =
  rc_cmd :: command
  rc_pipes :: write_pipes

datatype process_st =
    PsRunning nat
  | AwaitingEdit

datatype run_result =
    RunProcess process_st
  | AlreadyDone int

text \<open>A file, a pipe end or a child process is a number the operating system gave out.\<close>

datatype output_pipe = OutputPipe (out_handle: nat)

datatype input_pipe = InputPipe (in_handle: nat)

definition output_from_pipe :: "nat \<Rightarrow> output_pipe" where
  "output_from_pipe pipe = OutputPipe pipe"

definition output_from_file :: "nat \<Rightarrow> output_pipe" where
  "output_from_file file = OutputPipe file"

definition input_from_pipe :: "nat \<Rightarrow> input_pipe" where
  "input_from_pipe pipe = InputPipe pipe"

definition input_from_file :: "nat \<Rightarrow> input_pipe" where
  "input_from_file file = InputPipe file"

text \<open>\<open>std::process::Command\<close> as the code fills it in.\<close>

record os_command =
  program :: string
  arguments :: "string list"
  cmd_stdin :: "nat option"
  cmd_stdout :: "nat option"
  cmd_stderr :: "nat option"

definition os_command_new :: "string \<Rightarrow> string list \<Rightarrow> os_command" where
  "os_command_new path args = \<lparr>program = path, arguments = args, cmd_stdin = None,
     cmd_stdout = None, cmd_stderr = None\<rparr>"

definition assign_stdin :: "input_pipe \<Rightarrow> os_command \<Rightarrow> os_command" where
  "assign_stdin p c = c\<lparr>cmd_stdin := Some (in_handle p)\<rparr>"

definition assign_stdout :: "output_pipe \<Rightarrow> os_command \<Rightarrow> os_command" where
  "assign_stdout p c = c\<lparr>cmd_stdout := Some (out_handle p)\<rparr>"

definition assign_stderr :: "output_pipe \<Rightarrow> os_command \<Rightarrow> os_command" where
  "assign_stderr p c = c\<lparr>cmd_stderr := Some (out_handle p)\<rparr>"

record 'w os =
  os_pipe :: "('w, nat \<times> nat) call"
  os_spawn :: "os_command \<Rightarrow> ('w, nat) call"
  os_kill :: "nat \<Rightarrow> ('w, unit) call"
  os_wait :: "nat \<Rightarrow> ('w, int option) call"
  os_set_dir :: "string \<Rightarrow> ('w, unit) call"
  os_cur_dir :: "('w, string) call"
  os_create :: "string \<Rightarrow> ('w, nat) call"
  os_open :: "string \<Rightarrow> ('w, nat) call"
  os_read_to_end :: "nat \<Rightarrow> ('w, bytes) call"
  os_write_all :: "nat \<Rightarrow> bytes \<Rightarrow> ('w, unit) call"
  os_write :: "nat \<Rightarrow> bytes \<Rightarrow> ('w, unit) call"
  os_read_line :: "nat \<Rightarrow> ('w, bytes) call"
  os_read_dir :: "string \<Rightarrow> ('w, string list) call"
  os_not_found :: "error \<Rightarrow> bool"
  os_debug :: "error \<Rightarrow> bytes"

datatype exec_event =
    EvEnqueue process_id run_cmd "(process_id \<times> condition) list"
  | EvCompleted process_id int
  | EvOpenOutputFile write_pipe string
  | EvOpenInputFile read_pipe string
  | EvCancelExec process_id
  | EvPipeClosed generic_pipe u64
  | EvPipeOutput generic_pipe bytes u64
  | EvPipeMessage generic_pipe pipe_message
  | EvEditComplete nat bytes

record handle_pair =
  pair_read :: "input_pipe option"
  pair_write :: "output_pipe option"

text \<open>
  The threads: one waits for a child, one copies a pipe to the channel, one writes a builtin's
  output. The first is before the child's mutex, waits with the mutex locked, or has only its event
  left to send.
\<close>

datatype thread =
    Waiter process_id nat
  | Waiting process_id nat
  | Ended process_id "int option"
  | Reader generic_pipe nat
  | Writer write_pipe nat bytes

definition waiter_event :: "process_id \<Rightarrow> int option \<Rightarrow> exec_event" where
  "waiter_event pid exit_code = EvCompleted pid (case exit_code of Some c \<Rightarrow> c | None \<Rightarrow> -1)"

text \<open>
  The thread that reads a pipe, on what its reads answer one after another: what it sends, and how
  it ends. A read that answers no byte is the end of the pipe; without a further answer it waits.
\<close>

fun reader_thread :: "generic_pipe \<Rightarrow> (error + bytes) list \<Rightarrow> exec_event list \<times> unit outcome" where
  "reader_thread pipe [] = ([], Diverge)"
| "reader_thread pipe (Inl e # reads) = ([], Panic e)"
| "reader_thread pipe (Inr data # reads) =
     (if length data = 0 then ([EvPipeClosed pipe 0], Ok ())
      else case reader_thread pipe reads of (evs, r) \<Rightarrow> (EvPipeOutput pipe data 0 # evs, r))"

text \<open>What it sends when it reads these chunks and then the end.\<close>

definition reader_events :: "generic_pipe \<Rightarrow> bytes list \<Rightarrow> exec_event list" where
  "reader_events pipe chunks = map (\<lambda>data. EvPipeOutput pipe data 0) chunks @ [EvPipeClosed pipe 0]"

lemma reader_thread_events:
  "[] \<notin> set chunks \<Longrightarrow> reader_thread pipe (map Inr chunks @ [Inr []]) = (reader_events pipe chunks, Ok ())"
  by (induction chunks) (auto simp: reader_events_def)

record 'h exec_handler =
  h_pipe_output :: "generic_pipe \<Rightarrow> bytes \<Rightarrow> u64 \<Rightarrow> ('h, unit) eff"
  h_pipe_closed :: "generic_pipe \<Rightarrow> u64 \<Rightarrow> ('h, unit) eff"
  h_command_result :: "process_id \<Rightarrow> int \<Rightarrow> ('h, unit) eff"
  h_edit_request :: "process_id \<Rightarrow> nat \<Rightarrow> string \<Rightarrow> bytes \<Rightarrow> ('h, unit) eff"

record ('w, 'h) exec =
  edit_ids :: ids
  ex_handler :: 'h
  ex_machine :: "(process_id, run_cmd, process_st) machine"
  open_handles :: "generic_pipe \<rightharpoonup> handle_pair"
  actively_reading :: "generic_pipe \<rightharpoonup> thread"
  waiting_edits :: "nat \<rightharpoonup> process_id \<times> string"
  ex_threads :: "thread list"
  ex_locked :: "nat set"
  ex_world :: 'w

definition exec_new :: "'h \<Rightarrow> 'w \<Rightarrow> ('w, 'h) exec" where
  "exec_new h w = \<lparr>edit_ids = ids_new, ex_handler = h, ex_machine = machine_new,
     open_handles = Map.empty, actively_reading = Map.empty, waiting_edits = Map.empty,
     ex_threads = [], ex_locked = {}, ex_world = w\<rparr>"

definition on_os :: "('w, 'a) call \<Rightarrow> (('w, 'h) exec, 'a) eff" where
  "on_os c = zoom ex_world (\<lambda>w s. s\<lparr>ex_world := w\<rparr>) (from_call c)"

definition on_handler :: "('h, 'a) eff \<Rightarrow> (('w, 'h) exec, 'a) eff" where
  "on_handler m = zoom ex_handler (\<lambda>h s. s\<lparr>ex_handler := h\<rparr>) m"

definition on_machine :: "((process_id, run_cmd, process_st) machine, 'a) eff \<Rightarrow> (('w, 'h) exec, 'a) eff" where
  "on_machine m = zoom ex_machine (\<lambda>t s. s\<lparr>ex_machine := t\<rparr>) m"

definition spawn_thread :: "thread \<Rightarrow> (('w, 'h) exec, unit) eff" where
  "spawn_thread t = upd (\<lambda>s. s\<lparr>ex_threads := ex_threads s @ [t]\<rparr>)"

section \<open>Pipe ends\<close>

definition put_pair :: "generic_pipe \<Rightarrow> handle_pair \<Rightarrow> (('w, 'h) exec, unit) eff" where
  "put_pair g p = upd (\<lambda>s. s\<lparr>open_handles := (open_handles s)(g \<mapsto> p)\<rparr>)"

definition read_end :: "'w os \<Rightarrow> read_pipe \<Rightarrow> (('w, 'h) exec, input_pipe) eff" where
  "read_end os p = bnd (gets (\<lambda>s. open_handles s (read_to_generic p))) (\<lambda>entry. case entry of
     Some handle \<Rightarrow>
       thn (put_pair (read_to_generic p) (handle\<lparr>pair_read := None\<rparr>))
       (expect ''read side taken'' (pair_read handle))
   | None \<Rightarrow> bnd (unwrap (on_os (os_pipe os))) (\<lambda>(r, w).
       thn (put_pair (read_to_generic p) \<lparr>pair_read = None, pair_write = Some (output_from_pipe w)\<rparr>)
       (ret (input_from_pipe r))))"

definition write_end :: "'w os \<Rightarrow> write_pipe \<Rightarrow> (('w, 'h) exec, output_pipe) eff" where
  "write_end os p = bnd (gets (\<lambda>s. open_handles s (write_to_generic p))) (\<lambda>entry. case entry of
     Some handle \<Rightarrow>
       thn (put_pair (write_to_generic p) (handle\<lparr>pair_write := None\<rparr>))
       (expect ''write side taken'' (pair_write handle))
   | None \<Rightarrow> bnd (unwrap (on_os (os_pipe os))) (\<lambda>(r, w).
       thn (put_pair (write_to_generic p) \<lparr>pair_read = Some (input_from_pipe r), pair_write = None\<rparr>)
       (ret (output_from_pipe w))))"

definition pipe_and_close :: "write_pipe \<Rightarrow> output_pipe \<Rightarrow> bytes \<Rightarrow> (('w, 'h) exec, unit) eff" where
  "pipe_and_close p handle data =
     (if length data > 0 then spawn_thread (Writer p (out_handle handle) data) else ret ())"

definition pipe_output_and_close :: "'w os \<Rightarrow> write_pipes \<Rightarrow> bytes \<Rightarrow> bytes \<Rightarrow> (('w, 'h) exec, unit) eff" where
  "pipe_output_and_close os ps stdout stderr =
     bnd (write_end os (w_stdout ps)) (\<lambda>o'.
     thn (pipe_and_close (w_stdout ps) o' stdout)
     (bnd (write_end os (w_stderr ps)) (\<lambda>e.
     pipe_and_close (w_stderr ps) e stderr)))"

definition exec_open_output_file :: "'w os \<Rightarrow> write_pipe \<Rightarrow> string \<Rightarrow> (('w, 'h) exec, unit) eff" where
  "exec_open_output_file os p path =
     bnd (gets (\<lambda>s. open_handles s (write_to_generic p))) (\<lambda>entry.
     thn (ensure ''!self.open_handles.contains_key(&pipe.to_generic())'' (entry = None))
     (bnd (on_os (os_create os path)) (\<lambda>file.
     put_pair (write_to_generic p) \<lparr>pair_read = None, pair_write = Some (output_from_file file)\<rparr>)))"

definition exec_open_input_file :: "'w os \<Rightarrow> read_pipe \<Rightarrow> string \<Rightarrow> (('w, 'h) exec, unit) eff" where
  "exec_open_input_file os p path =
     bnd (gets (\<lambda>s. open_handles s (read_to_generic p))) (\<lambda>entry.
     thn (ensure ''!self.open_handles.contains_key(&pipe.to_generic())'' (entry = None))
     (bnd (on_os (os_open os path)) (\<lambda>file.
     put_pair (read_to_generic p) \<lparr>pair_read = Some (input_from_file file), pair_write = None\<rparr>)))"

definition exec_pipe_message :: "'w os \<Rightarrow> generic_pipe \<Rightarrow> pipe_message \<Rightarrow> (('w, 'h) exec, unit) eff" where
  "exec_pipe_message os p msg = (case msg of
     BeginRead \<Rightarrow> bnd (read_end os (to_read p)) (\<lambda>handle.
       let reader = Reader p (in_handle handle) in
       thn (spawn_thread reader)
       (upd (\<lambda>s. s\<lparr>actively_reading := (actively_reading s)(p \<mapsto> reader)\<rparr>)))
   | Read _ \<Rightarrow> ret ()
   | Closed _ \<Rightarrow> panic ''explicit panic''
   | Data _ _ \<Rightarrow> panic ''explicit panic'')"

section \<open>Running commands\<close>

definition begin_edit_request :: "'h exec_handler \<Rightarrow> process_id \<Rightarrow> string \<Rightarrow> bytes \<Rightarrow>
    (('w, 'h) exec, unit) eff" where
  "begin_edit_request eh pid path data =
     bnd (zoom edit_ids (\<lambda>i s. s\<lparr>edit_ids := i\<rparr>) ids_next) (\<lambda>edit_id.
     thn (upd (\<lambda>s. s\<lparr>waiting_edits := (waiting_edits s)(edit_id \<mapsto> (pid, path))\<rparr>))
     (on_handler (h_edit_request eh pid edit_id path data)))"

definition run :: "'w os \<Rightarrow> 'h exec_handler \<Rightarrow> process_id \<Rightarrow> run_cmd \<Rightarrow> (('w, 'h) exec, run_result) eff" where
  "run os eh pid c = (case rc_cmd c of
     Unknown path args \<Rightarrow>
       bnd (read_end os (w_stdin (rc_pipes c))) (\<lambda>i.
       bnd (write_end os (w_stdout (rc_pipes c))) (\<lambda>o'.
       bnd (write_end os (w_stderr (rc_pipes c))) (\<lambda>e.
       bnd (on_os (os_spawn os
         (assign_stderr e (assign_stdout o' (assign_stdin i (os_command_new path args)))))) (\<lambda>handle.
       thn (spawn_thread (Waiter pid handle))
       (ret (RunProcess (PsRunning handle)))))))
   | SetDirectory dir \<Rightarrow> bnd (attempt (on_os (os_set_dir os dir))) (\<lambda>r. case r of
         Inr _ \<Rightarrow> thn (pipe_output_and_close os (rc_pipes c) ''Success: ()'' [])
           (ret (AlreadyDone 0))
       | Inl e \<Rightarrow> thn (pipe_output_and_close os (rc_pipes c) (''Error: '' @ os_debug os e) [])
           (ret (AlreadyDone 1)))
   | GetDirectory \<Rightarrow> bnd (attempt (on_os (os_cur_dir os))) (\<lambda>r. case r of
         Inr dir \<Rightarrow> thn (pipe_output_and_close os (rc_pipes c) (lossy dir @ newline) [])
           (ret (AlreadyDone 0))
       | Inl e \<Rightarrow> thn (pipe_output_and_close os (rc_pipes c) [] (''Error: '' @ os_debug os e))
           (ret (AlreadyDone 1)))
   | Edit path \<Rightarrow> bnd (attempt (on_os (os_open os path))) (\<lambda>r.
       bnd (case r of
           Inr f \<Rightarrow> on_os (os_read_to_end os f)
         | Inl e \<Rightarrow> if os_not_found os e then ret [] else fail e) (\<lambda>contents.
       thn (begin_edit_request eh pid path contents)
       (ret (RunProcess AwaitingEdit)))))"

definition run_task :: "'w os \<Rightarrow> 'h exec_handler \<Rightarrow> nat \<Rightarrow> (process_id, run_cmd) task \<Rightarrow>
    (('w, 'h) exec, (process_id, run_cmd) task list) eff" where
  "run_task os eh fuel t = (case t of
     Start pid c \<Rightarrow> bnd (attempt (run os eh pid c)) (\<lambda>r. case r of
         Inr (RunProcess state) \<Rightarrow> thn (on_machine (start pid state)) (ret [])
       | Inr (AlreadyDone exit_code) \<Rightarrow>
           bnd (on_machine (start_completed fuel pid (from_exit_code exit_code))) (\<lambda>new_tasks.
           thn (unwrap (on_handler (h_command_result eh pid 0)))
           (ret new_tasks))
       | Inl e \<Rightarrow>
           bnd (on_machine (start_completed fuel pid Failure)) (\<lambda>new_tasks.
           thn (pipe_output_and_close os (rc_pipes c) [] (os_debug os e))
           (thn (on_handler (h_command_result eh pid 1))
           (ret new_tasks))))
   | ConditionFailed pid _ \<Rightarrow> thn (unwrap (on_handler (h_command_result eh pid 1))) (ret []))"

primrec run_tasks :: "'w os \<Rightarrow> 'h exec_handler \<Rightarrow> nat \<Rightarrow> (process_id, run_cmd) task list \<Rightarrow>
    (process_id, run_cmd) task list \<Rightarrow> (('w, 'h) exec, (process_id, run_cmd) task list) eff" where
  "run_tasks os eh fuel [] new_tasks = ret new_tasks"
| "run_tasks os eh fuel (t # ts) new_tasks =
     bnd (run_task os eh fuel t) (\<lambda>more. run_tasks os eh fuel ts (new_tasks @ more))"

text \<open>The outer loop of \<open>process_tasks\<close>, at most as many rounds as the last fuel argument says.\<close>

primrec process_rounds :: "'w os \<Rightarrow> 'h exec_handler \<Rightarrow> nat \<Rightarrow> nat \<Rightarrow> (process_id, run_cmd) task list \<Rightarrow>
    (('w, 'h) exec, unit) eff" where
  "process_rounds os eh fuel 0 tasks = diverge"
| "process_rounds os eh fuel (Suc k) tasks =
     bnd (run_tasks os eh fuel tasks []) (\<lambda>new_tasks.
     if length new_tasks = 0 then ret () else process_rounds os eh fuel k new_tasks)"

definition process_tasks :: "'w os \<Rightarrow> 'h exec_handler \<Rightarrow> nat \<Rightarrow> (process_id, run_cmd) task list \<Rightarrow>
    (('w, 'h) exec, unit) eff" where
  "process_tasks os eh fuel tasks = process_rounds os eh fuel fuel tasks"

definition exec_enqueue :: "'w os \<Rightarrow> 'h exec_handler \<Rightarrow> nat \<Rightarrow> process_id \<Rightarrow> run_cmd \<Rightarrow>
    (process_id \<times> condition) list \<Rightarrow> (('w, 'h) exec, unit) eff" where
  "exec_enqueue os eh fuel pid c block_for =
     bnd (on_machine (enqueue pid c block_for)) (process_tasks os eh fuel)"

definition exec_completed :: "'w os \<Rightarrow> 'h exec_handler \<Rightarrow> nat \<Rightarrow> process_id \<Rightarrow> int \<Rightarrow>
    (('w, 'h) exec, unit) eff" where
  "exec_completed os eh fuel pid exit_code =
     thn (unwrap (on_handler (h_command_result eh pid exit_code)))
     (bnd (on_machine (completed fuel pid (from_exit_code exit_code))) (process_tasks os eh fuel))"

text \<open>
  A child is behind a mutex, which its waiter locks before it waits and unlocks when the wait is
  over; \<open>ex_locked\<close> are the children whose mutex is locked. What is left to the waiter then is to send
  its event.
\<close>

definition thread_becomes :: "thread \<Rightarrow> thread \<Rightarrow> (('w, 'h) exec, unit) eff" where
  "thread_becomes t t' = upd (\<lambda>s. s\<lparr>ex_threads := map (\<lambda>u. if u = t then t' else u) (ex_threads s)\<rparr>)"

definition waiter_locks :: "process_id \<Rightarrow> nat \<Rightarrow> (('w, 'h) exec, unit) eff" where
  "waiter_locks pid handle =
     thn (upd (\<lambda>s. s\<lparr>ex_locked := insert handle (ex_locked s)\<rparr>))
     (thread_becomes (Waiter pid handle) (Waiting pid handle))"

definition waiter_waits :: "'w os \<Rightarrow> process_id \<Rightarrow> nat \<Rightarrow> (('w, 'h) exec, unit) eff" where
  "waiter_waits os pid handle = bnd (unwrap (on_os (os_wait os handle))) (\<lambda>exit_code.
     thn (upd (\<lambda>s. s\<lparr>ex_locked := ex_locked s - {handle}\<rparr>))
     (thread_becomes (Waiting pid handle) (Ended pid exit_code)))"

text \<open>The turns of the waiters: a mutex is locked when it is free.\<close>

inductive waiter_step :: "'w os \<Rightarrow> ('w, 'h) exec \<Rightarrow> ('w, 'h) exec \<Rightarrow> bool" for os where
  step_locks: "Waiter pid handle \<in> set (ex_threads s) \<Longrightarrow> handle \<notin> ex_locked s \<Longrightarrow>
    waiter_locks pid handle s = (Ok (), s') \<Longrightarrow> waiter_step os s s'"
| step_waits: "Waiting pid handle \<in> set (ex_threads s) \<Longrightarrow> waiter_waits os pid handle s = (Ok (), s') \<Longrightarrow>
    waiter_step os s s'"

text \<open>
  Cancelling: the child to be killed, if there is one, and the kill once its mutex is locked. A
  call of \<open>lock\<close> returns when the mutex is free; if the waiter has it, that is when the wait is over,
  and \<open>lock_child\<close> is what has happened by then.
\<close>

definition cancel_target :: "process_id \<Rightarrow> (('w, 'h) exec, nat option) eff" where
  "cancel_target pid = bnd (on_machine (status pid)) (\<lambda>st. case st of
     StatusRunning (PsRunning handle) \<Rightarrow> ret (Some handle)
   | StatusRunning AwaitingEdit \<Rightarrow> panic ''explicit panic''
   | StatusExited _ \<Rightarrow> ret None)"

definition lock_child :: "'w os \<Rightarrow> process_id \<Rightarrow> nat \<Rightarrow> (('w, 'h) exec, unit) eff" where
  "lock_child os pid handle = bnd (gets (\<lambda>s. handle \<in> ex_locked s)) (\<lambda>held.
     if held then waiter_waits os pid handle else ret ())"

definition exec_cancel :: "'w os \<Rightarrow> process_id \<Rightarrow> (('w, 'h) exec, unit) eff" where
  "exec_cancel os pid = bnd (cancel_target pid) (\<lambda>target. case target of
     Some handle \<Rightarrow> thn (lock_child os pid handle) (on_os (os_kill os handle))
   | None \<Rightarrow> ret ())"

definition exec_finish_edit :: "'w os \<Rightarrow> 'h exec_handler \<Rightarrow> nat \<Rightarrow> nat \<Rightarrow> bytes \<Rightarrow> (('w, 'h) exec, unit) eff" where
  "exec_finish_edit os eh fuel edit_id data =
     bnd (gets (\<lambda>s. waiting_edits s edit_id)) (\<lambda>entry.
     thn (upd (\<lambda>s. s\<lparr>waiting_edits := (waiting_edits s)(edit_id := None)\<rparr>))
     (bnd (expect ''unwrap'' entry) (\<lambda>(pid, path).
     bnd (on_os (os_create os path)) (\<lambda>file.
     thn (unwrap (on_os (os_write_all os file data)))
     (exec_completed os eh fuel pid 0)))))"

section \<open>The event loop\<close>

definition handle_event :: "'w os \<Rightarrow> 'h exec_handler \<Rightarrow> nat \<Rightarrow> exec_event \<Rightarrow> (('w, 'h) exec, unit) eff" where
  "handle_event os eh fuel ev = unwrap (case ev of
     EvEnqueue pid c block_for \<Rightarrow> exec_enqueue os eh fuel pid c block_for
   | EvCompleted pid exit_status \<Rightarrow> exec_completed os eh fuel pid exit_status
   | EvOpenOutputFile p path \<Rightarrow> exec_open_output_file os p path
   | EvOpenInputFile p path \<Rightarrow> exec_open_input_file os p path
   | EvCancelExec pid \<Rightarrow> exec_cancel os pid
   | EvPipeClosed p end_offset \<Rightarrow> on_handler (h_pipe_closed eh p end_offset)
   | EvPipeOutput p data end_offset \<Rightarrow> on_handler (h_pipe_output eh p data end_offset)
   | EvPipeMessage p msg \<Rightarrow> exec_pipe_message os p msg
   | EvEditComplete edit_id data \<Rightarrow> exec_finish_edit os eh fuel edit_id data)"

text \<open>
  The executor holds a sender of its own channel, so the loop never sees it closed: it handles
  what arrives, in order.
\<close>

definition run_handler :: "'w os \<Rightarrow> 'h exec_handler \<Rightarrow> nat \<Rightarrow> exec_event list \<Rightarrow> (('w, 'h) exec, unit) eff" where
  "run_handler os eh fuel evs = for_each evs (handle_event os eh fuel)"

section \<open>What leaves the scheduler alone\<close>

definition quiet :: "(('w, 'h) exec, 'a) eff \<Rightarrow> bool" where
  "quiet m \<longleftrightarrow> (\<forall>s. wp m (\<lambda>_ t. ex_machine t = ex_machine s) (\<lambda>_ t. ex_machine t = ex_machine s)
     (\<lambda>_ _. True) s)"

lemma quiet_wp:
  assumes "quiet m" and "\<And>a t. ex_machine t = ex_machine s \<Longrightarrow> Q a t"
    and "\<And>e t. ex_machine t = ex_machine s \<Longrightarrow> E e t" and "\<And>p t. P p t"
  shows "wp m Q E P s"
  by (rule wp_mono [OF assms(1) [unfolded quiet_def, rule_format]]) (use assms(2-4) in auto)

named_theorems quiet_intros "operations that leave the scheduler alone"

lemma quiet_basic [quiet_intros]:
  "quiet (ret a)" "quiet (fail e)" "quiet (panic p)" "quiet (gets f)" "quiet (expect p x)"
  "quiet (ensure p b)" "quiet (on_os c)" "quiet (spawn_thread t)" "quiet (put_pair g hp)"
  by (simp_all add: quiet_def wp_simps on_os_def spawn_thread_def put_pair_def
      split: option.split prod.split sum.split)

lemma quiet_bnd [quiet_intros]:
  fixes m :: "(('w, 'h) exec, 'a) eff"
  assumes "quiet m" and "\<And>a. quiet (f a)"
  shows "quiet (bnd m f)"
  unfolding quiet_def
proof
  fix s :: "('w, 'h) exec"
  from assms(1) have "wp m (\<lambda>_ t. ex_machine t = ex_machine s) (\<lambda>_ t. ex_machine t = ex_machine s)
     (\<lambda>_ _. True) s" by (simp add: quiet_def)
  then show "wp (bnd m f) (\<lambda>_ t. ex_machine t = ex_machine s) (\<lambda>_ t. ex_machine t = ex_machine s)
     (\<lambda>_ _. True) s"
  proof (rule wp_bndI)
    fix a and t :: "('w, 'h) exec"
    assume "ex_machine t = ex_machine s"
    with assms(2) [of a] show "wp (f a) (\<lambda>_ t. ex_machine t = ex_machine s)
        (\<lambda>_ t. ex_machine t = ex_machine s) (\<lambda>_ _. True) t"
      unfolding quiet_def by metis
  qed simp_all
qed

lemma quiet_thn [quiet_intros]: "quiet m \<Longrightarrow> quiet n \<Longrightarrow> quiet (thn m n)"
  unfolding thn_def by (rule quiet_bnd)

lemma quiet_unwrap [quiet_intros]: "quiet m \<Longrightarrow> quiet (unwrap m)"
  unfolding quiet_def by (auto simp: wp_simps elim: wp_mono)

lemma quiet_attempt [quiet_intros]: "quiet m \<Longrightarrow> quiet (attempt m)"
  unfolding quiet_def by (simp add: wp_simps)

lemma quiet_read_end [quiet_intros]: "quiet (read_end os p)"
  unfolding read_end_def by (intro quiet_intros; simp add: quiet_intros split: option.split prod.split)

lemma quiet_write_end [quiet_intros]: "quiet (write_end os p)"
  unfolding write_end_def by (intro quiet_intros; simp add: quiet_intros split: option.split prod.split)

lemma quiet_pipe_and_close [quiet_intros]: "quiet (pipe_and_close p h data)"
  by (simp add: pipe_and_close_def quiet_intros)

lemma quiet_pipe_output_and_close [quiet_intros]: "quiet (pipe_output_and_close os ps out err)"
  by (simp add: pipe_output_and_close_def quiet_intros)

lemma quiet_open_output_file [quiet_intros]: "quiet (exec_open_output_file os p path)"
  by (simp add: exec_open_output_file_def quiet_intros)

lemma quiet_open_input_file [quiet_intros]: "quiet (exec_open_input_file os p path)"
  by (simp add: exec_open_input_file_def quiet_intros)

lemma quiet_upd [quiet_intros]: "(\<And>s. ex_machine (f s) = ex_machine s) \<Longrightarrow> quiet (upd f)"
  by (simp add: quiet_def wp_simps)

lemma quiet_pipe_message [quiet_intros]: "quiet (exec_pipe_message os p msg)"
  by (simp add: exec_pipe_message_def Let_def quiet_intros split: pipe_message.split)

lemma quiet_status [quiet_intros]: "quiet (on_machine (status pid))"
  by (simp add: quiet_def on_machine_def status_def wp_simps split: option.split)

lemma quiet_waits [quiet_intros]: "quiet (waiter_waits os pid handle)"
  by (auto simp: waiter_waits_def thread_becomes_def quiet_intros quiet_upd)

lemma waiter_step_quiet: "waiter_step os s s' \<Longrightarrow> ex_machine s' = ex_machine s"
  by (erule waiter_step.cases) (auto simp: waiter_locks_def waiter_waits_def thread_becomes_def on_os_def eff_defs
      split: prod.splits sum.splits)

lemma quiet_cancel [quiet_intros]: "quiet (exec_cancel os pid)"
  by (auto simp: exec_cancel_def cancel_target_def lock_child_def quiet_intros
      intro!: quiet_bnd quiet_thn split: task_status.split process_st.split option.split)

lemma quiet_edit_id [quiet_intros]: "quiet (zoom edit_ids (\<lambda>i s. s\<lparr>edit_ids := i\<rparr>) ids_next)"
  by (simp add: quiet_def wp_simps)

text \<open>Between events: the scheduler is consistent and nothing is ready but not started.\<close>

definition settled :: "('w, 'h) exec \<Rightarrow> bool" where
  "settled s \<longleftrightarrow> tasks_inv (ex_machine s) \<and> to_run (ex_machine s) = {}"

text \<open>The conditions of an event come from a hash map: one for each command.\<close>

definition keyed :: "exec_event \<Rightarrow> bool" where
  "keyed ev \<longleftrightarrow> (case ev of EvEnqueue _ _ bf \<Rightarrow> distinct (map fst bf) | _ \<Rightarrow> True)"

text \<open>A handler whose methods always answer.\<close>

locale handler_total =
  fixes eh :: "'h exec_handler"
  assumes total: "fst (h_pipe_output eh p data off h) \<noteq> Diverge"
    "fst (h_pipe_closed eh p off h) \<noteq> Diverge"
    "fst (h_command_result eh pid exit_code h) \<noteq> Diverge"
    "fst (h_edit_request eh pid k path data h) \<noteq> Diverge"
begin

lemma quiet_handler: "(\<And>h. fst (m h) \<noteq> Diverge) \<Longrightarrow> quiet (on_handler m)"
  by (simp add: quiet_def on_handler_def wp_zoom wp_answers)

lemmas quiet_methods = total [THEN quiet_handler]

lemma quiet_edit_request: "quiet (begin_edit_request eh pid path data)"
  by (simp add: begin_edit_request_def quiet_intros quiet_methods)

lemma quiet_run: "quiet (run os eh pid c)"
  by (simp add: run_def quiet_intros quiet_edit_request split: command.split sum.split)

lemma run_task_round:
  fixes s :: "('w, 'h) exec"
  assumes round: "machine_tasks.in_round k (t # todo) made (ex_machine s)"
  shows "wp (run_task os eh (Suc n) t)
     (\<lambda>ts s'. machine_tasks.in_round k todo (made @ ts) (ex_machine s')) (\<lambda>_ _. True) (\<lambda>_ _. True) s"
proof (cases t)
  case (ConditionFailed pid c)
  with machine_tasks.round_refused round
  have rest_round: "machine_tasks.in_round k todo made (ex_machine s)" by simp
  show ?thesis
    unfolding ConditionFailed run_task_def task.case wp_thn wp_unwrap
    by (rule quiet_wp [OF quiet_methods(3)]) (simp_all add: wp_simps rest_round)
next
  case (Start pid c)
  note round = round [unfolded Start]
  have bgn: "wp (thn (on_machine (start pid st)) (ret []))
      (\<lambda>ts s'. machine_tasks.in_round k todo (made @ ts) (ex_machine s')) (\<lambda>_ _. True) (\<lambda>_ _. True) u"
    if "ex_machine u = ex_machine s" for st u
    unfolding wp_thn on_machine_def wp_zoom that
    by (rule wp_mono [OF machine_tasks.round_begin [OF round]]) (simp_all add: wp_simps)
  have fin: "wp (bnd (on_machine (start_completed (Suc n) pid st)) g)
      (\<lambda>ts s'. machine_tasks.in_round k todo (made @ ts) (ex_machine s')) (\<lambda>_ _. True) (\<lambda>_ _. True) u"
    if "ex_machine u = ex_machine s" and g: "\<And>ts. \<exists>m :: (('w, 'h) exec, unit) eff. quiet m \<and> g ts = thn m (ret ts)" for st g u
    unfolding wp_bnd on_machine_def wp_zoom that(1)
  proof (rule wp_mono [OF machine_tasks.round_finish [OF round]])
    fix ts and m :: "(process_id, run_cmd, process_st) machine"
    assume r: "machine_tasks.in_round k todo (made @ ts) m"
    from g [of ts] obtain q :: "(('w, 'h) exec, unit) eff" where q: "quiet q" "g ts = thn q (ret ts)" by blast
    show "wp (g ts) (\<lambda>ts s'. machine_tasks.in_round k todo (made @ ts) (ex_machine s')) (\<lambda>_ _. True)
        (\<lambda>_ _. True) (u\<lparr>ex_machine := m\<rparr>)"
      unfolding q(2) wp_thn by (rule quiet_wp [OF q(1)]) (simp_all add: wp_simps r)
  qed auto
  show ?thesis
    unfolding Start run_task_def task.case
  proof (rule wp_bndI)
    show "wp (attempt (run os eh pid c)) (\<lambda>_ u. ex_machine u = ex_machine s) (\<lambda>_ _. True) (\<lambda>_ _. True) s"
      unfolding wp_attempt by (rule quiet_wp [OF quiet_run]) simp_all
  next
    fix r and u :: "('w, 'h) exec"
    assume u: "ex_machine u = ex_machine s"
    show "wp (case r of
        Inl e \<Rightarrow> bnd (on_machine (start_completed (Suc n) pid Failure)) (\<lambda>new_tasks.
           thn (pipe_output_and_close os (rc_pipes c) [] (os_debug os e))
           (thn (on_handler (h_command_result eh pid 1)) (ret new_tasks)))
      | Inr (RunProcess state) \<Rightarrow> thn (on_machine (start pid state)) (ret [])
      | Inr (AlreadyDone exit_code) \<Rightarrow>
          bnd (on_machine (start_completed (Suc n) pid (from_exit_code exit_code))) (\<lambda>new_tasks.
          thn (unwrap (on_handler (h_command_result eh pid 0))) (ret new_tasks)))
      (\<lambda>ts s'. machine_tasks.in_round k todo (made @ ts) (ex_machine s')) (\<lambda>_ _. True) (\<lambda>_ _. True) u"
    proof (cases r)
      case (Inl e)
      let ?q = "thn (pipe_output_and_close os (rc_pipes c) [] (os_debug os e))
        (on_handler (h_command_result eh pid 1))"
      have "thn (pipe_output_and_close os (rc_pipes c) [] (os_debug os e))
        (thn (on_handler (h_command_result eh pid 1)) (ret ts)) = thn ?q (ret ts)" for ts
        by (simp add: thn_thn)
      then show ?thesis
        unfolding Inl sum.case by (intro fin [OF u] exI [of _ ?q] conjI quiet_intros quiet_methods)
    next
      case (Inr x)
      show ?thesis
      proof (cases x)
        case (AlreadyDone exit_code)
        show ?thesis
          unfolding Inr AlreadyDone sum.case run_result.case
          by (rule fin [OF u], rule exI, rule conjI [OF quiet_unwrap [OF quiet_methods(3)] refl])
      qed (simp add: Inr bgn [OF u])
    qed
  qed auto
qed

lemma run_tasks_round:
  fixes s :: "('w, 'h) exec"
  assumes "machine_tasks.in_round k ts made (ex_machine s)"
  shows "wp (run_tasks os eh (Suc n) ts made)
     (\<lambda>made' s'. machine_tasks.in_round k [] made' (ex_machine s')) (\<lambda>_ _. True) (\<lambda>_ _. True) s"
  using assms
proof (induction ts arbitrary: made s)
  case (Cons t ts)
  show ?case
    unfolding run_tasks.simps
    by (rule wp_bndI [OF run_task_round [OF Cons.prems]]) (auto intro: Cons.IH)
qed (simp add: wp_simps)

lemma process_rounds_settle:
  fixes s :: "('w, 'h) exec"
  assumes "machine_tasks.in_round (held_back (ex_machine s)) ts [] (ex_machine s)"
    and "held_back (ex_machine s) < k"
  shows "wp (process_rounds os eh (Suc n) k ts) (\<lambda>_. settled) (\<lambda>_ _. True) (\<lambda>_ _. True) s"
  using assms
proof (induction k arbitrary: ts s)
  case (Suc k)
  show ?case
    unfolding process_rounds.simps
  proof (rule wp_bndI [OF run_tasks_round [OF Suc.prems(1)]])
    fix made and u :: "('w, 'h) exec"
    assume r: "machine_tasks.in_round (held_back (ex_machine s)) [] made (ex_machine u)"
    note over = machine_tasks.round_over [OF r]
    show "wp (if length made = 0 then ret () else process_rounds os eh (Suc n) k made)
       (\<lambda>_. settled) (\<lambda>_ _. True) (\<lambda>_ _. True) u"
    proof (cases "made = []")
      case True
      with machine_tasks.all_done r show ?thesis by (auto simp: wp_simps settled_def)
    next
      case False
      with over Suc.prems(2) have "held_back (ex_machine u) < k"
        by (cases made) auto
      with Suc.IH [OF conjunct1 [OF over]] False show ?thesis by simp
    qed
  qed auto
qed simp

lemma process_tasks_settle:
  fixes s :: "('w, 'h) exec"
  assumes "machine_tasks.in_round (held_back (ex_machine s)) ts [] (ex_machine s)"
    and "held_back (ex_machine s) < fuel"
  shows "wp (process_tasks os eh fuel ts) (\<lambda>_. settled) (\<lambda>_ _. True) (\<lambda>_ _. True) s"
proof -
  from assms(2) obtain n where "fuel = Suc n" by (cases fuel) auto
  with process_rounds_settle [OF assms, of os n] show ?thesis by (simp add: process_tasks_def)
qed

lemma enqueue_settle:
  fixes s :: "('w, 'h) exec"
  assumes "settled s" and "distinct (map fst bf)" and "Suc (held_back (ex_machine s)) < fuel"
  shows "wp (exec_enqueue os eh fuel pid c bf) (\<lambda>_. settled) (\<lambda>_ _. True) (\<lambda>_ _. True) s"
  unfolding exec_enqueue_def wp_bnd on_machine_def wp_zoom
  using assms
  by (intro wp_mono [OF enqueue_task [of "ex_machine s" bf pid c]])
    (auto simp: settled_def intro!: process_tasks_settle)

lemma completed_settle:
  fixes s :: "('w, 'h) exec"
  assumes "settled s" and "held_back (ex_machine s) < fuel"
  shows "wp (exec_completed os eh fuel pid exit_code) (\<lambda>_. settled) (\<lambda>_ _. True) (\<lambda>_ _. True) s"
proof -
  from assms(2) obtain n where n: "fuel = Suc n" by (cases fuel) auto
  show ?thesis
    unfolding exec_completed_def wp_thn
  proof (rule quiet_wp [OF quiet_unwrap [OF quiet_methods(3)]])
    fix u :: "('w, 'h) exec"
    assume u: "ex_machine u = ex_machine s"
    show "wp (bnd (on_machine (completed fuel pid (from_exit_code exit_code))) (process_tasks os eh fuel))
        (\<lambda>_. settled) (\<lambda>_ _. True) (\<lambda>_ _. True) u"
      unfolding wp_bnd on_machine_def wp_zoom u n
      using assms
      by (intro wp_mono [OF completed_task [of "ex_machine s" n pid]])
        (auto simp: settled_def n intro!: process_tasks_settle)
  qed simp_all
qed

lemma quiet_settled:
  fixes s :: "('w, 'h) exec"
  shows "quiet m \<Longrightarrow> settled s \<Longrightarrow> wp m (\<lambda>_. settled) (\<lambda>_ _. True) (\<lambda>_ _. True) s"
  by (erule quiet_wp) (simp_all add: settled_def)

lemma finish_edit_settle:
  fixes s :: "('w, 'h) exec"
  assumes "settled s" and "held_back (ex_machine s) < fuel"
  shows "wp (exec_finish_edit os eh fuel k data) (\<lambda>_. settled) (\<lambda>_ _. True) (\<lambda>_ _. True) s"
  using assms
  by (auto simp: exec_finish_edit_def wp_simps on_os_def settled_def split: option.split prod.split sum.split
      intro!: completed_settle)

lemma event_settles:
  fixes s :: "('w, 'h) exec"
  assumes "settled s" and "keyed ev" and "Suc (held_back (ex_machine s)) < fuel"
  shows "wp (handle_event os eh fuel ev) (\<lambda>_. settled) (\<lambda>_ _. False) (\<lambda>_ _. True) s"
proof -
  let ?m = "case ev of
     EvEnqueue pid c block_for \<Rightarrow> exec_enqueue os eh fuel pid c block_for
   | EvCompleted pid exit_status \<Rightarrow> exec_completed os eh fuel pid exit_status
   | EvOpenOutputFile p path \<Rightarrow> exec_open_output_file os p path
   | EvOpenInputFile p path \<Rightarrow> exec_open_input_file os p path
   | EvCancelExec pid \<Rightarrow> exec_cancel os pid
   | EvPipeClosed p end_offset \<Rightarrow> on_handler (h_pipe_closed eh p end_offset)
   | EvPipeOutput p data end_offset \<Rightarrow> on_handler (h_pipe_output eh p data end_offset)
   | EvPipeMessage p msg \<Rightarrow> exec_pipe_message os p msg
   | EvEditComplete edit_id data \<Rightarrow> exec_finish_edit os eh fuel edit_id data"
  have fuel: "held_back (ex_machine s) < fuel" using assms(3) by simp
  have "wp ?m (\<lambda>_. settled) (\<lambda>_ _. True) (\<lambda>_ _. True) s"
    using assms(1,2)
    by (cases ev)
      (simp_all add: keyed_def enqueue_settle [OF assms(1) _ assms(3)] completed_settle [OF assms(1) fuel]
        finish_edit_settle [OF assms(1) fuel] quiet_settled quiet_intros quiet_methods)
  then show ?thesis
    unfolding handle_event_def wp_unwrap by (rule wp_mono) simp_all
qed

end

section \<open>Properties\<close>

text \<open>
  C13: The two ends of a pipe meet. Whichever end of a pipe the executor hands out first, it asks
  the operating system for one pipe and keeps the other end; when the other end is asked for,
  whatever happened to other pipes in between, it is the one that was kept, with no further call,
  and nothing of the pipe is left to hand out: asking again for either end panics.
\<close>

theorem pipe_ends_meet:
  fixes s t1 t2 :: "('w, 'h) exec"
  assumes "open_handles s (GenericPipe p) = None" and "os_pipe os (ex_world s) = (Inr (r, w), v)"
    and "write_end os (WritePipe p) s = (a, s1)" and "read_end os (ReadPipe p) s = (b, s2)"
    and "open_handles t1 (GenericPipe p) = open_handles s1 (GenericPipe p)"
    and "open_handles t2 (GenericPipe p) = open_handles s2 (GenericPipe p)"
    and "read_end os (ReadPipe p) t1 = (c, u1)" and "write_end os (WritePipe p) t2 = (d, u2)"
  shows "a = Ok (OutputPipe w) \<and> c = Ok (InputPipe r) \<and> b = Ok (InputPipe r) \<and> d = Ok (OutputPipe w) \<and>
     ex_world s1 = v \<and> ex_world s2 = v \<and> ex_world u1 = ex_world t1 \<and> ex_world u2 = ex_world t2 \<and>
     (\<forall>u \<in> {u1, u2}. fst (read_end os (ReadPipe p) u) = Panic ''read side taken'' \<and>
        fst (write_end os (WritePipe p) u) = Panic ''write side taken'')"
proof -
  have s1: "a = Ok (OutputPipe w)" "open_handles s1 (GenericPipe p) =
      Some \<lparr>pair_read = Some (InputPipe r), pair_write = None\<rparr>" "ex_world s1 = v"
    using assms(1,2,3)
    by (auto simp: write_end_def put_pair_def on_os_def output_from_pipe_def input_from_pipe_def eff_defs)
  have s2: "b = Ok (InputPipe r)" "open_handles s2 (GenericPipe p) =
      Some \<lparr>pair_read = None, pair_write = Some (OutputPipe w)\<rparr>" "ex_world s2 = v"
    using assms(1,2,4)
    by (auto simp: read_end_def put_pair_def on_os_def output_from_pipe_def input_from_pipe_def eff_defs)
  have u1: "c = Ok (InputPipe r)" "open_handles u1 (GenericPipe p) =
      Some \<lparr>pair_read = None, pair_write = None\<rparr>" "ex_world u1 = ex_world t1"
    using assms(5,7) s1(2) by (auto simp: read_end_def put_pair_def eff_defs)
  have u2: "d = Ok (OutputPipe w)" "open_handles u2 (GenericPipe p) =
      Some \<lparr>pair_read = None, pair_write = None\<rparr>" "ex_world u2 = ex_world t2"
    using assms(6,8) s2(2) by (auto simp: write_end_def put_pair_def eff_defs)
  have "fst (read_end os (ReadPipe p) u) = Panic ''read side taken''"
    "fst (write_end os (WritePipe p) u) = Panic ''write side taken''"
    if "open_handles u (GenericPipe p) = Some \<lparr>pair_read = None, pair_write = None\<rparr>"
    for u :: "('w, 'h) exec"
    using that by (simp_all add: read_end_def write_end_def put_pair_def eff_defs)
  with s1 s2 u1 u2 show ?thesis by simp
qed

definition write_taken :: "write_pipe \<Rightarrow> ('w, 'h) exec \<Rightarrow> bool" where
  "write_taken p s \<longleftrightarrow> (\<exists>hp. open_handles s (write_to_generic p) = Some hp \<and> pair_write hp = None)"

lemma write_end_takes: "write_end os p s = (Ok h, s') \<Longrightarrow> write_taken p s'"
  by (auto simp: write_end_def write_taken_def put_pair_def on_os_def eff_defs
      split: option.splits prod.splits sum.splits)

lemma write_taken_panics: "write_taken p s \<Longrightarrow> fst (write_end os p s) = Panic ''write side taken''"
  by (auto simp: write_end_def write_taken_def put_pair_def eff_defs)

lemma write_end_keeps_taken:
  assumes "write_taken q s" and "write_end os p s = (Ok h, s')"
  shows "write_taken q s'"
proof (cases "q = p")
  case True
  with write_taken_panics [of p s os] assms show ?thesis by simp
next
  case False
  with assms show ?thesis
    by (auto simp: write_end_def write_taken_def put_pair_def on_os_def eff_defs
        split: option.splits prod.splits sum.splits)
qed

lemma ends_no_Err: "read_end os p s \<noteq> (Err e, s')" "write_end os q s \<noteq> (Err e, s')"
  by (auto simp: read_end_def write_end_def put_pair_def on_os_def eff_defs
      split: option.splits prod.splits sum.splits)

lemma ends_machine:
  "read_end os p s = (Ok i, s') \<Longrightarrow> ex_machine s' = ex_machine s"
  "write_end os q s = (Ok h, s') \<Longrightarrow> ex_machine s' = ex_machine s"
  using quiet_read_end [of os p] quiet_write_end [of os q]
  unfolding quiet_def by (auto dest: wp_runD)

lemma bnd_Err:
  "bnd m f s = (Err e, s') \<Longrightarrow> m s = (Err e, s') \<or> (\<exists>a t. m s = (Ok a, t) \<and> f a t = (Err e, s'))"
  by (auto simp: bnd_def split: prod.splits outcome.splits)

lemma pipe_output_no_Err: "pipe_output_and_close os ps x y s \<noteq> (Err e, s')"
proof -
  have "pipe_and_close p h data u \<noteq> (Err e, s')" for p h data and u :: "('a, 'b) exec"
    by (simp add: pipe_and_close_def spawn_thread_def eff_defs)
  then show ?thesis
    by (auto simp: pipe_output_and_close_def thn_def ends_no_Err dest!: bnd_Err)
qed

lemma spawn_thread_no_Err: "thn (spawn_thread t) (ret x) s \<noteq> (Err e, s')"
  by (simp add: spawn_thread_def eff_defs)

lemma spawn_refused:
  assumes c: "rc_cmd c = Unknown path args" and run: "run os eh pid c s = (Err e, s')"
  shows "write_taken (w_stdout (rc_pipes c)) s' \<and> ex_machine s' = ex_machine s"
proof -
  from run c obtain i s1 o' s2 er s3 where
    i: "read_end os (w_stdin (rc_pipes c)) s = (Ok i, s1)" and
    o': "write_end os (w_stdout (rc_pipes c)) s1 = (Ok o', s2)" and
    er: "write_end os (w_stderr (rc_pipes c)) s2 = (Ok er, s3)" and
    sp: "on_os (os_spawn os (assign_stderr er (assign_stdout o' (assign_stdin i
       (os_command_new path args))))) s3 = (Err e, s')"
    by (auto simp: run_def ends_no_Err spawn_thread_no_Err dest!: bnd_Err)
  from sp have s': "\<exists>w. s' = s3\<lparr>ex_world := w\<rparr>"
    by (auto simp: on_os_def eff_defs split: prod.splits sum.splits)
  have "write_taken (w_stdout (rc_pipes c)) s3"
    using write_end_keeps_taken [OF write_end_takes [OF o'] er] .
  moreover have "ex_machine s3 = ex_machine s"
    using ends_machine(1) [OF i] ends_machine(2) [OF o'] ends_machine(2) [OF er] by simp
  ultimately show ?thesis using s' by (auto simp: write_taken_def)
qed

text \<open>
  A command that cannot be spawned ends the executor. When the operating system refuses to
  spawn (the program does not exist), the code wants to report the error on the command's
  standard error, but the spawn attempt has already taken the write ends: the task panics with
  \<open>write side taken\<close>, and the client never hears of the command.
\<close>

lemma spawn_failure_panics:
  assumes "rc_cmd c = Unknown path args" and "run os eh pid c s = (Err e, s')"
    and "tasks_inv (ex_machine s)" and "pid \<in> to_run (ex_machine s)"
    and "accepts (ex_machine s) pid Failure"
  shows "fst (run_task os eh fuel (Start pid c) s) = Panic ''write side taken''"
proof -
  from spawn_refused [OF assms(1,2)]
  have taken: "write_taken (w_stdout (rc_pipes c)) s'" and m: "ex_machine s' = ex_machine s" by auto
  obtain ts m' where sc: "start_completed fuel pid Failure (ex_machine s) = (Ok ts, m')"
    using start_completed_ok [OF _ assms(4,5), of fuel] assms(3) by (auto simp: tasks_inv_def)
  have "write_taken (w_stdout (rc_pipes c)) (s'\<lparr>ex_machine := m'\<rparr>)"
    using taken by (simp add: write_taken_def)
  from write_taken_panics [OF this, of os] obtain u where
    "write_end os (w_stdout (rc_pipes c)) (s'\<lparr>ex_machine := m'\<rparr>) = (Panic ''write side taken'', u)"
    by (cases "write_end os (w_stdout (rc_pipes c)) (s'\<lparr>ex_machine := m'\<rparr>)") auto
  with assms(2) sc m show ?thesis
    by (simp add: run_task_def pipe_output_and_close_def on_machine_def eff_defs)
qed

text \<open>
  A directory change that fails is reported to the client as a success. The scheduler is
  told of the failure, but the client always receives exit code 0 for a builtin.
\<close>

lemma cd_failure_reports_success:
  assumes "rc_cmd c = SetDirectory dir" and "os_set_dir os dir (ex_world s) = (Inl e, v)"
    and "run_task os eh fuel (Start pid c) s = (Ok ts, s')"
  shows "(\<exists>h. h_command_result eh pid 0 h = (Ok (), ex_handler s') \<and> h = ex_handler s) \<and>
     (\<exists>m. start_completed fuel pid Failure (ex_machine s) = (Ok ts, m) \<and> ex_machine s' = m)"
proof -
  let ?out = "''Error: '' @ os_debug os e"
  let ?s = "s\<lparr>ex_world := v\<rparr>"
  have frame: "ex_machine t = ex_machine u \<and> ex_handler t = ex_handler u"
    if "pipe_output_and_close os ps x y u = (Ok (), t)" for ps x y t u
    using that
    by (auto simp: pipe_output_and_close_def pipe_and_close_def write_end_def put_pair_def on_os_def
        spawn_thread_def eff_defs split: option.splits prod.splits sum.splits outcome.splits if_splits)
  obtain r t where po: "pipe_output_and_close os (rc_pipes c) ?out [] ?s = (r, t)" by fastforce
  have "\<exists>x. r = Ok x"
    using assms po
    by (cases r) (auto simp: run_task_def run_def on_os_def pipe_output_no_Err eff_defs)
  with po frame [of "rc_pipes c" ?out "[]" ?s t]
  have t: "ex_machine t = ex_machine s" "ex_handler t = ex_handler s" "r = Ok ()" by auto
  have run: "run os eh pid c s = (Ok (AlreadyDone 1), t)"
    using assms(1,2) po t(3) by (simp add: run_def on_os_def eff_defs)
  obtain q m where m: "start_completed fuel pid Failure (ex_machine s) = (q, m)" by fastforce
  obtain q' h where h: "h_command_result eh pid 0 (ex_handler s) = (q', h)" by fastforce
  have "run_task os eh fuel (Start pid c) s =
    bnd (answer q) (\<lambda>ts. thn (unwrap (answer q')) (ret ts)) (t\<lparr>ex_machine := m, ex_handler := h\<rparr>)"
    if "q = Ok ts'" for ts'
    using run m h t that
    by (simp add: run_task_def on_machine_def on_handler_def from_exit_code_def eff_defs
        split: outcome.split)
  moreover have "\<exists>ts'. q = Ok ts'"
    using assms(3) run m t
    by (cases q) (simp_all add: run_task_def on_machine_def from_exit_code_def eff_defs)
  ultimately have "q = Ok ts \<and> q' = Ok () \<and> s' = t\<lparr>ex_machine := m, ex_handler := h\<rparr>"
    using assms(3) by (cases q') (auto simp: eff_defs)
  with m h have "\<exists>m h. start_completed fuel pid Failure (ex_machine s) = (Ok ts, m) \<and>
      h_command_result eh pid 0 (ex_handler s) = (Ok (), h) \<and>
      s' = t\<lparr>ex_machine := m, ex_handler := h\<rparr>" by blast
  then show ?thesis by auto
qed

text \<open>
  Cancelling a command that still waits for another one ends the executor: only running and
  finished commands have a status, and asking for any other panics.
\<close>

lemma cancel_waiting_panics:
  assumes "tasks_inv (ex_machine s)" and "waiting_on (ex_machine s) pid \<noteq> None"
  shows "fst (handle_event os eh fuel (EvCancelExec pid) s) = Panic ''explicit panic''"
proof -
  have "running (ex_machine s) pid = None" "finished (ex_machine s) pid = None"
    using assms by (auto simp: tasks_inv_def machine_inv_def one_phase_def live_def)
  then show ?thesis
    by (simp add: handle_event_def exec_cancel_def cancel_target_def on_machine_def status_def eff_defs)
qed

text \<open>
  By the time a cancelled command is killed its waiter has waited, if it had locked the mutex.
\<close>

lemma cancel_after_wait:
  assumes "running (ex_machine s) pid = Some (PsRunning handle)"
  shows "handle_event os eh fuel (EvCancelExec pid) s =
     thn (if handle \<in> ex_locked s then waiter_waits os pid handle else ret ()) (unwrap (on_os (os_kill os handle))) s"
  using assms
  by (auto simp: handle_event_def exec_cancel_def cancel_target_def lock_child_def waiter_waits_def on_machine_def status_def
      thread_becomes_def on_os_def eff_defs split: prod.split sum.split)

section \<open>A concrete run\<close>

text \<open>
  An operating system whose state is the next handle it gives out. It knows no program
  \<open>missing\<close> and no directory \<open>/missing\<close>; a handler that keeps the results it is told.
\<close>

definition demo_os :: "nat os" where
  "demo_os = \<lparr>os_pipe = (\<lambda>v. (Inr (v, v + 1), v + 2)),
     os_spawn = (\<lambda>c v. if program c = ''missing'' then (Inl ''not found'', v) else (Inr v, v + 1)),
     os_kill = (\<lambda>h v. (Inr (), v)), os_wait = (\<lambda>h v. (Inr (Some 0), v)),
     os_set_dir = (\<lambda>d v. (if d = ''/missing'' then Inl ''not found'' else Inr (), v)),
     os_cur_dir = (\<lambda>v. (Inr ''/'', v)),
     os_create = (\<lambda>f v. (Inr v, v + 1)), os_open = (\<lambda>f v. (Inl ''not found'', v)),
     os_read_to_end = (\<lambda>h v. (Inr [], v)), os_write_all = (\<lambda>h d v. (Inr (), v)),
     os_write = (\<lambda>h d v. (Inr (), v)), os_read_line = (\<lambda>h v. (Inr [], v)),
     os_read_dir = (\<lambda>d v. (Inr [], v)),
     os_not_found = (\<lambda>e. e = ''not found''), os_debug = (\<lambda>e. e)\<rparr>"

definition tally :: "(process_id \<times> int) list exec_handler" where
  "tally = \<lparr>h_pipe_output = (\<lambda>_ _ _. ret ()), h_pipe_closed = (\<lambda>_ _. ret ()),
     h_command_result = (\<lambda>pid exit_code. upd (\<lambda>l. l @ [(pid, exit_code)])), h_edit_request = (\<lambda>_ _ _ _. ret ())\<rparr>"

definition demo_pipes :: "nat \<Rightarrow> write_pipes" where
  "demo_pipes n = \<lparr>w_stdin = ReadPipe n, w_stdout = WritePipe (n + 1), w_stderr = WritePipe (n + 2)\<rparr>"

definition demo_cmd :: "command \<Rightarrow> run_cmd" where
  "demo_cmd c = \<lparr>rc_cmd = c, rc_pipes = demo_pipes 0\<rparr>"

text \<open>Command 0 is about to be started; command 0 runs and command 1 waits for it.\<close>

definition demo_exec :: "command \<Rightarrow> (nat, (process_id \<times> int) list) exec" where
  "demo_exec c = (exec_new [] 10)\<lparr>ex_machine := snd (enqueue (ProcessId 0) (demo_cmd c) [] machine_new)\<rparr>"

definition demo_waiting :: "(nat, (process_id \<times> int) list) exec" where
  "demo_waiting = snd (bnd (exec_enqueue demo_os tally 2 (ProcessId 0) (demo_cmd (Unknown ''sleep'' [])) [])
     (\<lambda>_. exec_enqueue demo_os tally 2 (ProcessId 1) (demo_cmd GetDirectory) [(ProcessId 0, None)])
     (exec_new [] 10))"

lemma demo_machine: "ex_machine (demo_exec c) = machine_new\<lparr>to_run := {ProcessId 0}\<rparr>"
  by (simp add: demo_exec_def enqueue_def machine_new_def eff_defs)

lemma demo_exec_inv: "tasks_inv (ex_machine (demo_exec c))"
  by (auto simp: demo_machine tasks_inv_def inv_defs machine_new_def)

lemma pipe_ends_meet_witness:
  "fst (read_end demo_os (ReadPipe 3) (snd (write_end demo_os (WritePipe 3) (demo_exec GetDirectory)))) =
     Ok (InputPipe 10)"
proof -
  have "open_handles (demo_exec GetDirectory) (GenericPipe 3) = None"
    "os_pipe demo_os (ex_world (demo_exec GetDirectory)) = (Inr (10, 11), 12)"
    by (simp_all add: demo_exec_def exec_new_def demo_os_def)
  from pipe_ends_meet [OF this surjective_pairing surjective_pairing refl refl surjective_pairing
      surjective_pairing] show ?thesis by blast
qed

lemma missing_command_panics:
  "fst (run_task demo_os tally 2 (Start (ProcessId 0) (demo_cmd (Unknown ''missing'' [])))
     (demo_exec GetDirectory)) = Panic ''write side taken''"
proof (rule spawn_failure_panics [OF _ _ demo_exec_inv])
  show "run demo_os tally (ProcessId 0) (demo_cmd (Unknown ''missing'' [])) (demo_exec GetDirectory) =
      (Err ''not found'',
       snd (run demo_os tally (ProcessId 0) (demo_cmd (Unknown ''missing'' [])) (demo_exec GetDirectory)))"
    by (simp add: run_def demo_cmd_def demo_pipes_def demo_exec_def exec_new_def demo_os_def read_end_def
        write_end_def put_pair_def on_os_def os_command_new_def assign_stdin_def assign_stdout_def
        assign_stderr_def eff_defs)
qed (simp_all add: demo_cmd_def demo_machine accepts_def machine_new_def)

lemma cd_failure_reports_success_witness:
  "let s = demo_exec GetDirectory; c = demo_cmd (SetDirectory ''/missing'');
     s' = snd (run_task demo_os tally 2 (Start (ProcessId 0) c) s) in
   (\<exists>h. h_command_result tally (ProcessId 0) 0 h = (Ok (), ex_handler s') \<and> h = ex_handler s) \<and>
     (\<exists>m. start_completed 2 (ProcessId 0) Failure (ex_machine s) = (Ok [], m) \<and> ex_machine s' = m)"
  unfolding Let_def
proof (rule cd_failure_reports_success [where dir = "''/missing''" and e = "''not found''" and v = 10])
  show "run_task demo_os tally 2 (Start (ProcessId 0) (demo_cmd (SetDirectory ''/missing'')))
      (demo_exec GetDirectory) = (Ok [], snd (run_task demo_os tally 2
        (Start (ProcessId 0) (demo_cmd (SetDirectory ''/missing''))) (demo_exec GetDirectory)))"
    by (simp add: run_task_def run_def pipe_output_and_close_def pipe_and_close_def demo_cmd_def
        demo_pipes_def demo_exec_def exec_new_def demo_os_def tally_def write_end_def put_pair_def
        on_os_def on_machine_def on_handler_def spawn_thread_def enqueue_def start_completed_def
        resolve_tasks.simps machine_new_def eff_defs)
qed (simp_all add: demo_cmd_def demo_os_def demo_exec_def exec_new_def)

lemma demo_waiting_machine: "tasks_inv (ex_machine demo_waiting)"
  "waiting_on (ex_machine demo_waiting) (ProcessId 1) \<noteq> None"
  "running (ex_machine demo_waiting) (ProcessId 0) = Some (PsRunning 16)"
proof -
  have m: "ex_machine demo_waiting = \<lparr>finished = Map.empty, to_run = {},
      running = [ProcessId 0 \<mapsto> PsRunning 16],
      check_on_completed = [ProcessId 0 \<mapsto> [(None, ProcessId 1)]],
      waiting_on = [ProcessId 1 \<mapsto> \<lparr>cmd = demo_cmd GetDirectory, conditions = [(ProcessId 0, None)]\<rparr>]\<rparr>"
    by (simp add: demo_waiting_def exec_enqueue_def process_tasks_def numeral_2_eq_2 run_task_def run_def
        demo_cmd_def demo_pipes_def exec_new_def demo_os_def read_end_def write_end_def put_pair_def
        on_os_def on_machine_def spawn_thread_def enqueue_def watch_def start_def os_command_new_def
        assign_stdin_def assign_stdout_def assign_stderr_def machine_new_def eff_defs)
  have "ranked (ex_machine demo_waiting)"
    unfolding ranked_def by (rule exI [of _ pid_num]) (auto simp: m split: if_splits)
  then show "tasks_inv (ex_machine demo_waiting)"
    by (auto simp: tasks_inv_def machine_inv_def one_phase_def watched_def watching_def live_def m)
  show "waiting_on (ex_machine demo_waiting) (ProcessId 1) \<noteq> None"
    "running (ex_machine demo_waiting) (ProcessId 0) = Some (PsRunning 16)" by (simp_all add: m)
qed

lemma cancel_waiting_panics_witness:
  "fst (handle_event demo_os tally 2 (EvCancelExec (ProcessId 1)) demo_waiting) = Panic ''explicit panic''"
  by (rule cancel_waiting_panics [OF demo_waiting_machine(1,2)])

end
