(* ===== verification/Backend.thy ===== *)
theory Backend
  imports Exec
begin

text \<open>
  \<open>backend/src/main.rs\<close>: the backend process. The main thread reads request lines and routes
  them, to the executor's channel or to the backend of a further remote; the executor reports
  through \<open>ExecHandler\<close>. Both share one \<open>Backend\<close> behind a mutex: it is the executor's handler
  state here, and the main thread reaches it there.
\<close>

section \<open>The transport\<close>

definition stdout_send :: "(bytes \<Rightarrow> ('t, nat) call) \<Rightarrow> ('t, unit) call \<Rightarrow> bytes \<Rightarrow> ('t, unit) call" where
  "stdout_send = write_flush"

section \<open>The executor's handler\<close>

definition exec_handler_impl :: "'t wire \<Rightarrow> 't backend exec_handler" where
  "exec_handler_impl w = \<lparr>
     h_pipe_output = (\<lambda>p data end_offset. bk_pipe_data w (to_write p) data end_offset),
     h_pipe_closed = (\<lambda>p end_offset. bk_pipe_closed w (to_write p) end_offset),
     h_command_result = (\<lambda>pid exit_code. bk_command_done w pid exit_code),
     h_edit_request = (\<lambda>pid edit_id path data. bk_edit_request w pid edit_id path data)\<rparr>"

lemma bk_send_answers: "fst (bk_send w m b) \<noteq> Diverge"
  unfolding wp_answers [symmetric] by (simp add: wp_simps split: option.split prod.split sum.split)

interpretation backend_handler: handler_total "exec_handler_impl w" for w
  by unfold_locales
    (simp_all add: exec_handler_impl_def bk_pipe_data_def bk_pipe_closed_def bk_command_done_def
      bk_edit_request_def bk_send_answers)

section \<open>The backend process\<close>

record remote_child =
  br_shutting_down :: bool
  br_handle :: nat
  br_input :: nat

record command_info =
  ci_remote_id :: nat
  ci_id :: process_id

record ('w, 't) node =
  nd_exec :: "('w, 't backend) exec"
  nd_queue :: "exec_event list"
  nd_subbackends :: "nat \<rightharpoonup> remote_child"
  nd_relays :: "(nat \<times> nat) list"
  nd_running_commands :: "string \<rightharpoonup> command_info"
  nd_waiting_edits :: "nat \<rightharpoonup> nat"
  nd_poisoned :: bool
  nd_ended :: bool

definition node_new :: "'t \<Rightarrow> 'w \<Rightarrow> ('w, 't) node" where
  "node_new t w = \<lparr>nd_exec = exec_new (bk_new t) w, nd_queue = [], nd_subbackends = Map.empty,
     nd_relays = [], nd_running_commands = Map.empty, nd_waiting_edits = Map.empty, nd_poisoned = False,
     nd_ended = False\<rparr>"

definition node_exec :: "(('w, 't backend) exec, 'a) eff \<Rightarrow> (('w, 't) node, 'a) eff" where
  "node_exec m = zoom nd_exec (\<lambda>x n. n\<lparr>nd_exec := x\<rparr>) m"

definition node_os :: "('w, 'a) call \<Rightarrow> (('w, 't) node, 'a) eff" where
  "node_os c = node_exec (on_os c)"

definition backtraffic :: "('t backend, 'a) eff \<Rightarrow> (('w, 't) node, 'a) eff" where
  "backtraffic m = node_exec (on_handler m)"

text \<open>
  The methods of \<open>Exec\<close>: each sends one event to the executor. When the executor's thread has
  ended (\<open>nd_ended\<close>) nobody receives, and \<open>send\<close> answers an error, which is unwrapped.
\<close>

definition send_event :: "exec_event \<Rightarrow> (('w, 't) node, unit) eff" where
  "send_event ev = bnd (gets nd_ended) (\<lambda>ended.
     thn (ensure ''SendError'' (\<not> ended))
     (upd (\<lambda>n. n\<lparr>nd_queue := nd_queue n @ [ev]\<rparr>)))"

text \<open>
  The thread that relays a further remote's responses: each line is read, labelled with the
  number of that remote, and printed again.
\<close>

definition relay_line :: "'t wire \<Rightarrow> (bytes \<Rightarrow> response option) \<Rightarrow> nat \<Rightarrow> bytes \<Rightarrow> bytes outcome" where
  "relay_line w from_str k input = (case from_str input of
     None \<Rightarrow> Panic ''unwrap''
   | Some rpc \<Rightarrow> (case response_string w (rpc\<lparr>rs_remote_id := k\<rparr>) of
       None \<Rightarrow> Panic ''unwrap''
     | Some s \<Rightarrow> Ok (s @ newline)))"

text \<open>
  The thread on what \<open>read_line\<close> answers one time after another: the lines it prints, and how it
  ends. An empty line is the end of the remote's output; an error is at most printed.
\<close>

fun relay_thread :: "'t wire \<Rightarrow> (bytes \<Rightarrow> response option) \<Rightarrow> nat \<Rightarrow> (error + bytes) list \<Rightarrow> bytes list \<times> unit outcome" where
  "relay_thread w from_str k [] = ([], Diverge)"
| "relay_thread w from_str k (Inl e # reads) = relay_thread w from_str k reads"
| "relay_thread w from_str k (Inr input # reads) =
     (if length input = 0 then ([], Ok ())
      else case relay_line w from_str k input of
        Ok line \<Rightarrow> (case relay_thread w from_str k reads of (lines, r) \<Rightarrow> (line # lines, r))
      | Err e \<Rightarrow> ([], Err e)
      | Panic p \<Rightarrow> ([], Panic p)
      | Diverge \<Rightarrow> ([], Diverge))"

definition begin_remote :: "'w os \<Rightarrow> nat \<Rightarrow> command \<Rightarrow> (('w, 't) node, unit) eff" where
  "begin_remote os k c = (case c of
     Unknown path args \<Rightarrow>
       bnd (node_os (os_pipe os)) (\<lambda>(output_reader, output_writer).
       bnd (node_os (os_pipe os)) (\<lambda>(input_reader, input_writer).
       bnd (node_os (os_spawn os ((os_command_new path args)
         \<lparr>cmd_stdout := Some output_writer, cmd_stdin := Some input_reader\<rparr>))) (\<lambda>handle.
       bnd (node_os (os_read_line os output_reader)) (\<lambda>input.
       thn (ensure ''input == handshake'' (input = handshake))
       (thn (upd (\<lambda>n. n\<lparr>nd_relays := nd_relays n @ [(k, output_reader)]\<rparr>))
       (upd (\<lambda>n. n\<lparr>nd_subbackends := (nd_subbackends n)(k \<mapsto>
         \<lparr>br_shutting_down = False, br_handle = handle, br_input = input_writer\<rparr>)\<rparr>)))))))
   | _ \<Rightarrow> panic ''explicit panic'')"

definition end_remote :: "'w os \<Rightarrow> nat \<Rightarrow> (('w, 't) node, unit) eff" where
  "end_remote os k = bnd (gets (\<lambda>n. nd_subbackends n k)) (\<lambda>old.
     thn (upd (\<lambda>n. n\<lparr>nd_subbackends := (nd_subbackends n)(k := None)\<rparr>))
     (bnd (expect ''unwrap'' old) (\<lambda>backend.
     node_os (os_kill os (br_handle backend)))))"

definition list_directory :: "'t wire \<Rightarrow> 'w os \<Rightarrow> nat \<Rightarrow> string \<Rightarrow> (('w, 't) node, unit) eff" where
  "list_directory w os k path = bnd (unwrap (node_os (os_read_dir os path))) (\<lambda>items.
     backtraffic (bk_directory_listing w k items))"

definition async_handler :: "'t wire \<Rightarrow> 'w os \<Rightarrow> ('w, 't) node backend_handler" where
  "async_handler w os = \<lparr>
     do_begin_command = (\<lambda>block_for process c.
       send_event (EvEnqueue (wp_id process) \<lparr>rc_cmd = c, rc_pipes = wp_pipes process\<rparr> block_for)),
     do_cancel_command = (\<lambda>pid. send_event (EvCancelExec pid)),
     do_begin_remote = begin_remote os,
     do_open_output_file = (\<lambda>p path. send_event (EvOpenOutputFile p path)),
     do_open_input_file = (\<lambda>p path. send_event (EvOpenInputFile p path)),
     do_end_remote = end_remote os,
     do_list_directory = list_directory w os,
     do_finish_edit = (\<lambda>edit_id data. send_event (EvEditComplete edit_id data)),
     do_pipe = (\<lambda>p msg. send_event (EvPipeMessage p msg))\<rparr>"

text \<open>One line of input in \<open>run_backend\<close>, and the loop over the lines.\<close>

definition backend_line :: "'t wire \<Rightarrow> 'w os \<Rightarrow> (bytes \<Rightarrow> request option) \<Rightarrow> bytes \<Rightarrow>
    (('w, 't) node, unit) eff" where
  "backend_line w os from_str input = (case from_str input of
     None \<Rightarrow> fail ''serde_json''
   | Some rpc \<Rightarrow>
       if rq_remote_id rpc = 0 then unwrap (request_route (async_handler w os) rpc)
       else
         bnd (expect ''unwrap'' (request_string w \<lparr>rq_remote_id = 0, rq_message = rq_message rpc\<rparr>)) (\<lambda>s.
         bnd (gets (\<lambda>n. nd_subbackends n (rq_remote_id rpc))) (\<lambda>sub.
         bnd (expect ''unwrap'' sub) (\<lambda>backend.
         unwrap (node_os (os_write os (br_input backend) (s @ newline)))))))"

definition backend_loop :: "'t wire \<Rightarrow> 'w os \<Rightarrow> (bytes \<Rightarrow> request option) \<Rightarrow> bytes list \<Rightarrow>
    (('w, 't) node, unit) eff" where
  "backend_loop w os from_str lines = for_each lines (backend_line w os from_str)"

text \<open>
  The executor's thread takes the next event from its channel. A panic ends the thread: the receiving
  end of the channel is dropped with what is in it.
\<close>

definition on_panic :: "('s \<Rightarrow> 's) \<Rightarrow> ('s, 'a) eff \<Rightarrow> ('s, 'a) eff" where
  "on_panic f m = (\<lambda>s. case m s of (Panic p, t) \<Rightarrow> (Panic p, f t) | (r, t) \<Rightarrow> (r, t))"

definition exec_ends :: "('w, 't) node \<Rightarrow> ('w, 't) node" where
  "exec_ends n = n\<lparr>nd_ended := True, nd_queue := []\<rparr>"

definition exec_turn :: "'t wire \<Rightarrow> 'w os \<Rightarrow> nat \<Rightarrow> (('w, 't) node, unit) eff" where
  "exec_turn w os fuel = bnd (gets nd_queue) (\<lambda>q. case q of
     [] \<Rightarrow> ret ()
   | ev # evs \<Rightarrow>
       thn (upd (\<lambda>n. n\<lparr>nd_queue := evs\<rparr>))
       (on_panic exec_ends (node_exec (handle_event os (exec_handler_impl w) fuel ev))))"

section \<open>Properties of the executor\<close>

text \<open>
  C12: Every event settles. From a state in which nothing is ready but not started, handling any
  event ends: it panics, or it returns in a state with a consistent scheduler in which again
  nothing is ready but not started. The rounds of \<open>process_tasks\<close> are no more than the commands
  held back, plus one, so fuel beyond that number is never used up; no \<open>Err\<close> escapes.
\<close>

theorem executor_event_settles:
  assumes "settled s" and "keyed ev" and "Suc (held_back (ex_machine s)) < fuel"
  shows "wp (handle_event os (exec_handler_impl w) fuel ev) (\<lambda>_. settled) (\<lambda>_ _. False) (\<lambda>_ _. True) s"
  using assms by (rule backend_handler.event_settles)

text \<open>The states the executor reaches by handling events, whatever the operating system answers.\<close>

inductive exec_reach :: "'t wire \<Rightarrow> 'w os \<Rightarrow> ('w, 't backend) exec \<Rightarrow> bool" for w os where
  exec_start: "exec_reach w os (exec_new b v)"
| exec_event: "exec_reach w os s \<Longrightarrow> keyed ev \<Longrightarrow> Suc (held_back (ex_machine s)) < fuel \<Longrightarrow>
    handle_event os (exec_handler_impl w) fuel ev s = (Ok (), s') \<Longrightarrow> exec_reach w os s'"
| exec_waiter: "exec_reach w os s \<Longrightarrow> waiter_step os s s' \<Longrightarrow> exec_reach w os s'"
| exec_world: "exec_reach w os s \<Longrightarrow> exec_reach w os (s\<lparr>ex_world := v\<rparr>)"

lemma exec_reach_settled: "exec_reach w os s \<Longrightarrow> settled s"
proof (induction rule: exec_reach.induct)
  case (exec_start b v)
  show ?case
    by (simp add: settled_def tasks_inv_def exec_new_def machine_inv_new) (simp add: machine_new_def)
next
  case (exec_event s ev fuel s')
  then show ?case using backend_handler.event_settles wp_runD by fastforce
qed (simp_all add: settled_def waiter_step_quiet)

text \<open>
  The executor never stalls. After any number of events, while some command waits another
  one runs: a process is alive, or an edit is open, whose end will be the next event to release
  commands. No command is left ready without having been started.
\<close>

lemma executor_progress:
  assumes "exec_reach w os s"
  shows "to_run (ex_machine s) = {} \<and>
    (waiting_on (ex_machine s) p \<noteq> None \<longrightarrow> (\<exists>q. running (ex_machine s) q \<noteq> None))"
proof -
  from exec_reach_settled [OF assms] have inv: "machine_inv (ex_machine s)"
    and none: "to_run (ex_machine s) = {}" by (simp_all add: settled_def tasks_inv_def)
  have "waiting_on (ex_machine s) p \<noteq> None \<Longrightarrow> \<exists>q. q \<in> to_run (ex_machine s) \<or> running (ex_machine s) q \<noteq> None"
    by (rule some_active [OF inv])
  with none show ?thesis by blast
qed

section \<open>Properties of the protocol\<close>

text \<open>What a request means to the executor of the backend it reaches.\<close>

fun event_of :: "remote_request \<Rightarrow> exec_event option" where
  "event_of (RqBeginCommand bf p c) = Some (EvEnqueue (ap_id p) \<lparr>rc_cmd = c, rc_pipes =
     \<lparr>w_stdin = ReadPipe (ap_stdin p), w_stdout = WritePipe (ap_stdout p), w_stderr = WritePipe (ap_stderr p)\<rparr>\<rparr> bf)"
| "event_of (RqCancelCommand pid) = Some (EvCancelExec pid)"
| "event_of (RqOpenOutputFile k path) = Some (EvOpenOutputFile (WritePipe k) path)"
| "event_of (RqOpenInputFile k path) = Some (EvOpenInputFile (ReadPipe k) path)"
| "event_of (RqFinishEdit k data) = Some (EvEditComplete k data)"
| "event_of (RqPipe p) = Some (EvPipeMessage (GenericPipe (env_id p)) (env_msg p))"
| "event_of _ = None"

lemma route_event:
  "rq_remote_id r = 0 \<Longrightarrow> event_of (rq_message r) = Some ev \<Longrightarrow> \<not> nd_ended n \<Longrightarrow>
   unwrap (request_route (async_handler w os) r) n = (Ok (), n\<lparr>nd_queue := nd_queue n @ [ev]\<rparr>)"
  by (cases "rq_message r") (auto simp: request_route_def async_handler_def send_event_def eff_defs)

text \<open>
  What is relied on of \<open>serde_json\<close>: parsing a printed message, with the newline the sender
  adds, gives the message back. The wire keeps the lines it is given.
\<close>

definition faithful :: "('m \<Rightarrow> bytes option) \<Rightarrow> (bytes \<Rightarrow> 'm option) \<Rightarrow> bool" where
  "faithful to_str from_str \<longleftrightarrow> (\<forall>m s. to_str m = Some s \<longrightarrow> from_str (s @ newline) = Some m)"

definition recording :: "bytes list wire \<Rightarrow> bool" where
  "recording w \<longleftrightarrow> wire_send w = (\<lambda>line lines. (Inr (), lines @ [line]))"

lemma send_then_route:
  assumes "faithful (request_string w) from_str" and "recording w"
    and "ep_send w ep_root m e = (Ok (), e')" and "event_of m = Some ev" and "\<not> nd_ended n"
  shows "\<exists>line. ep_trans e' = ep_trans e @ [line] \<and>
     backend_line v os from_str line n = (Ok (), n\<lparr>nd_queue := nd_queue n @ [ev]\<rparr>)"
proof -
  let ?r = "\<lparr>rq_remote_id = 0, rq_message = m\<rparr>"
  obtain s where s: "request_string w ?r = Some s" "ep_trans e' = ep_trans e @ [s @ newline]"
    using assms(2,3)
    by (auto simp: ep_send_def ser_to_endpoint_def ep_root_def recording_def eff_defs split: option.splits)
  then have "from_str (s @ newline) = Some ?r" using assms(1) by (simp add: faithful_def)
  then have "backend_line v os from_str (s @ newline) n = (Ok (), n\<lparr>nd_queue := nd_queue n @ [ev]\<rparr>)"
    using route_event [of ?r ev n v os] assms(4,5) by (simp add: backend_line_def)
  with s(2) show ?thesis by blast
qed

text \<open>
  C14: A command started on the root reaches the executor as it was given, while the executor
  lives. The endpoint writes one line; the backend, reading it, puts one event on the executor's channel, with the process
  number the endpoint answered, the command, the conditions and the three pipes unchanged.
\<close>

theorem command_reaches_executor:
  assumes "faithful (request_string w) from_str" and "recording w"
    and "ep_command w ep_root c bf ps e = (Ok pid, e')" and "\<not> nd_ended n"
  shows "\<exists>line. ep_trans e' = ep_trans e @ [line] \<and> ep_jobs e' pid = Some \<lparr>ps_parent = ep_root\<rparr> \<and>
     backend_line v os from_str line n =
       (Ok (), n\<lparr>nd_queue := nd_queue n @ [EvEnqueue pid \<lparr>rc_cmd = c, rc_pipes = ps\<rparr> bf]\<rparr>)"
proof -
  let ?k = "next_id (ep_ids e)"
  let ?p = "\<lparr>ap_id = ProcessId ?k, ap_stdin = read_num (w_stdin ps),
     ap_stdout = write_num (w_stdout ps), ap_stderr = write_num (w_stderr ps)\<rparr>"
  let ?e = "e\<lparr>ep_ids := (ep_ids e)\<lparr>next_id := ?k + 1\<rparr>\<rparr>"
  obtain q u where u: "ep_send w ep_root (RqBeginCommand bf ?p c) ?e = (q, u)" by fastforce
  have "q = Ok () \<and> pid = ProcessId ?k \<and> e' = u\<lparr>ep_jobs := (ep_jobs u)(pid \<mapsto> \<lparr>ps_parent = ep_root\<rparr>)\<rparr>"
    using assms(3) u
    by (cases q) (auto simp: ep_command_def Let_def ep_connected_def ep_next_def ids_next_def eff_defs
        split: if_splits)
  moreover have "event_of (RqBeginCommand bf ?p c) =
      Some (EvEnqueue (ProcessId ?k) \<lparr>rc_cmd = c, rc_pipes = ps\<rparr> bf)" by simp
  ultimately show ?thesis
    using send_then_route [OF assms(1,2), of "RqBeginCommand bf ?p c" ?e u _ n v os] u assms(4) by auto
qed

text \<open>
  A remote behind a remote cannot be used. After the request to begin remote \<open>k\<close> on remote
  \<open>a\<close> has been passed on to \<open>a\<close>, the root's backend still knows nothing of \<open>k\<close>: the next request
  addressed to \<open>k\<close> panics there, although the frontend has \<open>k\<close> as its current remote.
\<close>

lemma nested_remote_panics:
  assumes "from_str line1 = Some \<lparr>rq_remote_id = a, rq_message = RqBeginRemote k c\<rparr>" and "a \<noteq> 0"
    and "backend_line w os from_str line1 n = (Ok (), n')" and "nd_subbackends n k = None"
    and "from_str line2 = Some \<lparr>rq_remote_id = k, rq_message = m\<rparr>" and "k \<noteq> 0"
    and "request_string w \<lparr>rq_remote_id = 0, rq_message = m\<rparr> = Some s"
  shows "fst (backend_line w os from_str line2 n') = Panic ''unwrap''"
proof -
  have "nd_subbackends n' = nd_subbackends n"
    using assms(1-3)
    by (auto simp: backend_line_def node_os_def node_exec_def on_os_def eff_defs
        split: option.splits prod.splits sum.splits)
  with assms(4-7) show ?thesis by (simp add: backend_line_def eff_defs)
qed

text \<open>
  What a relayed response says it comes from is always the directly connected remote: the
  relay overwrites the label, so a response of a remote further down arrives as one of remote
  \<open>k\<close>, and its own label is lost.
\<close>

lemma relay_overwrites_label:
  assumes "faithful (response_string w) from_str" and "from_str input = Some r"
    and "response_string w (r\<lparr>rs_remote_id := k\<rparr>) \<noteq> None"
  shows "\<exists>line. relay_line w from_str k input = Ok line \<and> from_str line = Some (r\<lparr>rs_remote_id := k\<rparr>)"
  using assms by (auto simp: relay_line_def faithful_def)

lemma relay_labels_all:
  assumes "faithful (response_string w) from_str"
    and "list_all2 (\<lambda>input r. input \<noteq> [] \<and> from_str input = Some r \<and> response_string w (r\<lparr>rs_remote_id := k\<rparr>) \<noteq> None) inputs rs"
  shows "\<exists>lines. relay_thread w from_str k (map Inr inputs @ [Inr []]) = (lines, Ok ()) \<and>
    map from_str lines = map (\<lambda>r. Some (r\<lparr>rs_remote_id := k\<rparr>)) rs"
  using assms(2)
proof (induction rule: list_all2_induct)
  case (Cons input inputs r rs)
  with relay_overwrites_label [OF assms(1), of input r k] show ?case by auto
qed simp

section \<open>Concrete runs\<close>

text \<open>A printer and a parser that know one request, and one for each of the two requests below.\<close>

definition one_message :: "request \<Rightarrow> bytes list wire" where
  "one_message r = \<lparr>wire_send = (\<lambda>line log. (Inr (), log @ [line])),
     request_string = (\<lambda>q. if q = r then Some ''message'' else None),
     response_string = (\<lambda>q. Some ''response'')\<rparr>"

definition parse_one :: "'m \<Rightarrow> bytes \<Rightarrow> 'm option" where
  "parse_one m line = (if line = ''message'' @ newline then Some m else None)"

lemma faithful_one: "faithful (\<lambda>q. if q = r then Some ''message'' else None) (parse_one r)"
  by (simp add: faithful_def parse_one_def)

definition demo_backend :: "(nat, bytes list backend) exec" where
  "demo_backend = exec_new (bk_new []) 10"

lemma demo_backend_reach: "exec_reach log_wire demo_os demo_backend"
  unfolding demo_backend_def by (rule exec_start)

lemma executor_event_settles_witness:
  "wp (handle_event demo_os (exec_handler_impl log_wire) 2
       (EvEnqueue (ProcessId 0) (demo_cmd GetDirectory) []))
     (\<lambda>_. settled) (\<lambda>_ _. False) (\<lambda>_ _. True) demo_backend"
  by (rule executor_event_settles [OF exec_reach_settled [OF demo_backend_reach]])
    (simp_all add: keyed_def held_back_def demo_backend_def exec_new_def machine_new_def)

definition sleeper :: exec_event where
  "sleeper = EvEnqueue (ProcessId 0) (demo_cmd (Unknown ''sleep'' [])) []"

definition follower :: exec_event where
  "follower = EvEnqueue (ProcessId 1) (demo_cmd GetDirectory) [(ProcessId 0, None)]"

definition demo_busy :: "(nat, bytes list backend) exec" where
  "demo_busy = snd (run_handler demo_os (exec_handler_impl log_wire) 2 [sleeper, follower] demo_backend)"

lemmas run_defs = handle_event_def exec_enqueue_def process_tasks_def numeral_2_eq_2 run_task_def run_def
  demo_cmd_def demo_pipes_def demo_backend_def exec_new_def demo_os_def read_end_def write_end_def
  put_pair_def on_os_def on_machine_def spawn_thread_def enqueue_def watch_def start_def
  os_command_new_def assign_stdin_def assign_stdout_def assign_stderr_def machine_new_def eff_defs
  sleeper_def follower_def

lemma demo_busy_waits: "waiting_on (ex_machine demo_busy) (ProcessId 1) \<noteq> None"
  by (simp add: demo_busy_def run_handler_def run_defs)

lemma demo_busy_reach: "exec_reach log_wire demo_os demo_busy"
proof -
  let ?h = "handle_event demo_os (exec_handler_impl log_wire) 2"
  obtain t where t: "?h sleeper demo_backend = (Ok (), t)" and held: "held_back (ex_machine t) = 0"
    by (simp add: run_defs held_back_def)
  have t_eq: "t = snd (?h sleeper demo_backend)" by (simp add: t)
  obtain u where u: "?h follower t = (Ok (), u)"
    by (simp add: t_eq run_defs)
  have "exec_reach log_wire demo_os t"
    by (rule exec_event [OF demo_backend_reach _ _ t])
      (simp_all add: keyed_def sleeper_def held_back_def demo_backend_def exec_new_def machine_new_def)
  then have "exec_reach log_wire demo_os u"
    by (rule exec_event [OF _ _ _ u]) (simp_all add: keyed_def follower_def held)
  moreover have "demo_busy = u"
    using t u by (simp add: demo_busy_def run_handler_def thn_def bnd_def ret_def)
  ultimately show ?thesis by simp
qed

lemma executor_progress_witness:
  "to_run (ex_machine demo_busy) = {} \<and> (\<exists>q. running (ex_machine demo_busy) q \<noteq> None)"
  using executor_progress [OF demo_busy_reach, of "ProcessId 1"] demo_busy_waits by simp

definition demo_endpoint :: "(bytes list, unit) endpoint" where
  "demo_endpoint = ep_new [] ()"

definition demo_node :: "(nat, bytes list) node" where
  "demo_node = node_new [] 10"

definition demo_request :: request where
  "demo_request = \<lparr>rq_remote_id = 0, rq_message = RqBeginCommand [(ProcessId 7, None)]
     \<lparr>ap_id = ProcessId 0, ap_stdin = 0, ap_stdout = 1, ap_stderr = 2\<rparr> (Unknown ''ls'' [])\<rparr>"

lemma command_reaches_executor_witness:
  "\<exists>line. ep_trans (snd (ep_command (one_message demo_request) ep_root (Unknown ''ls'' [])
       [(ProcessId 7, None)] (demo_pipes 0) demo_endpoint)) = ep_trans demo_endpoint @ [line] \<and>
     ep_jobs (snd (ep_command (one_message demo_request) ep_root (Unknown ''ls'' [])
       [(ProcessId 7, None)] (demo_pipes 0) demo_endpoint)) (ProcessId 0) = Some \<lparr>ps_parent = ep_root\<rparr> \<and>
     backend_line log_wire demo_os (parse_one demo_request) line demo_node =
       (Ok (), demo_node\<lparr>nd_queue := nd_queue demo_node @ [EvEnqueue (ProcessId 0)
          \<lparr>rc_cmd = Unknown ''ls'' [], rc_pipes = demo_pipes 0\<rparr> [(ProcessId 7, None)]]\<rparr>)"
proof (rule command_reaches_executor)
  show "faithful (request_string (one_message demo_request)) (parse_one demo_request)"
    by (simp add: one_message_def faithful_one)
  show "recording (one_message demo_request)" by (simp add: one_message_def recording_def)
  show "ep_command (one_message demo_request) ep_root (Unknown ''ls'' []) [(ProcessId 7, None)]
      (demo_pipes 0) demo_endpoint = (Ok (ProcessId 0), snd (ep_command (one_message demo_request) ep_root
        (Unknown ''ls'' []) [(ProcessId 7, None)] (demo_pipes 0) demo_endpoint))"
    by (simp add: ep_command_def Let_def ep_connected_def ep_next_def ids_next_def ep_send_def
        ser_to_endpoint_def one_message_def demo_request_def demo_pipes_def demo_endpoint_def ep_new_def
        ids_new_def ep_root_def eff_defs)
qed (simp add: demo_node_def node_new_def)

text \<open>Remote 1 is connected to the root; a request begins remote 2 on it, the next is for remote 2.\<close>

definition nested_requests :: "bytes \<Rightarrow> request option" where
  "nested_requests line =
     (if line = ''begin'' then Some \<lparr>rq_remote_id = 1, rq_message = RqBeginRemote 2 (Unknown ''ssh'' [])\<rparr>
      else if line = ''cancel'' then Some \<lparr>rq_remote_id = 2, rq_message = RqCancelCommand (ProcessId 5)\<rparr>
      else None)"

definition hub :: "(nat, bytes list) node" where
  "hub = (node_new [] 10)\<lparr>nd_subbackends := [1 \<mapsto> \<lparr>br_shutting_down = False, br_handle = 3, br_input = 4\<rparr>]\<rparr>"

lemma nested_remote_panics_witness:
  "fst (backend_line log_wire demo_os nested_requests ''cancel''
     (snd (backend_line log_wire demo_os nested_requests ''begin'' hub))) = Panic ''unwrap''"
proof (rule nested_remote_panics)
  show "backend_line log_wire demo_os nested_requests ''begin'' hub =
      (Ok (), snd (backend_line log_wire demo_os nested_requests ''begin'' hub))"
    by (simp add: backend_line_def nested_requests_def log_wire_def hub_def node_new_def node_os_def
        node_exec_def on_os_def demo_os_def eff_defs)
  show "nested_requests ''begin'' = Some \<lparr>rq_remote_id = 1, rq_message = RqBeginRemote 2 (Unknown ''ssh'' [])\<rparr>"
    "nested_requests ''cancel'' = Some \<lparr>rq_remote_id = 2, rq_message = RqCancelCommand (ProcessId 5)\<rparr>"
    by (simp_all add: nested_requests_def)
  show "request_string log_wire \<lparr>rq_remote_id = 0, rq_message = RqCancelCommand (ProcessId 5)\<rparr> = Some ''other''"
    by (simp add: log_wire_def kind_of_def)
qed (simp_all add: hub_def)

definition demo_response :: response where
  "demo_response = \<lparr>rs_remote_id = 3, rs_message = RsCommandDone (ProcessId 0) 0\<rparr>"

lemma relay_overwrites_label_witness:
  "let w = log_wire\<lparr>response_string := (\<lambda>q. if q = demo_response then Some ''message'' else None)\<rparr>;
       input = ''message'' @ newline in
   \<exists>line. relay_line w (parse_one demo_response) 3 input = Ok line \<and>
     parse_one demo_response line = Some (demo_response\<lparr>rs_remote_id := 3\<rparr>)"
  unfolding Let_def
  by (rule relay_overwrites_label)
    (simp_all add: faithful_one parse_one_def demo_response_def)

end
