(* ===== verification/Front.thy ===== *)
theory Front
  imports Rust_String Plan Endpoint
begin

text \<open>
  \<open>frontend/src/comm.rs\<close> and \<open>frontend/src/main.rs\<close>: the frontend's handler of responses (a
  stack of remotes, the processes and pipes it waits for, where each pipe's data goes), and the
  main loop that alternates between carrying out a plan and handling events until the plan's
  processes are done. What lies outside the process (the pipe to the backend, the terminal,
  temporary files, the \<open>micro\<close> editor) is one state, the transport's.
\<close>

section \<open>The handler of responses\<close>

record stacked_remotes =
  st_remotes :: "(remote_id \<times> remote_info) list"
  waiting_for :: "process_id list"
  waiting_for_eof :: "generic_pipe set"
  waiting_for_remote :: "remote_id option"
  gathering_output :: "generic_pipe \<rightharpoonup> bytes"
  finished_output :: "generic_pipe \<rightharpoonup> bytes"
  cwd_for_remote :: "(remote_id \<times> generic_pipe) list"
  stdout_pipes :: "generic_pipe set"
  stderr_pipes :: "generic_pipe set"

type_synonym 't front_endpoint = "('t, stacked_remotes) endpoint"

record 't front_os =
  fo_stdout :: "bytes \<Rightarrow> ('t, unit) call"
  fo_stderr :: "bytes \<Rightarrow> ('t, unit) call"
  fo_stdout_write :: "bytes \<Rightarrow> ('t, nat) call"
  fo_tempdir :: "('t, string) call"
  fo_create_write :: "string \<Rightarrow> bytes \<Rightarrow> ('t, unit) call"
  fo_micro :: "string \<Rightarrow> ('t, bool) call"
  fo_read_file :: "string \<Rightarrow> ('t, bytes) call"

definition outside :: "('t, 'a) call \<Rightarrow> ('t front_endpoint, 'a) eff" where
  "outside c = zoom ep_trans (\<lambda>t e. e\<lparr>ep_trans := t\<rparr>) (from_call c)"

definition handler_state :: "(stacked_remotes \<Rightarrow> 'a) \<Rightarrow> ('t front_endpoint, 'a) eff" where
  "handler_state f = gets (\<lambda>e. f (ep_handler e))"

definition handler_upd :: "(stacked_remotes \<Rightarrow> stacked_remotes) \<Rightarrow> ('t front_endpoint, unit) eff" where
  "handler_upd f = upd (\<lambda>e. e\<lparr>ep_handler := f (ep_handler e)\<rparr>)"

definition sr_remote_ready :: "remote_id \<Rightarrow> remote_info \<Rightarrow> ('t front_endpoint, unit) eff" where
  "sr_remote_ready k info =
     bnd (handler_state waiting_for_remote) (\<lambda>waiting.
     bnd (expect ''no remote waiting'' waiting) (\<lambda>r.
     thn (ensure ''assert_eq waiting_for_remote'' (r = k))
     (handler_upd (\<lambda>h. h\<lparr>waiting_for_remote := None, st_remotes := st_remotes h @ [(k, info)]\<rparr>))))"

definition sr_pipe :: "'t front_os \<Rightarrow> generic_pipe \<Rightarrow> pipe_message \<Rightarrow> ('t front_endpoint, unit) eff" where
  "sr_pipe fo k msg = (case msg of
     Data data _ \<Rightarrow>
       bnd (handler_state (\<lambda>h. (gathering_output h k, k \<in> stdout_pipes h, k \<in> stderr_pipes h)))
       (\<lambda>(gathered, to_stdout, to_stderr). case gathered of
           Some out \<Rightarrow> handler_upd (\<lambda>h. h\<lparr>gathering_output := (gathering_output h)(k \<mapsto> out @ data)\<rparr>)
         | None \<Rightarrow>
             if to_stdout then outside (fo_stdout fo data)
             else if to_stderr then outside (fo_stderr fo data)
             else panic ''bad pipe'')
   | Closed _ \<Rightarrow>
       thn (handler_upd (\<lambda>h. h\<lparr>waiting_for_eof := waiting_for_eof h - {k}\<rparr>))
       (bnd (handler_state (\<lambda>h. gathering_output h k)) (\<lambda>gathered. case gathered of
           Some output \<Rightarrow> handler_upd (\<lambda>h. h\<lparr>gathering_output := (gathering_output h)(k := None),
             finished_output := (finished_output h)(k \<mapsto> output)\<rparr>)
         | None \<Rightarrow> ret ()))
   | BeginRead \<Rightarrow> panic ''pipe message''
   | Read _ \<Rightarrow> panic ''pipe message'')"

definition sr_command_done :: "process_id \<Rightarrow> int \<Rightarrow> ('t front_endpoint, unit) eff" where
  "sr_command_done k exit_code =
     bnd (handler_state (\<lambda>h. k \<in> set (waiting_for h))) (\<lambda>present.
     thn (handler_upd (\<lambda>h. h\<lparr>waiting_for := filter (\<lambda>p. p \<noteq> k) (waiting_for h)\<rparr>))
     (ensure ''waiting_for.remove(&id)'' present))"

definition sr_directory_listing :: "nat \<Rightarrow> string list \<Rightarrow> ('t front_endpoint, unit) eff" where
  "sr_directory_listing k items = panic ''explicit panic''"

text \<open>The part of a path after its last slash.\<close>

definition base_name :: "string \<Rightarrow> string" where
  "base_name name = rev (takeWhile (\<lambda>c. c \<noteq> CHR ''/'') (rev name))"

definition sr_edit_request :: "'t wire \<Rightarrow> 't front_os \<Rightarrow> nat \<Rightarrow> process_id \<Rightarrow> string \<Rightarrow> bytes \<Rightarrow>
    ('t front_endpoint, unit) eff" where
  "sr_edit_request w fo edit_id command_id name data =
     thn (unwrap (outside (fo_stdout fo (''editing '' @ name @ newline))))
     (bnd (outside (fo_stdout_write fo data)) (\<lambda>_.
     bnd (outside (fo_tempdir fo)) (\<lambda>dir.
     let path = (if dir = [] \<or> last dir = CHR ''/'' then dir @ base_name name
                 else dir @ ''/'' @ base_name name) in
     thn (outside (fo_create_write fo path data))
     (bnd (outside (fo_micro fo path)) (\<lambda>success.
     thn (ensure ''res.success()'' success)
     (bnd (outside (fo_read_file fo path)) (\<lambda>new_data.
     ep_finish_edit w command_id edit_id new_data)))))))"

definition stacked_handler :: "'t wire \<Rightarrow> 't front_os \<Rightarrow> 't front_endpoint endpoint_handler" where
  "stacked_handler w fo = \<lparr>
     on_remote_ready = sr_remote_ready,
     on_command_done = sr_command_done,
     on_directory_listing = sr_directory_listing,
     on_edit_request = sr_edit_request w fo,
     on_pipe = sr_pipe fo\<rparr>"

text \<open>The endpoint \<open>launch_backend\<close> sets up around its transport.\<close>

definition stacked_new :: stacked_remotes where
  "stacked_new = \<lparr>st_remotes = [], waiting_for = [], waiting_for_eof = {}, waiting_for_remote = None,
     gathering_output = Map.empty, finished_output = Map.empty, cwd_for_remote = [],
     stdout_pipes = {}, stderr_pipes = {}\<rparr>"

definition launched :: "'t \<Rightarrow> 't front_endpoint" where
  "launched t = ep_new t (stacked_new\<lparr>waiting_for_remote := Some ep_root\<rparr>)"

definition pipe_send :: "(bytes \<Rightarrow> ('t, nat) call) \<Rightarrow> ('t, unit) call \<Rightarrow> bytes \<Rightarrow> ('t, unit) call" where
  "pipe_send = write_flush"

text \<open>
  \<open>launch_backend\<close>, in the process that goes on: two pipes, a forked child that starts the named
  program on one end of each, and the first line of its output, which must be the handshake. The
  pipes, the child and the line are the operating system's, the fields of \<open>launcher\<close>.
\<close>

record 't launcher =
  la_pipe :: "('t, nat \<times> nat) call"
  la_fork :: "string \<Rightarrow> nat \<Rightarrow> nat \<Rightarrow> 't \<Rightarrow> 't"
  la_read_line :: "nat \<Rightarrow> ('t, bytes) call"

definition launch_backend :: "'t launcher \<Rightarrow> string option \<Rightarrow> ('t, 't front_endpoint) eff" where
  "launch_backend la name =
     bnd (from_call (la_pipe la)) (\<lambda>(output_reader, output_writer).
     bnd (from_call (la_pipe la)) (\<lambda>(input_reader, input_writer).
     thn (upd (la_fork la (case name of Some program \<Rightarrow> program | None \<Rightarrow> ''nak-backend'')
       output_writer input_reader))
     (bnd (from_call (la_read_line la output_reader)) (\<lambda>input.
     thn (ensure ''input == handshake'' (input = handshake))
     (gets launched)))))"

section \<open>Operations on the current remote\<close>

definition cur_remote :: "('t front_endpoint, remote_id) eff" where
  "cur_remote = bnd (handler_state st_remotes) (\<lambda>rs.
     expect ''unwrap'' (if rs = [] then None else Some (fst (last rs))))"

definition ext_run :: "'t wire \<Rightarrow> command \<Rightarrow> string option \<Rightarrow> ('t front_endpoint, read_process) eff" where
  "ext_run w c redirect = bnd cur_remote (\<lambda>remote.
     bnd ep_pipe (\<lambda>(stderr_read, stderr_write).
     bnd ep_pipe (\<lambda>(stdin_read, stdin_write).
     case redirect of
       Some path \<Rightarrow>
         bnd (ep_open_output_file w remote path) (\<lambda>stdout_write.
         bnd ep_pipe (\<lambda>(stdout_read, _).
         bnd (ep_command w remote c [] \<lparr>w_stdin = stdin_read, w_stdout = stdout_write, w_stderr = stderr_write\<rparr>) (\<lambda>k.
         ret \<lparr>rp_id = k, rp_pipes = \<lparr>r_stdin = stdin_write, r_stdout = stdout_read, r_stderr = stderr_read\<rparr>\<rparr>)))
     | None \<Rightarrow>
         bnd ep_pipe (\<lambda>(stdout_read, stdout_write).
         bnd (ep_command w remote c [] \<lparr>w_stdin = stdin_read, w_stdout = stdout_write, w_stderr = stderr_write\<rparr>) (\<lambda>k.
         ret \<lparr>rp_id = k, rp_pipes = \<lparr>r_stdin = stdin_write, r_stdout = stdout_read, r_stderr = stderr_read\<rparr>\<rparr>)))))"

definition ext_begin_remote :: "'t wire \<Rightarrow> command \<Rightarrow> ('t front_endpoint, remote_id) eff" where
  "ext_begin_remote w c = bnd cur_remote (\<lambda>cur.
     bnd (ep_remote w cur c) (\<lambda>remote.
     bnd (handler_state waiting_for_remote) (\<lambda>waiting.
     thn (ensure ''waiting_for_remote.is_none()'' (waiting = None))
     (thn (handler_upd (\<lambda>h. h\<lparr>waiting_for_remote := Some remote\<rparr>))
     (ret remote)))))"

definition ext_end_remote :: "'t wire \<Rightarrow> ('t front_endpoint, unit) eff" where
  "ext_end_remote w = bnd (handler_state st_remotes) (\<lambda>rs.
     thn (handler_upd (\<lambda>h. h\<lparr>st_remotes := butlast rs\<rparr>))
     (bnd (expect ''unwrap'' (if rs = [] then None else Some (fst (last rs)))) (\<lambda>cur.
     ep_close_remote w cur)))"

definition ext_finish_edit :: "'t wire \<Rightarrow> process_id \<Rightarrow> nat \<Rightarrow> bytes \<Rightarrow> ('t front_endpoint, unit) eff" where
  "ext_finish_edit w command_id edit_id data = ep_finish_edit w command_id edit_id data"

definition ext_cancel :: "'t wire \<Rightarrow> process_id \<Rightarrow> ('t front_endpoint, unit) eff" where
  "ext_cancel w k = ep_close_process w k"

section \<open>Carrying out a plan\<close>

type_synonym pipe_pairs = "(read_pipe option \<times> write_pipe option) list"

definition take_write :: "nat \<Rightarrow> pipe_pairs \<Rightarrow> ('s, write_pipe \<times> pipe_pairs) eff" where
  "take_write i pairs =
     thn (ensure ''index out of bounds'' (i < length pairs))
     (bnd (expect ''unwrap'' (snd (pairs ! i))) (\<lambda>p.
     ret (p, pairs[i := (fst (pairs ! i), None)])))"

definition take_read :: "nat \<Rightarrow> pipe_pairs \<Rightarrow> ('s, read_pipe \<times> pipe_pairs) eff" where
  "take_read i pairs =
     thn (ensure ''index out of bounds'' (i < length pairs))
     (bnd (expect ''unwrap'' (fst (pairs ! i))) (\<lambda>p.
     ret (p, pairs[i := (None, snd (pairs ! i))])))"

text \<open>
  One step of the plan: the new pipes and processes, or \<open>None\<close> for the \<open>return Ok(false)\<close> that
  ends the shell.
\<close>

definition carry_step :: "'t wire \<Rightarrow> step \<Rightarrow> pipe_pairs \<Rightarrow> process_id list \<Rightarrow>
    ('t front_endpoint, (pipe_pairs \<times> process_id list) option) eff" where
  "carry_step w s pairs wait = (case s of
     StepPipe \<Rightarrow> bnd ep_pipe (\<lambda>(r, wr). ret (Some (pairs @ [(Some r, Some wr)], wait)))
   | StepRemote _ rs \<Rightarrow> (case rs of
       Run c pr \<Rightarrow> bnd cur_remote (\<lambda>remote.
         bnd (take_write (proc_stdout pr) pairs) (\<lambda>(out, pairs1).
         bnd (take_write (proc_stderr pr) pairs1) (\<lambda>(err, pairs2).
         bnd (take_read (proc_stdin pr) pairs2) (\<lambda>(inp, pairs3).
         bnd (ep_command w remote c [] \<lparr>w_stdin = inp, w_stdout = out, w_stderr = err\<rparr>) (\<lambda>pid.
         ret (Some (pairs3, List.insert pid wait)))))))
     | Close \<Rightarrow> bnd (handler_state (\<lambda>h. length (st_remotes h) > 1)) (\<lambda>nested.
         if nested then thn (ext_end_remote w) (ret (Some (pairs, wait))) else ret None)
     | OpenOutputFile path \<Rightarrow> bnd cur_remote (\<lambda>remote.
         bnd (ep_open_output_file w remote path) (\<lambda>handle.
         ret (Some (pairs @ [(None, Some handle)], wait))))
     | OpenInputFile _ \<Rightarrow> panic ''explicit panic''
     | BeginRemote _ \<Rightarrow> panic ''explicit panic'')
   | StepPager \<Rightarrow> panic ''explicit panic''
   | StepEditor \<Rightarrow> panic ''explicit panic'')"

primrec carry_steps :: "'t wire \<Rightarrow> step list \<Rightarrow> pipe_pairs \<Rightarrow> process_id list \<Rightarrow>
    ('t front_endpoint, (pipe_pairs \<times> process_id list) option) eff" where
  "carry_steps w [] pairs wait = ret (Some (pairs, wait))"
| "carry_steps w (s # ss) pairs wait = bnd (carry_step w s pairs wait) (\<lambda>r. case r of
     None \<Rightarrow> ret None
   | Some (pairs', wait') \<Rightarrow> carry_steps w ss pairs' wait')"

text \<open>The command that asks for the working directory once the plan's commands are done.\<close>

definition max_read :: u64 where
  "max_read = 1024 * 1024"

definition map_insert :: "'k \<Rightarrow> 'v \<Rightarrow> ('k \<times> 'v) list \<Rightarrow> ('k \<times> 'v) list" where
  "map_insert k v m = filter (\<lambda>e. fst e \<noteq> k) m @ [(k, v)]"

definition ask_directory :: "'t wire \<Rightarrow> process_id list \<Rightarrow> ('t front_endpoint, process_id list) eff" where
  "ask_directory w wait = bnd cur_remote (\<lambda>remote.
     bnd ep_pipe (\<lambda>(stdout_read, stdout_write).
     bnd ep_pipe (\<lambda>(stderr_read, stderr_write).
     bnd ep_pipe (\<lambda>(stdin_read, _).
     bnd (ep_command w remote GetDirectory (map (\<lambda>pid. (pid, None)) wait)
       \<lparr>w_stdin = stdin_read, w_stdout = stdout_write, w_stderr = stderr_write\<rparr>) (\<lambda>pid.
     thn (ep_pipe_begin_read w remote stdout_read)
     (thn (ep_pipe_begin_read w remote stderr_read)
     (thn (ep_pipe_read w remote stdout_read max_read)
     (thn (ep_pipe_read w remote stderr_read max_read)
     (thn (handler_upd (\<lambda>h. h\<lparr>
         gathering_output := (gathering_output h)(read_to_generic stdout_read \<mapsto> []),
         waiting_for_eof := insert (read_to_generic stdout_read) (waiting_for_eof h),
         stderr_pipes := insert (read_to_generic stderr_read) (stderr_pipes h),
         cwd_for_remote := map_insert remote (read_to_generic stdout_read) (cwd_for_remote h)\<rparr>))
     (ret (List.insert pid wait)))))))))))"

definition carry_sink :: "'t wire \<Rightarrow> remote_id \<Rightarrow> nat \<times> sink option \<Rightarrow> pipe_pairs \<Rightarrow>
    ('t front_endpoint, pipe_pairs) eff" where
  "carry_sink w remote ps pairs = (case ps of (_, None) \<Rightarrow> ret pairs
   | (i, Some s) \<Rightarrow>
       bnd (take_read i pairs) (\<lambda>(comm_pipe, pairs').
       thn (ep_pipe_begin_read w remote comm_pipe)
       (thn (ep_pipe_read w remote comm_pipe max_read)
       (thn (case s of
           SinkDevNull \<Rightarrow> ret ()
         | SinkStdout \<Rightarrow> handler_upd (\<lambda>h. h\<lparr>stdout_pipes := insert (read_to_generic comm_pipe) (stdout_pipes h)\<rparr>)
         | SinkStderr \<Rightarrow> handler_upd (\<lambda>h. h\<lparr>stderr_pipes := insert (read_to_generic comm_pipe) (stderr_pipes h)\<rparr>)
         | SinkGather _ \<Rightarrow> panic ''explicit panic''
         | SinkPager _ \<Rightarrow> panic ''explicit panic'')
       (ret pairs')))))"

primrec carry_sinks :: "'t wire \<Rightarrow> remote_id \<Rightarrow> (nat \<times> sink option) list \<Rightarrow> pipe_pairs \<Rightarrow>
    ('t front_endpoint, unit) eff" where
  "carry_sinks w remote [] pairs = ret ()"
| "carry_sinks w remote (s # ss) pairs = bnd (carry_sink w remote s pairs) (carry_sinks w remote ss)"

definition carry_plan :: "'t wire \<Rightarrow> plan \<Rightarrow> ('t front_endpoint, bool) eff" where
  "carry_plan w pl = bnd (carry_steps w (steps pl) [] []) (\<lambda>r. case r of
     None \<Rightarrow> ret False
   | Some (pairs, wait) \<Rightarrow>
       bnd (ask_directory w wait) (\<lambda>wait'.
       bnd cur_remote (\<lambda>remote.
       thn (carry_sinks w remote (enumerate 0 (sink_map pl)) pairs)
       (bnd (handler_state waiting_for) (\<lambda>waiting.
       thn (ensure ''waiting_for.len() == 0'' (waiting = []))
       (thn (handler_upd (\<lambda>h. h\<lparr>waiting_for := wait'\<rparr>))
       (ret True)))))))"

section \<open>The main loop\<close>

datatype front_event =
    EvRemote response
  | EvKey
  | EvCtrlC

record ('t, 'r) front =
  fr_receiver :: "front_event list"
  fr_open :: bool
  fr_remote :: "'t front_endpoint"
  fr_reader :: 'r

definition on_remote :: "('t front_endpoint, 'a) eff \<Rightarrow> (('t, 'r) front, 'a) eff" where
  "on_remote m = zoom fr_remote (\<lambda>e s. s\<lparr>fr_remote := e\<rparr>) m"

definition on_reader :: "('r, 'a) eff \<Rightarrow> (('t, 'r) front, 'a) eff" where
  "on_reader m = zoom fr_reader (\<lambda>r s. s\<lparr>fr_reader := r\<rparr>) m"

text \<open>
  The channel: the events still to come, and whether a sender is left when they have come. If so,
  \<open>recv\<close> waits for ever then; if not, the channel is closed and \<open>recv\<close> fails.
\<close>

definition recv :: "(('t, 'r) front, front_event) eff" where
  "recv = bnd (gets fr_receiver) (\<lambda>evs. case evs of
     [] \<Rightarrow> bnd (gets fr_open) (\<lambda>alive. if alive then diverge else fail ''receiving on a closed channel'')
   | ev # evs \<Rightarrow> thn (upd (\<lambda>s. s\<lparr>fr_receiver := evs\<rparr>)) (ret ev))"

text \<open>
  Where the directory a remote printed is written down: without its newline, in the entry of
  the remote. The inner loop leaves at the first entry that took it.
\<close>

fun set_directory :: "remote_id \<Rightarrow> bytes \<Rightarrow> (remote_id \<times> remote_info) list \<Rightarrow>
    (remote_id \<times> remote_info) list outcome" where
  "set_directory remote result [] = Ok []"
| "set_directory remote result ((k, rem) # rs) =
     (if k = remote then
        (if result \<noteq> [] \<and> last result = CHR 0x0A then
           (if valid_utf8 (butlast result)
            then Ok ((k, rem\<lparr>working_dir := butlast result\<rparr>) # rs)
            else Panic ''unwrap'')
         else map_outcome (Cons (k, rem)) (set_directory remote (butlast result) rs))
      else map_outcome (Cons (k, rem)) (set_directory remote result rs))"

definition note_directory :: "remote_id \<times> generic_pipe \<Rightarrow> ('t front_endpoint, unit) eff" where
  "note_directory rs = bnd (handler_state (\<lambda>h. finished_output h (snd rs))) (\<lambda>out.
     thn (handler_upd (\<lambda>h. h\<lparr>finished_output := (finished_output h)(snd rs := None)\<rparr>))
     (bnd (expect ''unwrap'' out) (\<lambda>result.
     bnd (handler_state st_remotes) (\<lambda>remotes.
     bnd (answer (set_directory (fst rs) result remotes)) (\<lambda>remotes'.
     handler_upd (\<lambda>h. h\<lparr>st_remotes := remotes'\<rparr>))))))"

definition drain_directories :: "('t front_endpoint, unit) eff" where
  "drain_directories = bnd (handler_state cwd_for_remote) (\<lambda>entries.
     thn (handler_upd (\<lambda>h. h\<lparr>cwd_for_remote := []\<rparr>))
     (for_each entries note_directory))"

definition prompt :: "('t front_endpoint, string) eff" where
  "prompt = bnd (handler_state st_remotes) (\<lambda>rs.
     bnd (expect ''unwrap'' (if rs = [] then None else Some (snd (last rs)))) (\<lambda>top_remote.
     ret (''['' @ show_nat (length rs) @ '':'' @ hostname top_remote @ ''] '' @
       working_dir top_remote @ ''$ '')))"

definition cancel_all :: "'t wire \<Rightarrow> ('t front_endpoint, unit) eff" where
  "cancel_all w = bnd (handler_state waiting_for) (\<lambda>ids. for_each ids (ext_cancel w))"

definition receive :: "'t wire \<Rightarrow> 't front_os \<Rightarrow> response \<Rightarrow> ('t front_endpoint, unit) eff" where
  "receive w fo msg = ep_receive (stacked_handler w fo) msg"

definition one_loop :: "'t wire \<Rightarrow> 't front_os \<Rightarrow> (string \<Rightarrow> ('r, plan) eff) \<Rightarrow> (('t, 'r) front, bool) eff" where
  "one_loop w fo get_command =
     bnd (on_remote (handler_state (\<lambda>h. (waiting_for_remote h \<noteq> None,
       waiting_for h = [] \<and> waiting_for_eof h = {})))) (\<lambda>(connecting, idle).
     if connecting then bnd recv (\<lambda>msg. case msg of
         EvRemote msg \<Rightarrow> thn (on_remote (receive w fo msg)) (ret True)
       | EvCtrlC \<Rightarrow> panic ''explicit panic''
       | EvKey \<Rightarrow> panic ''explicit panic'')
     else if idle then
       thn (on_remote drain_directories)
       (bnd (on_remote prompt) (\<lambda>p.
       bnd (on_reader (get_command p)) (\<lambda>pl.
       on_remote (carry_plan w pl))))
     else bnd recv (\<lambda>msg. case msg of
         EvRemote msg \<Rightarrow> thn (on_remote (receive w fo msg)) (ret True)
       | EvCtrlC \<Rightarrow> thn (on_remote (cancel_all w)) (ret True)
       | EvKey \<Rightarrow> panic ''explicit panic''))"

text \<open>
  One turn of the thread that reads the backend's output: what it sends to the main loop for what
  \<open>read_line\<close> answered. At the end of the output the line is empty, and as after an error, which is
  only printed, nothing is sent and it reads again.
\<close>

definition reader_turn :: "(bytes \<Rightarrow> response option) \<Rightarrow> error + bytes \<Rightarrow> front_event list outcome" where
  "reader_turn from_str answered = (case answered of
     Inr input \<Rightarrow> if length input = 0 then Ok []
       else (case from_str input of None \<Rightarrow> Panic ''unwrap'' | Some rpc \<Rightarrow> Ok [EvRemote rpc])
   | Inl e \<Rightarrow> Ok [])"

text \<open>\<open>remote_run\<close>, for at most so many turns of the loop.\<close>

primrec remote_run :: "'t wire \<Rightarrow> 't front_os \<Rightarrow> (string \<Rightarrow> ('r, plan) eff) \<Rightarrow> ('r, unit) eff \<Rightarrow> nat \<Rightarrow>
    (('t, 'r) front, unit) eff" where
  "remote_run w fo get_command save_history 0 = diverge"
| "remote_run w fo get_command save_history (Suc n) = bnd (one_loop w fo get_command) (\<lambda>go.
     if go then remote_run w fo get_command save_history n else on_reader save_history)"

section \<open>A plan is carried out as its replay says\<close>

text \<open>A transport that takes every line, and a printer that prints every request.\<close>

definition reliable :: "'t wire \<Rightarrow> bool" where
  "reliable w \<longleftrightarrow> (\<forall>r. request_string w r \<noteq> None) \<and> (\<forall>line t. \<exists>t'. wire_send w line t = (Inr (), t'))"

text \<open>A frontend on a connected remote that waits for nothing.\<close>

definition at_prompt :: "'t front_endpoint \<Rightarrow> bool" where
  "at_prompt e \<longleftrightarrow> st_remotes (ep_handler e) \<noteq> [] \<and>
     ep_remotes e (fst (last (st_remotes (ep_handler e)))) \<noteq> None \<and> waiting_for (ep_handler e) = []"

definition shape :: "pipe_pairs \<Rightarrow> (bool \<times> bool) list" where
  "shape pairs = map (\<lambda>(r, w). (r \<noteq> None, w \<noteq> None)) pairs"

text \<open>\<open>steady e e'\<close>: what carrying out steps leaves of the frontend's state.\<close>

definition steady :: "'t front_endpoint \<Rightarrow> 't front_endpoint \<Rightarrow> bool" where
  "steady e e' \<longleftrightarrow> ep_remotes e' = ep_remotes e \<and>
     st_remotes (ep_handler e') = st_remotes (ep_handler e) \<and>
     waiting_for (ep_handler e') = waiting_for (ep_handler e)"

lemma steady_prompt: "steady e e' \<Longrightarrow> at_prompt e \<Longrightarrow> at_prompt e'"
  by (simp add: steady_def at_prompt_def)

lemma steady_trans: "steady e e1 \<Longrightarrow> steady e1 e2 \<Longrightarrow> steady e e2"
  by (simp add: steady_def)

lemma wp_cur_remote:
  "at_prompt e \<Longrightarrow> wp cur_remote Q E P e = Q (fst (last (st_remotes (ep_handler e)))) e"
  by (simp add: cur_remote_def handler_state_def wp_simps at_prompt_def)

lemma wp_handler_state [wp_simps]: "wp (handler_state f) Q E P e = Q (f (ep_handler e)) e"
  by (simp add: handler_state_def wp_simps)

lemma wp_handler_upd [wp_simps]:
  "wp (handler_upd g) Q E P e = Q () (e\<lparr>ep_handler := g (ep_handler e)\<rparr>)"
  by (simp add: handler_upd_def wp_simps)

lemma returns_ep_pipe: "returns ep_pipe (\<lambda>_ e'. steady e e') e"
  by (simp add: ep_pipe_def wp_simps steady_def)

lemma returns_open_output:
  assumes "reliable w" and "ep_remotes e r \<noteq> None"
  shows "returns (ep_open_output_file w r path) (\<lambda>_ e'. steady e e') e"
proof -
  from assms(1) obtain s where s: "request_string w \<lparr>rq_remote_id = rid_num r,
      rq_message = RqOpenOutputFile (next_id (ep_ids e)) path\<rparr> = Some s"
    unfolding reliable_def by blast
  from assms(1) obtain t where "wire_send w (s @ newline) (ep_trans e) = (Inr (), t)"
    unfolding reliable_def by blast
  with s assms(2) show ?thesis
    by (simp add: ep_open_output_file_def wp_simps steady_def)
qed

lemma returns_command:
  assumes "reliable w" and "ep_remotes e r \<noteq> None"
  shows "returns (ep_command w r c bf ps) (\<lambda>_ e'. steady e e') e"
proof -
  let ?m = "RqBeginCommand bf \<lparr>ap_id = ProcessId (next_id (ep_ids e)), ap_stdin = read_num (w_stdin ps),
     ap_stdout = write_num (w_stdout ps), ap_stderr = write_num (w_stderr ps)\<rparr> c"
  from assms(1) obtain s where s: "request_string w \<lparr>rq_remote_id = rid_num r, rq_message = ?m\<rparr> = Some s"
    unfolding reliable_def by blast
  from assms(1) obtain t where "wire_send w (s @ newline) (ep_trans e) = (Inr (), t)"
    unfolding reliable_def by blast
  with s assms(2) show ?thesis
    by (simp add: ep_command_def Let_def wp_simps steady_def)
qed

lemma returns_send:
  assumes "reliable w"
  shows "returns (ep_send w r m) (\<lambda>_ e'. steady e e' \<and> ep_handler e' = ep_handler e) e"
proof -
  from assms obtain s where s: "request_string w \<lparr>rq_remote_id = rid_num r, rq_message = m\<rparr> = Some s"
    unfolding reliable_def by blast
  from assms obtain t where "wire_send w (s @ newline) (ep_trans e) = (Inr (), t)"
    unfolding reliable_def by blast
  with s show ?thesis by (simp add: wp_simps steady_def)
qed

lemma shape_simps [simp]:
  "length (shape pairs) = length pairs"
  "shape (pairs @ [x]) = shape pairs @ [(fst x \<noteq> None, snd x \<noteq> None)]"
  by (simp_all add: shape_def split: prod.split)

lemma shape_nth: "i < length pairs \<Longrightarrow> shape pairs ! i = (fst (pairs ! i) \<noteq> None, snd (pairs ! i) \<noteq> None)"
  by (simp add: shape_def split: prod.split)

lemma shape_update: "shape (pairs[i := x]) = (shape pairs)[i := (fst x \<noteq> None, snd x \<noteq> None)]"
  by (simp add: shape_def map_update split: prod.split)

lemma wp_take_write:
  "i < length pairs \<Longrightarrow> snd (pairs ! i) = Some p \<Longrightarrow>
   wp (take_write i pairs) Q E P s = Q (p, pairs[i := (fst (pairs ! i), None)]) s"
  by (simp add: take_write_def wp_simps)

lemma wp_take_read:
  "i < length pairs \<Longrightarrow> fst (pairs ! i) = Some p \<Longrightarrow>
   wp (take_read i pairs) Q E P s = Q (p, pairs[i := (None, snd (pairs ! i))]) s"
  by (simp add: take_read_def wp_simps)

lemma take_read_eq:
  "i < length pairs \<Longrightarrow> fst (pairs ! i) = Some p \<Longrightarrow>
   take_read i pairs = ret (p, pairs[i := (None, snd (pairs ! i))])"
  by (simp add: take_read_def eff_defs)

lemma shape_take_ends:
  assumes "ends_free (shape pairs) i o' e"
  shows "\<exists>out err inp pairs1 pairs2 pairs3.
    o' < length pairs \<and> snd (pairs ! o') = Some out \<and> pairs1 = pairs[o' := (fst (pairs ! o'), None)] \<and>
    e < length pairs1 \<and> snd (pairs1 ! e) = Some err \<and> pairs2 = pairs1[e := (fst (pairs1 ! e), None)] \<and>
    i < length pairs2 \<and> fst (pairs2 ! i) = Some inp \<and> pairs3 = pairs2[i := (None, snd (pairs2 ! i))] \<and>
    shape pairs3 = take_ends (shape pairs) i o' e"
proof -
  let ?p1 = "pairs[o' := (fst (pairs ! o'), None)]"
  let ?p2 = "?p1[e := (fst (?p1 ! e), None)]"
  let ?p3 = "?p2[i := (None, snd (?p2 ! i))]"
  from assms have len: "i < length pairs" "o' < length pairs" "e < length pairs" "o' \<noteq> e"
    by (simp_all add: ends_free_def)
  from assms len obtain out err inp where
    ends: "snd (pairs ! o') = Some out" "snd (pairs ! e) = Some err" "fst (pairs ! i) = Some inp"
    by (auto simp: ends_free_def shape_nth)
  have fst: "fst (?p2 ! q) = fst (pairs ! q)" if "q < length pairs" for q
    using that len by (cases "q = e"; cases "q = o'") (simp_all add: nth_list_update)
  have "shape ?p3 = take_ends (shape pairs) i o' e"
  proof (rule nth_equalityI)
    fix q
    assume "q < length (shape ?p3)"
    then have q: "q < length pairs" by simp
    with len show "shape ?p3 ! q = take_ends (shape pairs) i o' e ! q"
      by (cases "q = i"; cases "q = o'"; cases "q = e")
        (simp_all add: shape_nth take_ends_nth nth_list_update)
  qed simp
  with len ends fst [of i] show ?thesis
    by (intro exI [of _ out] exI [of _ err] exI [of _ inp] exI [of _ ?p1] exI [of _ ?p2] exI [of _ ?p3])
      (simp add: nth_list_update)
qed

definition carried_to :: "'t front_endpoint \<Rightarrow> (bool \<times> bool) list \<Rightarrow>
    (pipe_pairs \<times> process_id list) option \<Rightarrow> 't front_endpoint \<Rightarrow> bool" where
  "carried_to e ps r e' \<longleftrightarrow> (\<exists>pairs wait. r = Some (pairs, wait) \<and> shape pairs = ps) \<and> steady e e'"

lemma carry_step_replay:
  assumes w: "reliable w" and e: "at_prompt e" and s: "carried s"
    and ps: "replay [s] (shape pairs) = Some ps"
  shows "returns (carry_step w s pairs wait) (carried_to e ps) e"
proof (cases s)
  case StepPipe
  with ps have "ps = shape pairs @ [(True, True)]" by simp
  then show ?thesis
    by (simp add: StepPipe carry_step_def wp_bnd)
      (rule wp_mono [OF returns_ep_pipe], auto simp: carried_to_def wp_ret)
next
  case (StepRemote r rs)
  have conn: "ep_remotes e (fst (last (st_remotes (ep_handler e)))) \<noteq> None"
    using e by (simp add: at_prompt_def)
  show ?thesis
  proof (cases rs)
    case (OpenOutputFile path)
    with ps StepRemote show ?thesis
      by (auto simp: carry_step_def carried_to_def wp_bnd wp_ret wp_cur_remote [OF e]
          intro!: wp_mono [OF returns_open_output [OF w conn]])
  next
    case (Run c pr)
    with ps StepRemote have free: "ends_free (shape pairs) (proc_stdin pr) (proc_stdout pr) (proc_stderr pr)"
      and ps': "ps = take_ends (shape pairs) (proc_stdin pr) (proc_stdout pr) (proc_stderr pr)"
      by (auto split: if_splits)
    from shape_take_ends [OF free] obtain out err inp pairs1 pairs2 pairs3 where
      p: "proc_stdout pr < length pairs" "snd (pairs ! proc_stdout pr) = Some out"
        "pairs1 = pairs[proc_stdout pr := (fst (pairs ! proc_stdout pr), None)]"
        "proc_stderr pr < length pairs1" "snd (pairs1 ! proc_stderr pr) = Some err"
        "pairs2 = pairs1[proc_stderr pr := (fst (pairs1 ! proc_stderr pr), None)]"
        "proc_stdin pr < length pairs2" "fst (pairs2 ! proc_stdin pr) = Some inp"
        "pairs3 = pairs2[proc_stdin pr := (None, snd (pairs2 ! proc_stdin pr))]"
        "shape pairs3 = take_ends (shape pairs) (proc_stdin pr) (proc_stdout pr) (proc_stderr pr)"
      by blast
    have "carry_step w s pairs wait = bnd cur_remote (\<lambda>remote.
         bnd (take_write (proc_stdout pr) pairs) (\<lambda>(out, pairs1).
         bnd (take_write (proc_stderr pr) pairs1) (\<lambda>(err, pairs2).
         bnd (take_read (proc_stdin pr) pairs2) (\<lambda>(inp, pairs3).
         bnd (ep_command w remote c [] \<lparr>w_stdin = inp, w_stdout = out, w_stderr = err\<rparr>) (\<lambda>pid.
         ret (Some (pairs3, List.insert pid wait)))))))"
      by (simp add: StepRemote Run carry_step_def)
    then show ?thesis
      unfolding wp_bnd
      by (simp add: wp_cur_remote [OF e] wp_take_write [OF p(1,2)] wp_bnd
          wp_take_write [OF p(4,5)] p(3) [symmetric] p(6) [symmetric] wp_take_read [OF p(7,8)]
          p(9) [symmetric])
        (rule wp_mono [OF returns_command [OF w conn]],
          auto simp: wp_ret carried_to_def p(10) ps')
  qed (use s StepRemote in \<open>simp_all add: carried_def\<close>)
qed (use s in \<open>simp_all add: carried_def\<close>)

lemma carry_steps_replay:
  assumes w: "reliable w" and "at_prompt e" and "list_all carried ss"
    and "replay ss (shape pairs) = Some ps"
  shows "returns (carry_steps w ss pairs wait) (carried_to e ps) e"
  using assms(2-4)
proof (induction ss arbitrary: pairs wait e)
  case Nil
  then show ?case by (simp add: wp_simps carried_to_def steady_def)
next
  case (Cons s ss)
  from Cons.prems(3) obtain qs where qs: "replay [s] (shape pairs) = Some qs" "replay ss qs = Some ps"
    using replay_append [of "[s]" ss "shape pairs"] by (cases "replay [s] (shape pairs)") auto
  have s: "carried s" using Cons.prems(2) by simp
  show ?case
    unfolding carry_steps.simps
  proof (rule wp_bndI [OF carry_step_replay [OF w Cons.prems(1) s qs(1)]])
    fix r e1
    assume "carried_to e qs r e1"
    then obtain pairs' wait' where r: "r = Some (pairs', wait')" "shape pairs' = qs" "steady e e1"
      by (auto simp: carried_to_def)
    have "returns (carry_steps w ss pairs' wait') (carried_to e1 ps) e1"
      by (rule Cons.IH) (use Cons.prems r steady_prompt qs(2) in auto)
    then show "returns (case r of None \<Rightarrow> ret None
        | Some (pairs', wait') \<Rightarrow> carry_steps w ss pairs' wait') (carried_to e ps) e1"
      using r by (auto elim!: wp_mono simp: carried_to_def intro: steady_trans)
  qed simp_all
qed

text \<open>
  Operations that cannot fail on a reliable wire while remote \<open>r\<close> is the current one.
\<close>

definition calm :: "remote_id \<Rightarrow> ('t front_endpoint, 'a) eff \<Rightarrow> bool" where
  "calm r m \<longleftrightarrow> (\<forall>e. at_prompt e \<longrightarrow> fst (last (st_remotes (ep_handler e))) = r \<longrightarrow>
     returns m (\<lambda>_. steady e) e)"

named_theorems calm_intros "operations that cannot fail on a reliable wire"

lemma calm_ret [calm_intros]: "calm r (ret a)"
  by (simp add: calm_def wp_simps steady_def)

lemma calm_bnd [calm_intros]:
  fixes m :: "('t front_endpoint, 'a) eff"
  assumes "calm r m" and "\<And>a. calm r (f a)"
  shows "calm r (bnd m f)"
  unfolding calm_def
proof (intro allI impI)
  fix e :: "'t front_endpoint"
  assume e: "at_prompt e" "fst (last (st_remotes (ep_handler e))) = r"
  with assms(1) have "returns m (\<lambda>_. steady e) e" by (simp add: calm_def)
  then show "returns (bnd m f) (\<lambda>_. steady e) e"
  proof (rule wp_bndI)
    fix a and e1 :: "'t front_endpoint"
    assume e1: "steady e e1"
    with e have "at_prompt e1" "fst (last (st_remotes (ep_handler e1))) = r"
      using steady_prompt by (auto simp: steady_def)
    with assms(2) [of a] have "returns (f a) (\<lambda>_. steady e1) e1" by (simp add: calm_def)
    with e1 show "returns (f a) (\<lambda>_. steady e) e1"
      by (auto elim!: wp_mono intro: steady_trans)
  qed auto
qed

lemma calm_thn [calm_intros]: "calm r m \<Longrightarrow> calm r n \<Longrightarrow> calm r (thn m n)"
  unfolding thn_def by (rule calm_bnd)

lemma calm_cur_remote: "calm r (f r) \<Longrightarrow> calm r (bnd cur_remote f)"
  by (simp add: calm_def wp_bnd wp_cur_remote)

lemma calm_pipe [calm_intros]: "calm r ep_pipe"
  unfolding calm_def by (intro allI impI returns_ep_pipe)

lemma calm_handler_upd [calm_intros]:
  "(\<And>h. st_remotes (f h) = st_remotes h \<and> waiting_for (f h) = waiting_for h) \<Longrightarrow> calm r (handler_upd f)"
  by (simp add: calm_def wp_simps steady_def)

lemma calm_command: "reliable w \<Longrightarrow> calm r (ep_command w r c bf ps)"
  unfolding calm_def by (intro allI impI returns_command) (auto simp: at_prompt_def)

lemma calm_send: "reliable w \<Longrightarrow> calm r (ep_send w q m)"
  unfolding calm_def by (auto intro!: wp_mono [OF returns_send])

lemma calm_reads: "reliable w \<Longrightarrow> calm r (ep_pipe_read w q p n)" "reliable w \<Longrightarrow> calm r (ep_pipe_begin_read w q p)"
  by (simp_all add: ep_pipe_read_def ep_pipe_begin_read_def calm_send)

lemma calm_ask_directory:
  assumes "reliable w"
  shows "calm r (ask_directory w wait)"
  unfolding ask_directory_def
  by (intro calm_cur_remote calm_bnd calm_pipe)
    (auto intro!: calm_intros calm_command [OF assms] calm_reads [OF assms] split: prod.split)

definition plain_sink :: "sink \<Rightarrow> bool" where
  "plain_sink s \<longleftrightarrow> s = SinkDevNull \<or> s = SinkStdout \<or> s = SinkStderr"

definition sinkable :: "(nat \<times> sink option) list \<Rightarrow> pipe_pairs \<Rightarrow> bool" where
  "sinkable ss pairs \<longleftrightarrow> distinct (map fst ss) \<and> (\<forall>(i, s) \<in> set ss. case s of None \<Rightarrow> True
     | Some s \<Rightarrow> plain_sink s \<and> i < length pairs \<and> fst (pairs ! i) \<noteq> None)"

lemma calm_sinks:
  assumes w: "reliable w"
  shows "sinkable ss pairs \<Longrightarrow> calm r (carry_sinks w r ss pairs)"
proof (induction ss arbitrary: pairs)
  case Nil
  then show ?case by (simp add: calm_intros)
next
  case (Cons x ss)
  obtain i s where x: "x = (i, s)" by fastforce
  show ?case
  proof (cases s)
    case None
    with Cons x have "calm r (carry_sinks w r ss pairs)" by (auto simp: sinkable_def)
    then show ?thesis by (simp add: x None carry_sink_def calm_def wp_simps)
  next
    case (Some k)
    with Cons.prems x obtain p where p: "plain_sink k" "i < length pairs" "fst (pairs ! i) = Some p"
      by (auto simp: sinkable_def)
    let ?rest = "pairs[i := (None, snd (pairs ! i))]"
    have "sinkable ss ?rest"
      using Cons.prems x by (force simp: sinkable_def nth_list_update split: option.splits)
    then have tail: "calm r (carry_sinks w r ss ?rest)" by (rule Cons.IH)
    let ?m = "thn (ep_pipe_begin_read w r p) (thn (ep_pipe_read w r p max_read)
       (thn (case k of
           SinkDevNull \<Rightarrow> ret ()
         | SinkStdout \<Rightarrow> handler_upd (\<lambda>h. h\<lparr>stdout_pipes := insert (read_to_generic p) (stdout_pipes h)\<rparr>)
         | SinkStderr \<Rightarrow> handler_upd (\<lambda>h. h\<lparr>stderr_pipes := insert (read_to_generic p) (stderr_pipes h)\<rparr>)
         | SinkGather _ \<Rightarrow> panic ''explicit panic''
         | SinkPager _ \<Rightarrow> panic ''explicit panic'')
       (carry_sinks w r ss ?rest)))"
    have "calm r ?m"
      using p(1) tail
      by (auto simp: plain_sink_def intro!: calm_intros calm_reads [OF w])
    moreover have "carry_sinks w r (x # ss) pairs = ?m"
      by (simp add: x Some carry_sink_def take_read_eq [OF p(2,3)] bnd_ret bnd_thn)
    ultimately show ?thesis by simp
  qed
qed

text \<open>A plan the frontend can carry out: its steps replay, and its sinks name pipes to read.\<close>

definition runnable :: "plan \<Rightarrow> bool" where
  "runnable pl \<longleftrightarrow> list_all carried (steps pl) \<and> (\<exists>ps. replay (steps pl) [] = Some ps \<and>
     (\<forall>i < length (sink_map pl). \<forall>s. sink_map pl ! i = Some s \<longrightarrow>
        plain_sink s \<and> i < length ps \<and> fst (ps ! i)))"

lemma ask_directory_waits: "ask_directory w wait e = (Ok r, e') \<Longrightarrow> r \<noteq> []"
  by (auto simp: ask_directory_def ret_def List.insert_def dest!: bnd_OkD thn_OkD split: prod.splits if_splits)

lemma carry_plan_returns:
  assumes w: "reliable w" and e: "at_prompt e" and pl: "runnable pl"
  shows "returns (carry_plan w pl) (\<lambda>go e'. go \<and> st_remotes (ep_handler e') = st_remotes (ep_handler e) \<and>
     waiting_for (ep_handler e') \<noteq> []) e"
proof -
  from pl obtain ps where ps: "list_all carried (steps pl)" "replay (steps pl) [] = Some ps"
    "\<And>i s. i < length (sink_map pl) \<Longrightarrow> sink_map pl ! i = Some s \<Longrightarrow>
      plain_sink s \<and> i < length ps \<and> fst (ps ! i)"
    unfolding runnable_def by blast
  let ?R = "fst (last (st_remotes (ep_handler e)))"
  have steps: "returns (carry_steps w (steps pl) [] []) (carried_to e ps) e"
    by (rule carry_steps_replay [OF w e ps(1)]) (simp add: shape_def ps(2))
  show ?thesis
    unfolding carry_plan_def
  proof (rule wp_bndI [OF steps])
    fix r and e1
    assume "carried_to e ps r e1"
    then obtain pairs wait where r: "r = Some (pairs, wait)" "shape pairs = ps" and st1: "steady e e1"
      by (auto simp: carried_to_def)
    then have e1: "at_prompt e1" "fst (last (st_remotes (ep_handler e1))) = ?R"
      using steady_prompt [OF st1 e] by (auto simp: steady_def)
    have "sinkable (enumerate 0 (sink_map pl)) pairs"
      using ps(3) r(2) by (fastforce simp: sinkable_def in_set_enumerate_eq shape_nth split: option.split)
    from calm_sinks [OF w this, of ?R]
    have sinks: "returns (carry_sinks w ?R (enumerate 0 (sink_map pl)) pairs) (\<lambda>_. steady e2) e2"
      if "at_prompt e2" "fst (last (st_remotes (ep_handler e2))) = ?R" for e2
      using that by (simp add: calm_def)
    have "returns (ask_directory w wait) (\<lambda>_. steady e1) e1"
      using calm_ask_directory [OF w, of ?R] e1 by (simp add: calm_def)
    then have ask: "returns (ask_directory w wait) (\<lambda>r e'. steady e1 e' \<and> r \<noteq> []) e1"
      using ask_directory_waits [of w wait e1] by (auto simp: wp_def split: prod.splits outcome.splits)
    show "returns (case r of None \<Rightarrow> ret False | Some (pairs, wait) \<Rightarrow>
        bnd (ask_directory w wait) (\<lambda>wait'. bnd cur_remote (\<lambda>remote.
        thn (carry_sinks w remote (enumerate 0 (sink_map pl)) pairs)
        (bnd (handler_state waiting_for) (\<lambda>waiting.
        thn (ensure ''waiting_for.len() == 0'' (waiting = []))
        (thn (handler_upd (\<lambda>h. h\<lparr>waiting_for := wait'\<rparr>)) (ret True)))))))
      (\<lambda>go e'. go \<and> st_remotes (ep_handler e') = st_remotes (ep_handler e) \<and>
        waiting_for (ep_handler e') \<noteq> []) e1"
      unfolding r(1) option.case prod.case
    proof (rule wp_bndI [OF ask])
      fix wait' :: "process_id list" and e2
      assume st2: "steady e1 e2 \<and> wait' \<noteq> []"
      then have e2: "at_prompt e2" "fst (last (st_remotes (ep_handler e2))) = ?R"
        using steady_prompt [OF _ e1(1)] e1(2) by (auto simp: steady_def)
      show "returns (bnd cur_remote (\<lambda>remote.
          thn (carry_sinks w remote (enumerate 0 (sink_map pl)) pairs)
          (bnd (handler_state waiting_for) (\<lambda>waiting.
          thn (ensure ''waiting_for.len() == 0'' (waiting = []))
          (thn (handler_upd (\<lambda>h. h\<lparr>waiting_for := wait'\<rparr>)) (ret True))))))
        (\<lambda>go e'. go \<and> st_remotes (ep_handler e') = st_remotes (ep_handler e) \<and>
          waiting_for (ep_handler e') \<noteq> []) e2"
        unfolding wp_bnd wp_cur_remote [OF e2(1)] e2(2) wp_thn
        by (rule wp_mono [OF sinks [OF e2]])
          (use st1 st2 e in \<open>auto simp: wp_simps steady_def at_prompt_def\<close>)
    qed auto
  qed auto
qed

end
