(* ===== verification/Requests.thy ===== *)
theory Requests
  imports Convert Backend Front
begin

text \<open>
  From a typed line to the requests the backend reads: the plan \<open>frontend/src/edit.rs\<close> makes of
  the line is carried out by \<open>frontend/src/main.rs\<close> on the endpoint of \<open>protocol/src/comm.rs\<close>.
  Every plan conversion makes is carried out without an error, and for a pipeline the requests
  are computed, in order and with their numbers.
\<close>

section \<open>A typed line is carried out\<close>

lemma conversion_runnable:
  assumes "valid_utf8 s" and "parse_input s = Ok a" and "\<forall>h cls. a \<noteq> Sequence h cls"
    and "stack rm \<noteq> []" and "parse_command_simple rm p s = Ok pl"
  shows "runnable pl"
proof -
  from conversion_plan [OF assms(1-4), of p] assms(5) obtain ps where
    "list_all carried (steps pl)" "replay (steps pl) [] = Some ps"
    "sink_map pl = [Some SinkStdout, Some SinkStderr]" "fst (ps ! 0)" "fst (ps ! 1)" "2 \<le> length ps"
    by auto
  then show ?thesis
    unfolding runnable_def by (fastforce simp: plain_sink_def less_Suc_eq)
qed

text \<open>
  C24: Whatever line converts is carried out. On a transport that takes every line, a plan made
  from a typed line passes every \<open>take().unwrap()\<close> and every other check on the way: the frontend
  neither fails nor panics, goes on, is still on the same remotes, and waits for some process.
\<close>

theorem line_carried_out:
  assumes "valid_utf8 s" and "parse_input s = Ok a" and "\<forall>h cls. a \<noteq> Sequence h cls"
    and "stack rm \<noteq> []" and "parse_command_simple rm p s = Ok pl"
    and "reliable w" and "at_prompt e"
  shows "returns (carry_plan w pl) (\<lambda>go e'. go \<and> st_remotes (ep_handler e') = st_remotes (ep_handler e) \<and>
     waiting_for (ep_handler e') \<noteq> []) e"
  by (rule carry_plan_returns [OF assms(6,7) conversion_runnable [OF assms(1-5)]])

section \<open>What a pipeline sends\<close>

text \<open>A transport that keeps the lines, and a printer that prints every request.\<close>

definition logging :: "bytes list wire \<Rightarrow> bool" where
  "logging w \<longleftrightarrow> recording w \<and> (\<forall>q. request_string w q \<noteq> None)"

definition line_of :: "'t wire \<Rightarrow> remote_id \<Rightarrow> remote_request \<Rightarrow> bytes" where
  "line_of w r m = the (request_string w \<lparr>rq_remote_id = rid_num r, rq_message = m\<rparr>) @ newline"

lemma wp_send_logging:
  assumes "logging w"
  shows "wp (ep_send w r m) Q E P e = Q () (e\<lparr>ep_trans := ep_trans e @ [line_of w r m]\<rparr>)"
proof -
  from assms obtain s where "request_string w \<lparr>rq_remote_id = rid_num r, rq_message = m\<rparr> = Some s"
    unfolding logging_def by blast
  with assms show ?thesis by (simp add: wp_simps logging_def recording_def line_of_def)
qed

text \<open>
  The number of pipe \<open>i\<close> of a pipeline's plan, when the endpoint's counter is at \<open>n\<close>: every
  stage draws two numbers for pipes and one for its process.
\<close>

definition pipe_at :: "nat \<Rightarrow> nat \<Rightarrow> nat" where
  "pipe_at n i = (if i = 0 then n else n + 1 + 3 * ((i - 1) div 2) + (i - 1) mod 2)"

definition stage_pid :: "nat \<Rightarrow> nat \<Rightarrow> process_id" where
  "stage_pid n k = ProcessId (n + 3 * k + 3)"

definition stage_request :: "nat \<Rightarrow> nat \<times> command \<Rightarrow> remote_request" where
  "stage_request n kc = (case kc of (k, c) \<Rightarrow> RqBeginCommand []
     \<lparr>ap_id = stage_pid n k, ap_stdin = pipe_at n (2 * k + 2), ap_stdout = pipe_at n (2 * k),
      ap_stderr = pipe_at n (2 * k + 1)\<rparr> c)"

definition wired_pairs :: "nat \<Rightarrow> nat \<Rightarrow> pipe_pairs \<Rightarrow> bool" where
  "wired_pairs n k pairs \<longleftrightarrow> length pairs = 2 * k + 1 \<and>
     snd (pairs ! (2 * k)) = Some (WritePipe (pipe_at n (2 * k))) \<and>
     fst (pairs ! 0) = Some (ReadPipe n) \<and> (0 < k \<longrightarrow> fst (pairs ! 1) = Some (ReadPipe (n + 1)))"

definition stage_done :: "'t front_endpoint \<Rightarrow> nat \<Rightarrow> 't \<Rightarrow> 't front_endpoint \<Rightarrow> bool" where
  "stage_done e n t e' \<longleftrightarrow> next_id (ep_ids e') = n \<and> ep_trans e' = t \<and>
     ep_handler e' = ep_handler e \<and> ep_remotes e' = ep_remotes e \<and> ep_pipes e \<subseteq> ep_pipes e'"

lemma wired_pairs_Suc:
  assumes "wired_pairs n k pairs"
  shows "wired_pairs n (Suc k) ((pairs @ [(Some (ReadPipe (Suc (n + 3 * k))), Some (WritePipe (Suc (n + 3 * k)))),
      (Some (ReadPipe (Suc (Suc (n + 3 * k)))), Some (WritePipe (Suc (Suc (n + 3 * k)))))])
    [2 * k := (fst (pairs ! (2 * k)), None),
     Suc (2 * k) := (Some (ReadPipe (Suc (n + 3 * k))), None),
     Suc (Suc (2 * k)) := (None, Some (WritePipe (Suc (Suc (n + 3 * k)))))])"
  using assms
  by (cases k) (auto simp: wired_pairs_def pipe_at_def nth_append nth_list_update)

lemma carry_stage:
  assumes w: "logging w" and e: "at_prompt e" "next_id (ep_ids e) = n + 3 * k + 1"
    and pairs: "wired_pairs n k pairs"
  shows "returns (carry_steps w (stage r (k, c)) pairs wait) (\<lambda>res e'.
     (\<exists>pairs'. res = Some (pairs', List.insert (stage_pid n k) wait) \<and> wired_pairs n (Suc k) pairs') \<and>
     stage_done e (n + 3 * Suc k + 1)
       (ep_trans e @ [line_of w (fst (last (st_remotes (ep_handler e)))) (stage_request n (k, c))]) e' \<and>
     pipe_at n (2 * k + 1) \<in> ep_pipes e') e"
proof -
  from pairs have len: "length pairs = 2 * k + 1" "snd (pairs ! (2 * k)) = Some (WritePipe (pipe_at n (2 * k)))"
    by (simp_all add: wired_pairs_def)
  have at: "pipe_at n (Suc (Suc (2 * k))) = Suc (Suc (n + 3 * k))" "pipe_at n (Suc (2 * k)) = Suc (n + 3 * k)"
    by (simp_all add: pipe_at_def)
  show ?thesis
    using w e len wired_pairs_Suc [OF pairs]
    by (simp add: stage_def carry_step_def ep_pipe_def ep_command_def Let_def take_write_def take_read_def
        wp_simps wp_cur_remote at_prompt_def wp_send_logging nth_append nth_list_update
        stage_pid_def stage_request_def stage_done_def at subset_insertI2 numeral_3_eq_3 del: wp_ep_send)
qed

lemma carry_steps_append:
  "carry_steps w (ss @ ts) pairs wait = bnd (carry_steps w ss pairs wait) (\<lambda>r. case r of
     None \<Rightarrow> ret None | Some (pairs', wait') \<Rightarrow> carry_steps w ts pairs' wait')"
  by (induction ss arbitrary: pairs wait)
    (auto simp: bnd_def ret_def fun_eq_iff split: prod.split outcome.split option.split)

lemma stage_done_trans:
  "stage_done e n t e1 \<Longrightarrow> stage_done e1 m u e2 \<Longrightarrow> stage_done e m u e2"
  by (auto simp: stage_done_def)

lemma carry_stages:
  assumes w: "logging w" and "at_prompt e" and "next_id (ep_ids e) = n + 3 * k + 1"
    and "wired_pairs n k pairs" and "distinct wait"
  shows "returns (carry_steps w (concat (map (stage r) (enumerate k cs))) pairs wait) (\<lambda>res e'.
     (\<exists>pairs' wait'. res = Some (pairs', wait') \<and> wired_pairs n (k + length cs) pairs' \<and> distinct wait' \<and>
        set wait' = set wait \<union> stage_pid n ` {k..<k + length cs}) \<and>
     stage_done e (n + 3 * (k + length cs) + 1) (ep_trans e @
       map (line_of w (fst (last (st_remotes (ep_handler e)))) \<circ> stage_request n) (enumerate k cs)) e' \<and>
     (\<forall>j\<in>{k..<k + length cs}. pipe_at n (2 * j + 1) \<in> ep_pipes e')) e"
  using assms(2-)
proof (induction cs arbitrary: k pairs wait e)
  case Nil
  then show ?case by (auto simp: wp_simps stage_done_def)
next
  case (Cons c cs)
  let ?R = "fst (last (st_remotes (ep_handler e)))"
  have upt: "{k..<Suc (k + length cs)} = insert k {Suc k..<Suc (k + length cs)}" by auto
  show ?case
    unfolding enumerate_simps list.map concat.simps carry_steps_append
  proof (rule wp_bndI [OF carry_stage [OF w Cons.prems(1-3)]])
    fix res and e1 :: "bytes list front_endpoint"
    assume "(\<exists>pairs'. res = Some (pairs', List.insert (stage_pid n k) wait) \<and> wired_pairs n (Suc k) pairs') \<and>
      stage_done e (n + 3 * Suc k + 1) (ep_trans e @ [line_of w ?R (stage_request n (k, c))]) e1 \<and>
      pipe_at n (2 * k + 1) \<in> ep_pipes e1"
    then obtain pairs1 where res: "res = Some (pairs1, List.insert (stage_pid n k) wait)"
      and p1: "wired_pairs n (Suc k) pairs1"
      and e1: "stage_done e (n + 3 * Suc k + 1) (ep_trans e @ [line_of w ?R (stage_request n (k, c))]) e1"
      and at: "pipe_at n (2 * k + 1) \<in> ep_pipes e1"
      by auto
    have "at_prompt e1" "next_id (ep_ids e1) = n + 3 * Suc k + 1" "distinct (List.insert (stage_pid n k) wait)"
      using e1 Cons.prems(1,4) by (simp_all add: stage_done_def at_prompt_def)
    note IH = Cons.IH [OF this(1,2) p1 this(3)]
    show "returns (case res of None \<Rightarrow> ret None
        | Some (pairs', wait') \<Rightarrow> carry_steps w (concat (map (stage r) (enumerate (Suc k) cs))) pairs' wait')
      (\<lambda>res e'. (\<exists>pairs' wait'. res = Some (pairs', wait') \<and> wired_pairs n (k + length (c # cs)) pairs' \<and>
          distinct wait' \<and> set wait' = set wait \<union> stage_pid n ` {k..<k + length (c # cs)}) \<and>
        stage_done e (n + 3 * (k + length (c # cs)) + 1) (ep_trans e @
          (line_of w ?R \<circ> stage_request n) (k, c) #
          map (line_of w ?R \<circ> stage_request n) (enumerate (Suc k) cs)) e' \<and>
        (\<forall>j\<in>{k..<k + length (c # cs)}. pipe_at n (2 * j + 1) \<in> ep_pipes e')) e1"
      unfolding res option.case prod.case
      by (rule wp_mono [OF IH]) (use e1 at in \<open>auto simp: upt stage_done_def\<close>)
  qed simp_all
qed


text \<open>The requests that follow the stages, the counter being at \<open>n\<close>, and what they leave.\<close>

definition directory_requests :: "nat \<Rightarrow> (process_id \<times> condition) list \<Rightarrow> remote_request list" where
  "directory_requests n bf =
     [RqBeginCommand bf \<lparr>ap_id = ProcessId (n + 3), ap_stdin = n + 2, ap_stdout = n, ap_stderr = n + 1\<rparr> GetDirectory,
      RqPipe \<lparr>env_id = n, env_msg = BeginRead\<rparr>, RqPipe \<lparr>env_id = n + 1, env_msg = BeginRead\<rparr>,
      RqPipe \<lparr>env_id = n, env_msg = Read max_read\<rparr>, RqPipe \<lparr>env_id = n + 1, env_msg = Read max_read\<rparr>]"

definition read_requests :: "nat \<Rightarrow> remote_request list" where
  "read_requests i = [RqPipe \<lparr>env_id = i, env_msg = BeginRead\<rparr>, RqPipe \<lparr>env_id = i, env_msg = Read max_read\<rparr>]"

definition directory_asked :: "bytes list wire \<Rightarrow> process_id list \<Rightarrow> bytes list front_endpoint \<Rightarrow>
    process_id list \<Rightarrow> bytes list front_endpoint \<Rightarrow> bool" where
  "directory_asked w wait e wait' e' \<longleftrightarrow>
     (let n = next_id (ep_ids e); h = ep_handler e; r = fst (last (st_remotes h)) in
     set wait' = insert (ProcessId (n + 3)) (set wait) \<and>
     ep_trans e' = ep_trans e @ map (line_of w r) (directory_requests n (map (\<lambda>p. (p, None)) wait)) \<and>
     ep_remotes e' = ep_remotes e \<and> ep_pipes e \<subseteq> ep_pipes e' \<and> {n, n + 1} \<subseteq> ep_pipes e' \<and>
     ep_handler e' = h\<lparr>gathering_output := (gathering_output h)(GenericPipe n \<mapsto> []),
       waiting_for_eof := insert (GenericPipe n) (waiting_for_eof h),
       stderr_pipes := insert (GenericPipe (n + 1)) (stderr_pipes h),
       cwd_for_remote := map_insert r (GenericPipe n) (cwd_for_remote h)\<rparr>)"

lemma ask_directory_logs:
  "logging w \<Longrightarrow> at_prompt e \<Longrightarrow> returns (ask_directory w wait) (directory_asked w wait e) e"
  by (simp add: ask_directory_def ep_pipe_def ep_command_def ep_pipe_begin_read_def ep_pipe_read_def Let_def
      wp_simps wp_cur_remote at_prompt_def wp_send_logging directory_requests_def directory_asked_def
      subset_insertI2 numeral_3_eq_3 del: wp_ep_send)

lemma carry_sinks_logs:
  assumes "logging w" and "wired_pairs n k pairs" and "0 < k"
  shows "returns (carry_sinks w R (enumerate 0 [Some SinkStdout, Some SinkStderr]) pairs) (\<lambda>_ e'.
     ep_trans e' = ep_trans e @ map (line_of w R) (read_requests n @ read_requests (n + 1)) \<and>
     ep_remotes e' = ep_remotes e \<and> ep_pipes e' = ep_pipes e \<and>
     ep_handler e' = (ep_handler e)\<lparr>
       stdout_pipes := insert (GenericPipe n) (stdout_pipes (ep_handler e)),
       stderr_pipes := insert (GenericPipe (n + 1)) (stderr_pipes (ep_handler e))\<rparr>) e"
  using assms
  by (simp add: carry_sink_def take_read_def ep_pipe_begin_read_def ep_pipe_read_def wp_simps
      wp_send_logging read_requests_def wired_pairs_def del: wp_ep_send)


definition waiting_pids :: "nat \<Rightarrow> nat \<Rightarrow> process_id set" where
  "waiting_pids n k = stage_pid n ` {..<k}"

definition pipeline_sent :: "bytes list wire \<Rightarrow> command list \<Rightarrow> bytes list front_endpoint \<Rightarrow>
    bytes list front_endpoint \<Rightarrow> bool" where
  "pipeline_sent w ms e e' \<longleftrightarrow>
     (let n = next_id (ep_ids e); d = n + 3 * length ms + 1; r = fst (last (st_remotes (ep_handler e)));
          pids = waiting_pids n (length ms); h = ep_handler e in
     (\<exists>bf. distinct bf \<and> set bf = (\<lambda>p. (p, None)) ` pids \<and>
        ep_trans e' = ep_trans e @ map (line_of w r) (map (stage_request n) (enumerate 0 (rev ms)) @
          directory_requests d bf @ read_requests n @ read_requests (n + 1))) \<and>
     {n, n + 1, d, d + 1} \<subseteq> ep_pipes e' \<and>
     (\<exists>wait. set wait = insert (ProcessId (d + 3)) pids \<and> ep_handler e' = h\<lparr>waiting_for := wait,
        stdout_pipes := insert (GenericPipe n) (stdout_pipes h),
        stderr_pipes := insert (GenericPipe (n + 1)) (insert (GenericPipe (d + 1)) (stderr_pipes h)),
        gathering_output := (gathering_output h)(GenericPipe d \<mapsto> []),
        waiting_for_eof := insert (GenericPipe d) (waiting_for_eof h),
        cwd_for_remote := map_insert r (GenericPipe d) (cwd_for_remote h)\<rparr>))"

lemma pipeline_steps:
  assumes "logging w" and "at_prompt e" and "next_id (ep_ids e) = n"
  shows "returns (carry_steps w (steps (wired_plan r ms)) [] []) (\<lambda>res e'.
     (\<exists>pairs wait. res = Some (pairs, wait) \<and> wired_pairs n (length ms) pairs \<and> distinct wait \<and>
       set wait = waiting_pids n (length ms)) \<and>
     stage_done e (n + 3 * length ms + 1) (ep_trans e @ map (line_of w (fst (last (st_remotes (ep_handler e)))))
       (map (stage_request n) (enumerate 0 (rev ms)))) e' \<and> n \<in> ep_pipes e' \<and>
     (0 < length ms \<longrightarrow> n + 1 \<in> ep_pipes e')) e"
proof -
  let ?e = "e\<lparr>ep_ids := (ep_ids e)\<lparr>next_id := Suc n\<rparr>, ep_pipes := insert n (ep_pipes e)\<rparr>"
  have "wired_pairs n 0 [(Some (ReadPipe n), Some (WritePipe n))]"
    by (simp add: wired_pairs_def pipe_at_def)
  from carry_stages [OF assms(1) _ _ this, of ?e "[]" r "rev ms"] assms
  show ?thesis
    by (simp add: wired_plan_def stages_def carry_step_def ep_pipe_def wp_simps at_prompt_def stage_done_def
        waiting_pids_def lessThan_atLeast0)
      (rule wp_mono, assumption, auto simp: pipe_at_def dest: bspec [where x = 0])
qed

lemma wired_plan_requests:
  assumes "logging w" and "at_prompt e" and "ms \<noteq> []"
  shows "returns (carry_plan w (wired_plan r ms)) (\<lambda>go e'. go \<and> pipeline_sent w ms e e') e"
  unfolding carry_plan_def
proof (rule wp_bndI [OF pipeline_steps [OF assms(1,2) refl]])
  let ?n = "next_id (ep_ids e)" and ?R = "fst (last (st_remotes (ep_handler e)))"
  fix res and e1 :: "bytes list front_endpoint"
  assume "(\<exists>pairs wait. res = Some (pairs, wait) \<and> wired_pairs ?n (length ms) pairs \<and> distinct wait \<and>
      set wait = waiting_pids ?n (length ms)) \<and>
    stage_done e (?n + 3 * length ms + 1)
      (ep_trans e @ map (line_of w ?R) (map (stage_request ?n) (enumerate 0 (rev ms)))) e1 \<and>
    ?n \<in> ep_pipes e1 \<and> (0 < length ms \<longrightarrow> ?n + 1 \<in> ep_pipes e1)"
  then obtain pairs wait where res: "res = Some (pairs, wait)" "wired_pairs ?n (length ms) pairs"
    "distinct wait" "set wait = waiting_pids ?n (length ms)"
    and e1: "stage_done e (?n + 3 * length ms + 1)
      (ep_trans e @ map (line_of w ?R) (map (stage_request ?n) (enumerate 0 (rev ms)))) e1"
    "?n \<in> ep_pipes e1" "?n + 1 \<in> ep_pipes e1"
    using assms(3) by auto
  have at1: "at_prompt e1" using e1 assms(2) by (simp add: stage_done_def at_prompt_def)
  show "returns (case res of None \<Rightarrow> ret False | Some (pairs, wait) \<Rightarrow>
      bnd (ask_directory w wait) (\<lambda>wait'. bnd cur_remote (\<lambda>remote.
      thn (carry_sinks w remote (enumerate 0 (sink_map (wired_plan r ms))) pairs)
      (bnd (handler_state waiting_for) (\<lambda>waiting.
      thn (ensure ''waiting_for.len() == 0'' (waiting = []))
      (thn (handler_upd (\<lambda>h. h\<lparr>waiting_for := wait'\<rparr>)) (ret True)))))))
    (\<lambda>go e'. go \<and> pipeline_sent w ms e e') e1"
    unfolding res(1) option.case prod.case
  proof (rule wp_bndI [OF ask_directory_logs [OF assms(1) at1]])
    fix wait' and e2 :: "bytes list front_endpoint"
    assume e2: "directory_asked w wait e1 wait' e2"
    have at: "at_prompt e2" "fst (last (st_remotes (ep_handler e2))) = ?R"
      using assms(2) e1 e2 by (simp_all add: at_prompt_def stage_done_def directory_asked_def Let_def)
    have bf: "distinct (map (\<lambda>p. (p, None :: condition)) wait)"
      using res(3) by (auto simp: distinct_map inj_on_def)
    have k: "0 < length ms" using assms(3) by simp
    show "returns (bnd cur_remote (\<lambda>remote.
        thn (carry_sinks w remote (enumerate 0 (sink_map (wired_plan r ms))) pairs)
        (bnd (handler_state waiting_for) (\<lambda>waiting.
        thn (ensure ''waiting_for.len() == 0'' (waiting = []))
        (thn (handler_upd (\<lambda>h. h\<lparr>waiting_for := wait'\<rparr>)) (ret True))))))
      (\<lambda>go e'. go \<and> pipeline_sent w ms e e') e2"
      unfolding wp_bnd wp_cur_remote [OF at(1)] at(2) wp_thn wired_plan_def plan.simps
      by (rule wp_mono [OF carry_sinks_logs [OF assms(1) res(2) k]])
        (use bf e1 e2 res(4) assms(2) in \<open>auto simp: wp_simps at_prompt_def stage_done_def directory_asked_def
          pipeline_sent_def Let_def intro!: exI [of _ "map (\<lambda>p. (p, None)) wait"]\<close>)
  qed auto
qed auto

text \<open>
  C9: What a typed pipeline makes the frontend send. For a line read as \<open>c1 | ... | cn\<close> the frontend
  sends exactly: one request per command, from the last to the first, each to start at once, its
  output going to the pipe the next command reads; one request for the working directory that
  waits for all of them, with the requests to read its two pipes; and the requests to read the
  pipeline's output and error. It then waits for these processes and for the end of the
  directory's output, and shows the two pipes of the pipeline on the terminal.
\<close>

theorem pipeline_requests:
  assumes "parse_input s = Ok (pipeline_ast c cs)" and "stack rm \<noteq> []"
    and "map (convert_single p) (c # cs) = map Ok ms" and "parse_command_simple rm p s = Ok pl"
    and "logging w" and "at_prompt e"
  shows "returns (carry_plan w pl) (\<lambda>go e'. go \<and> pipeline_sent w ms e e') e"
proof -
  from assms(4) pipeline_converts [OF assms(1-3)] have "pl = wired_plan (last (stack rm)) ms" by simp
  moreover from assms(3) have "ms \<noteq> []" by (cases ms) auto
  ultimately show ?thesis using wired_plan_requests [OF assms(5,6)] by simp
qed

section \<open>Concrete lines carried out\<close>

text \<open>The frontend of a session whose backend has reported itself.\<close>

definition connected :: "'t \<Rightarrow> remote_info \<Rightarrow> 't front_endpoint" where
  "connected t info = (launched t)\<lparr>ep_handler := stacked_new\<lparr>st_remotes := [(ep_root, info)]\<rparr>\<rparr>"

lemma connected_prompt: "at_prompt (connected t info)"
  by (simp add: connected_def launched_def ep_new_def stacked_new_def at_prompt_def ep_root_def)

definition demo_info :: remote_info where
  "demo_info = \<lparr>hostname = ''host'', username = ''user'', working_dir = ''/''\<rparr>"

definition log_front :: "bytes list front_endpoint" where
  "log_front = connected [] demo_info"

lemma log_wire_laws: "reliable log_wire" "recording log_wire" "logging log_wire"
  by (simp_all add: reliable_def recording_def logging_def log_wire_def)

definition piped_plan :: plan where
  "piped_plan = wired_plan (RemoteRef 0) [Unknown ''ls'' [''x''], Unknown ''wc'' [''-l'']]"

lemma piped_plan: "parse_command_simple root_only prefs_default piped_line = Ok piped_plan"
  using pipeline_converts [OF piped_parse [unfolded piped_ast_def] _ piped_converts, of root_only]
  by (simp add: piped_plan_def)

lemma piped_valid: "valid_utf8 piped_line"
  by code_simp

lemma line_carried_out_witness:
  "returns (carry_plan log_wire piped_plan) (\<lambda>go e'. go \<and>
     st_remotes (ep_handler e') = st_remotes (ep_handler log_front) \<and> waiting_for (ep_handler e') \<noteq> [])
     log_front"
  unfolding log_front_def
  by (rule line_carried_out [OF piped_valid piped_parse _ _ piped_plan log_wire_laws(1) connected_prompt])
    (simp_all add: piped_ast_def pipeline_ast_def)

lemma pipeline_requests_witness:
  "returns (carry_plan log_wire piped_plan) (\<lambda>go e'. go \<and>
     pipeline_sent log_wire [Unknown ''ls'' [''x''], Unknown ''wc'' [''-l'']] log_front e') log_front"
  unfolding log_front_def
  by (rule pipeline_requests [OF piped_parse [unfolded piped_ast_def] _ piped_converts piped_plan
        log_wire_laws(3) connected_prompt]) simp

end
