(* ===== verification/Delivery.thy ===== *)
theory Delivery
  imports Requests
begin

text \<open>
  From the backend's executor to the frontend's handler: what \<open>backend/src/exec.rs\<close> reports goes
  out as response lines through \<open>StdoutTransport\<close>, is read back by the thread \<open>launch_backend\<close>
  starts, and reaches the \<open>StackedRemotes\<close> of \<open>frontend/src/comm.rs\<close>. The theorems follow a
  command's output, the working directory and an interrupt along this way.
\<close>

section \<open>The stream of lines\<close>

text \<open>What \<open>read_line\<close> takes from a stream, and the lines a reader gets from it one after another.\<close>

fun read_line :: "bytes \<Rightarrow> bytes \<times> bytes" where
  "read_line [] = ([], [])"
| "read_line (c # cs) = (if c = CHR 0x0A then ([c], cs) else (case read_line cs of (l, r) \<Rightarrow> (c # l, r)))"

lemma read_line_shorter: "read_line (c # cs) = (l, r) \<Longrightarrow> length r < Suc (length cs)"
proof (induction cs arbitrary: c l r)
  case (Cons d ds)
  then show ?case by (cases "read_line (d # ds)") (fastforce split: if_splits prod.splits)
qed (auto split: if_splits)

function read_lines :: "bytes \<Rightarrow> bytes list" where
  "read_lines stream = (if stream = [] then [] else (case read_line stream of (l, r) \<Rightarrow> l # read_lines r))"
  by auto
termination
  by (relation "measure length") (auto simp: neq_Nil_conv dest: read_line_shorter [OF sym])

declare read_lines.simps [simp del]

lemma read_line_whole: "CHR 0x0A \<notin> set s \<Longrightarrow> read_line (s @ newline @ r) = (s @ newline, r)"
  by (induction s) (auto simp: newline_def)

lemma read_lines_lines:
  "list_all (\<lambda>s. CHR 0x0A \<notin> set s) ss \<Longrightarrow>
   read_lines (concat (map (\<lambda>s. s @ newline) ss)) = map (\<lambda>s. s @ newline) ss"
proof (induction ss)
  case Nil
  then show ?case by (simp add: read_lines.simps)
next
  case (Cons s ss)
  then show ?case
    using read_line_whole [of s "concat (map (\<lambda>s. s @ newline) ss)"]
    by (subst read_lines.simps) (simp add: newline_def)
qed

text \<open>The printer prints each of these messages, without a newline inside.\<close>

definition one_line_each :: "'t wire \<Rightarrow> remote_response list \<Rightarrow> bool" where
  "one_line_each w ms \<longleftrightarrow> list_all (\<lambda>m. case response_string w \<lparr>rs_remote_id = 0, rs_message = m\<rparr> of
     None \<Rightarrow> False | Some s \<Rightarrow> CHR 0x0A \<notin> set s) ms"

text \<open>A standard output that takes whole lines, and one that takes at most \<open>k\<close> bytes of each.\<close>

definition full_writes :: "bytes wire \<Rightarrow> bool" where
  "full_writes w \<longleftrightarrow> wire_send w = stdout_send (\<lambda>d t. (Inr (length d), t @ d)) (\<lambda>t. (Inr (), t))"

definition short_writes :: "nat \<Rightarrow> bytes wire \<Rightarrow> bool" where
  "short_writes k w \<longleftrightarrow> wire_send w = stdout_send (\<lambda>d t. (Inr (min k (length d)), t @ take k d)) (\<lambda>t. (Inr (), t))"

definition sent_line :: "'t wire \<Rightarrow> remote_response \<Rightarrow> bytes" where
  "sent_line w m = the (response_string w \<lparr>rs_remote_id = 0, rs_message = m\<rparr>)"

lemma send_on_stream:
  assumes "full_writes w" and "response_string w \<lparr>rs_remote_id = 0, rs_message = m\<rparr> \<noteq> None"
  shows "bk_send w m b = (Ok (), b\<lparr>bk_trans := bk_trans b @ sent_line w m @ newline\<rparr>)"
  using assms
  by (auto simp: bk_send_def ser_to_frontend_def full_writes_def stdout_send_def write_flush_def sent_line_def
      eff_defs)

lemma send_all_on_stream:
  "full_writes w \<Longrightarrow> one_line_each w ms \<Longrightarrow> for_each ms (bk_send w) b =
    (Ok (), b\<lparr>bk_trans := bk_trans b @ concat (map (\<lambda>m. sent_line w m @ newline) ms)\<rparr>)"
proof (induction ms arbitrary: b)
  case (Cons m ms)
  then have "response_string w \<lparr>rs_remote_id = 0, rs_message = m\<rparr> \<noteq> None" "one_line_each w ms"
    by (auto simp: one_line_each_def split: option.splits)
  with Cons show ?case by (simp add: send_on_stream thn_def bnd_def)
qed (simp add: ret_def)

text \<open>
  C25: The stream of bytes carries the messages. When the standard output takes whole lines and the
  printer prints no newline inside a message, reading the stream line by line gives back exactly
  the responses the backend sent, in order, however many there are.
\<close>

theorem stream_carries_messages:
  assumes "full_writes w" and "one_line_each w ms" and "faithful (response_string w) from_str"
  shows "\<exists>b'. for_each ms (bk_send w) (bk_new []) = (Ok (), b') \<and>
     map from_str (read_lines (bk_trans b')) = map (\<lambda>m. Some \<lparr>rs_remote_id = 0, rs_message = m\<rparr>) ms"
proof -
  have line: "CHR 0x0A \<notin> set (sent_line w m) \<and>
      from_str (sent_line w m @ newline) = Some \<lparr>rs_remote_id = 0, rs_message = m\<rparr>" if "m \<in> set ms" for m
    using assms(2,3) that
    by (auto simp: one_line_each_def list_all_iff sent_line_def faithful_def split: option.splits)
  then have "read_lines (concat (map (\<lambda>m. sent_line w m @ newline) ms)) = map (\<lambda>m. sent_line w m @ newline) ms"
    using read_lines_lines [of "map (sent_line w) ms"] by (simp add: list_all_iff comp_def)
  with line show ?thesis
    by (simp add: send_all_on_stream [OF assms(1,2)] bk_new_def)
qed

text \<open>
  A short write loses the rest of a line without an error. The transport does not look at how
  much \<open>write\<close> took: when it takes fewer bytes than the line has, \<open>send\<close> returns \<open>Ok\<close>, the line's
  newline is never written, and the next message is glued to the part that was.
\<close>

lemma short_write_unnoticed:
  assumes "short_writes k w" and "response_string w \<lparr>rs_remote_id = 0, rs_message = m\<rparr> = Some s"
    and "k \<le> length s"
  shows "bk_send w m b = (Ok (), b\<lparr>bk_trans := bk_trans b @ take k s\<rparr>)"
  using assms by (simp add: bk_send_def ser_to_frontend_def short_writes_def stdout_send_def write_flush_def eff_defs)

section \<open>What a pipe carries arrives\<close>

text \<open>
  A line of the backend's output on its way through the frontend: the reading thread turns it
  into an event, and the main loop receives it.
\<close>

definition deliver_line :: "(bytes \<Rightarrow> response option) \<Rightarrow> 't wire \<Rightarrow> 't front_os \<Rightarrow> bytes \<Rightarrow>
    ('t front_endpoint, unit) eff" where
  "deliver_line from_str w fo line = bnd (answer (reader_turn from_str (Inr line))) (\<lambda>evs.
     for_each evs (\<lambda>ev. case ev of EvRemote msg \<Rightarrow> receive w fo msg | _ \<Rightarrow> panic ''explicit panic''))"

definition deliver :: "(bytes \<Rightarrow> response option) \<Rightarrow> 't wire \<Rightarrow> 't front_os \<Rightarrow> bytes list \<Rightarrow>
    ('t front_endpoint, unit) eff" where
  "deliver from_str w fo lines = for_each lines (deliver_line from_str w fo)"

definition pipe_response :: "generic_pipe \<Rightarrow> pipe_message \<Rightarrow> response" where
  "pipe_response p m = \<lparr>rs_remote_id = 0, rs_message = RsPipe \<lparr>env_id = pipe_num p, env_msg = m\<rparr>\<rparr>"

definition reader_messages :: "bytes list \<Rightarrow> pipe_message list" where
  "reader_messages chunks = map (\<lambda>d. Data d 0) chunks @ [Closed 0]"

definition carries :: "(bytes \<Rightarrow> response option) \<Rightarrow> bytes list \<Rightarrow> generic_pipe \<Rightarrow> pipe_message list \<Rightarrow> bool" where
  "carries from_str lines p ms \<longleftrightarrow> [] \<notin> set lines \<and> map from_str lines = map (Some \<circ> pipe_response p) ms"

lemma send_response:
  assumes "faithful (response_string wb) from_str" and "recording wb"
    and "bk_send wb m b = (Ok (), b')"
  shows "\<exists>line. bk_trans b' = bk_trans b @ [line] \<and> line \<noteq> [] \<and>
    from_str line = Some \<lparr>rs_remote_id = 0, rs_message = m\<rparr>"
proof (cases "response_string wb \<lparr>rs_remote_id = 0, rs_message = m\<rparr>")
  case None
  with assms(3) show ?thesis by (simp add: bk_send_def ser_to_frontend_def eff_defs)
next
  case (Some str)
  have "wp (bk_send wb m) (\<lambda>_ u. bk_trans u = bk_trans b @ [str @ newline]) (\<lambda>_ _. True) (\<lambda>_ _. True) b"
    using assms(2) Some by (simp add: wp_simps recording_def)
  then have "bk_trans b' = bk_trans b @ [str @ newline]"
    using assms(3) by (rule wp_runD)
  moreover have "from_str (str @ newline) = Some \<lparr>rs_remote_id = 0, rs_message = m\<rparr>"
    using assms(1) Some by (simp add: faithful_def)
  ultimately show ?thesis by (simp add: newline_def)
qed

lemma to_write_num [simp]: "write_num (to_write p) = pipe_num p"
  by (simp add: to_write_def)

lemma handler_ran: "unwrap (on_handler m) s = (Ok a, s') \<Longrightarrow> m (ex_handler s) = (Ok a, ex_handler s')"
  by (auto simp: unwrap_def on_handler_def zoom_def split: prod.splits outcome.splits)

lemma reader_events_handled:
  "handle_event os (exec_handler_impl wb) fuel (EvPipeOutput p d off) =
     unwrap (on_handler (bk_send wb (rs_message (pipe_response p (Data d off)))))"
  "handle_event os (exec_handler_impl wb) fuel (EvPipeClosed p off) =
     unwrap (on_handler (bk_send wb (rs_message (pipe_response p (Closed off)))))"
  by (simp_all add: handle_event_def exec_handler_impl_def bk_pipe_data_def bk_pipe_closed_def pipe_response_def)

lemma handled_OkD:
  "run_handler os eh fuel (ev # evs) s = (Ok (), s') \<Longrightarrow>
   \<exists>u. handle_event os eh fuel ev s = (Ok (), u) \<and> run_handler os eh fuel evs u = (Ok (), s')"
  by (auto simp: run_handler_def dest!: thn_OkD)

lemma send_pipe_response:
  assumes "faithful (response_string wb) from_str" and "recording wb"
    and "unwrap (on_handler (bk_send wb (rs_message (pipe_response p m)))) s = (Ok (), s')"
  shows "\<exists>line. bk_trans (ex_handler s') = bk_trans (ex_handler s) @ [line] \<and> line \<noteq> [] \<and>
    from_str line = Some (pipe_response p m)"
  using send_response [OF assms(1,2) handler_ran [OF assms(3)]] by (simp add: pipe_response_def)

lemma reader_output_sent:
  assumes "faithful (response_string wb) from_str" and "recording wb"
    and "run_handler os (exec_handler_impl wb) fuel (reader_events p chunks) s = (Ok (), s')"
  shows "\<exists>lines. bk_trans (ex_handler s') = bk_trans (ex_handler s) @ lines \<and>
    carries from_str lines p (reader_messages chunks)"
  using assms(3)
proof (induction chunks arbitrary: s)
  case Nil
  then have "unwrap (on_handler (bk_send wb (rs_message (pipe_response p (Closed 0))))) s = (Ok (), s')"
    by (auto simp: reader_events_def reader_events_handled run_handler_def ret_def dest!: thn_OkD)
  from send_pipe_response [OF assms(1,2) this] obtain line where
    "bk_trans (ex_handler s') = bk_trans (ex_handler s) @ [line]" "line \<noteq> []"
    "from_str line = Some (pipe_response p (Closed 0))" by blast
  then show ?case
    by (intro exI [of _ "[line]"]) (simp add: carries_def reader_messages_def)
next
  case (Cons d chunks)
  then obtain u where
    head: "unwrap (on_handler (bk_send wb (rs_message (pipe_response p (Data d 0))))) s = (Ok (), u)"
    and tail: "run_handler os (exec_handler_impl wb) fuel (reader_events p chunks) u = (Ok (), s')"
    by (auto simp: reader_events_def reader_events_handled dest!: handled_OkD)
  from send_pipe_response [OF assms(1,2) head] obtain line where
    l: "bk_trans (ex_handler u) = bk_trans (ex_handler s) @ [line]" "line \<noteq> []"
      "from_str line = Some (pipe_response p (Data d 0))" by blast
  from Cons.IH [OF tail] obtain lines where
    "bk_trans (ex_handler s') = bk_trans (ex_handler u) @ lines"
    "carries from_str lines p (reader_messages chunks)" by blast
  with l show ?case
    by (intro exI [of _ "line # lines"]) (simp add: carries_def reader_messages_def)
qed

lemma wp_ret_fun: "wp (ret a) Q E P = Q a"
  by (rule ext) (rule wp_ret)

lemma wp_deliver_Cons:
  "line \<noteq> [] \<Longrightarrow> from_str line = Some r \<Longrightarrow> wp (deliver from_str w fo (line # lines)) Q E P e =
     wp (receive w fo r) (\<lambda>_. wp (deliver from_str w fo lines) Q E P) E P e"
  by (simp add: deliver_def deliver_line_def reader_turn_def wp_simps wp_ret_fun)

lemma wp_receive_pipe:
  "pipe_num p \<in> ep_pipes e \<Longrightarrow>
   wp (receive w fo (pipe_response p m)) Q E P e = wp (sr_pipe fo p m) Q E P e"
  by (simp add: receive_def ep_receive_def pipe_response_def stacked_handler_def wp_simps)

lemma carries_Cons:
  "carries from_str lines p (m # ms) \<Longrightarrow> \<exists>line lines'. lines = line # lines' \<and> line \<noteq> [] \<and>
     from_str line = Some (pipe_response p m) \<and> carries from_str lines' p ms"
  by (cases lines) (auto simp: carries_def)

lemma deliver_carried:
  assumes "carries from_str lines p ms" and "pipe_num p \<in> ep_pipes e"
    and "returns (for_each ms (sr_pipe fo p)) Q e"
    and "\<And>m e Q. returns (sr_pipe fo p m) Q e \<Longrightarrow> returns (sr_pipe fo p m) (\<lambda>a e'. Q a e' \<and> ep_pipes e' = ep_pipes e) e"
  shows "returns (deliver from_str w fo lines) Q e"
  using assms(1-3)
proof (induction ms arbitrary: lines e)
  case Nil
  then show ?case by (simp add: carries_def deliver_def wp_simps)
next
  case (Cons m ms)
  from carries_Cons [OF Cons.prems(1)] obtain line lines' where l: "lines = line # lines'" "line \<noteq> []"
    "from_str line = Some (pipe_response p m)" "carries from_str lines' p ms" by blast
  from Cons.prems(3) have "returns (sr_pipe fo p m) (\<lambda>_ e'. returns (for_each ms (sr_pipe fo p)) Q e') e"
    by (simp add: wp_simps)
  from assms(4) [OF this] show ?case
    unfolding l(1) wp_deliver_Cons [of line from_str, OF l(2,3)] wp_receive_pipe [OF Cons.prems(2)]
    by (rule wp_mono) (use Cons.IH [OF l(4)] Cons.prems(2) in auto)
qed

lemma sr_pipe_pipes:
  "returns (sr_pipe fo p m) Q e \<Longrightarrow> returns (sr_pipe fo p m) (\<lambda>a e'. Q a e' \<and> ep_pipes e' = ep_pipes e) e"
  by (cases m) (auto simp: sr_pipe_def outside_def wp_simps split: option.splits if_splits prod.splits sum.splits)

lemma wp_sr_pipe:
  "gathering_output (ep_handler e) p = Some out \<Longrightarrow> wp (sr_pipe fo p (Data d off)) Q E P e =
     Q () (e\<lparr>ep_handler := (ep_handler e)\<lparr>gathering_output := (gathering_output (ep_handler e))(p \<mapsto> out @ d)\<rparr>\<rparr>)"
  "gathering_output (ep_handler e) p = Some out \<Longrightarrow> wp (sr_pipe fo p (Closed off)) Q E P e =
     Q () (e\<lparr>ep_handler := (ep_handler e)\<lparr>waiting_for_eof := waiting_for_eof (ep_handler e) - {p},
       gathering_output := (gathering_output (ep_handler e))(p := None),
       finished_output := (finished_output (ep_handler e))(p \<mapsto> out)\<rparr>\<rparr>)"
  "gathering_output (ep_handler e) p = None \<Longrightarrow> wp (sr_pipe fo p (Closed off)) Q E P e =
     Q () (e\<lparr>ep_handler := (ep_handler e)\<lparr>waiting_for_eof := waiting_for_eof (ep_handler e) - {p}\<rparr>\<rparr>)"
  "gathering_output (ep_handler e) p = None \<Longrightarrow> p \<in> stdout_pipes (ep_handler e) \<Longrightarrow>
   fo_stdout fo d (ep_trans e) = (Inr (), t) \<Longrightarrow> wp (sr_pipe fo p (Data d off)) Q E P e =
     Q () (e\<lparr>ep_trans := t\<rparr>)"
  by (simp_all add: sr_pipe_def outside_def wp_simps)

text \<open>The pipe \<open>p\<close> is closed, and what was gathered from it is \<open>out\<close>.\<close>

definition gathered :: "generic_pipe \<Rightarrow> bytes \<Rightarrow> 't front_endpoint \<Rightarrow> 't front_endpoint" where
  "gathered p out e = e\<lparr>ep_handler := (ep_handler e)\<lparr>
     waiting_for_eof := waiting_for_eof (ep_handler e) - {p},
     gathering_output := (gathering_output (ep_handler e))(p := None),
     finished_output := (finished_output (ep_handler e))(p \<mapsto> out)\<rparr>\<rparr>"

lemma gathered_more:
  "gathered p out (e\<lparr>ep_handler := (ep_handler e)\<lparr>gathering_output := (gathering_output (ep_handler e))(p \<mapsto> d)\<rparr>\<rparr>) =
   gathered p out e"
  by (simp add: gathered_def fun_upd_def cong: if_cong)

lemma gather_chunks:
  assumes "gathering_output (ep_handler e) p = Some out"
  shows "returns (for_each (reader_messages chunks) (sr_pipe fo p))
     (\<lambda>_ e'. e' = gathered p (out @ concat chunks) e) e"
  using assms
proof (induction chunks arbitrary: e out)
  case Nil
  then show ?case
    by (simp add: reader_messages_def wp_sr_pipe wp_thn wp_ret gathered_def [symmetric])
next
  case (Cons d chunks)
  let ?e = "e\<lparr>ep_handler := (ep_handler e)\<lparr>gathering_output := (gathering_output (ep_handler e))(p \<mapsto> out @ d)\<rparr>\<rparr>"
  have "gathering_output (ep_handler ?e) p = Some (out @ d)" by simp
  from Cons.IH [OF this] Cons.prems show ?case
    by (simp add: reader_messages_def wp_sr_pipe wp_thn gathered_more)
qed

lemma gathered_delivered:
  assumes "faithful (response_string wb) from_str" and "recording wb"
    and "run_handler os (exec_handler_impl wb) fuel (reader_events p chunks) s = (Ok (), s')"
    and "pipe_num p \<in> ep_pipes e" and "gathering_output (ep_handler e) p = Some out"
  shows "\<exists>lines. bk_trans (ex_handler s') = bk_trans (ex_handler s) @ lines \<and>
     returns (deliver from_str w fo lines) (\<lambda>_ e'. e' = gathered p (out @ concat chunks) e) e"
proof -
  from reader_output_sent [OF assms(1-3)] obtain lines where
    lines: "bk_trans (ex_handler s') = bk_trans (ex_handler s) @ lines"
    "carries from_str lines p (reader_messages chunks)" by blast
  with deliver_carried [OF lines(2) assms(4) gather_chunks [OF assms(5)] sr_pipe_pipes] show ?thesis
    by blast
qed

lemma stream_chunks:
  assumes "p \<in> stdout_pipes (ep_handler e)" and "gathering_output (ep_handler e) p = None"
    and "fo_stdout fo = (\<lambda>d t. (Inr (), put d t))"
  shows "returns (for_each (reader_messages chunks) (sr_pipe fo p)) (\<lambda>_ e'.
     e' = e\<lparr>ep_trans := fold put chunks (ep_trans e),
       ep_handler := (ep_handler e)\<lparr>waiting_for_eof := waiting_for_eof (ep_handler e) - {p}\<rparr>\<rparr>) e"
  using assms(1,2)
proof (induction chunks arbitrary: e)
  case Nil
  then show ?case by (simp add: reader_messages_def wp_sr_pipe wp_thn wp_ret)
next
  case (Cons d chunks)
  let ?e = "e\<lparr>ep_trans := put d (ep_trans e)\<rparr>"
  from Cons.IH [of ?e] Cons.prems show ?case
    by (simp add: reader_messages_def wp_sr_pipe(4) wp_thn assms(3))
qed

text \<open>
  C15: A command's output reaches the terminal. What the executor reads from the command, chunk by
  chunk up to its end, goes out as one line per chunk and one for the end; the frontend, reading
  these lines, hands every chunk to its standard output, in order and with nothing between, and
  stops waiting for the pipe.
\<close>

theorem stdout_reaches_terminal:
  assumes "faithful (response_string wb) from_str" and "recording wb"
    and "run_handler os (exec_handler_impl wb) fuel (reader_events p chunks) s = (Ok (), s')"
    and "pipe_num p \<in> ep_pipes e" and "p \<in> stdout_pipes (ep_handler e)"
    and "gathering_output (ep_handler e) p = None" and "fo_stdout fo = (\<lambda>d t. (Inr (), put d t))"
  shows "\<exists>lines. bk_trans (ex_handler s') = bk_trans (ex_handler s) @ lines \<and>
     returns (deliver from_str w fo lines) (\<lambda>_ e'. e' = e\<lparr>ep_trans := fold put chunks (ep_trans e),
       ep_handler := (ep_handler e)\<lparr>waiting_for_eof := waiting_for_eof (ep_handler e) - {p}\<rparr>\<rparr>) e"
proof -
  from reader_output_sent [OF assms(1-3)] obtain lines where
    lines: "bk_trans (ex_handler s') = bk_trans (ex_handler s) @ lines"
    "carries from_str lines p (reader_messages chunks)" by blast
  with deliver_carried [OF lines(2) assms(4) stream_chunks [OF assms(5-7)] sr_pipe_pipes] show ?thesis
    by blast
qed


section \<open>The working directory\<close>

text \<open>What the threads that write builtins' output write to a pipe, in order.\<close>

definition written :: "write_pipe \<Rightarrow> thread list \<Rightarrow> bytes" where
  "written p ths = concat (map (\<lambda>t. case t of Writer q _ d \<Rightarrow> if q = p then d else [] | _ \<Rightarrow> []) ths)"

lemma write_end_threads: "write_end os p s = (Ok h, s') \<Longrightarrow> ex_threads s' = ex_threads s"
  by (auto simp: write_end_def put_pair_def on_os_def eff_defs split: option.splits prod.splits sum.splits)

lemma on_machine_threads: "on_machine m s = (Ok a, s') \<Longrightarrow> ex_threads s' = ex_threads s"
  by (auto simp: on_machine_def zoom_def split: prod.splits)

lemma on_handler_threads: "unwrap (on_handler m) s = (Ok a, s') \<Longrightarrow> ex_threads s' = ex_threads s"
  by (auto simp: unwrap_def on_handler_def zoom_def split: prod.splits outcome.splits)

lemma output_threads:
  assumes "pipe_output_and_close os ps out [] s = (Ok (), s')" and "out \<noteq> []"
  shows "\<exists>h. ex_threads s' = ex_threads s @ [Writer (w_stdout ps) h out]"
proof -
  from assms obtain h s1 h' s2 where 1: "write_end os (w_stdout ps) s = (Ok h, s1)"
    and 2: "write_end os (w_stderr ps) (s1\<lparr>ex_threads := ex_threads s1 @ [Writer (w_stdout ps) (out_handle h) out]\<rparr>)
      = (Ok h', s')"
    by (auto simp: pipe_output_and_close_def pipe_and_close_def spawn_thread_def thn_def ret_def upd_def
        dest!: bnd_OkD)
  from write_end_threads [OF 1] write_end_threads [OF 2] show ?thesis by simp
qed

lemma directory_written:
  assumes "rc_cmd c = GetDirectory" and "os_cur_dir os (ex_world s) = (Inr dir, v)"
    and "run_task os eh fuel (Start pid c) s = (Ok ts, s')"
  shows "\<exists>h. ex_threads s' = ex_threads s @ [Writer (w_stdout (rc_pipes c)) h (lossy dir @ newline)]"
proof -
  obtain r t where out: "pipe_output_and_close os (rc_pipes c) (lossy dir @ newline) [] (s\<lparr>ex_world := v\<rparr>) = (r, t)"
    by fastforce
  have run: "run os eh pid c s = thn (answer r) (ret (AlreadyDone 0)) t"
    using assms(1,2) out by (simp add: run_def on_os_def eff_defs split: outcome.split)
  have r: "r = Ok ()"
    using assms(3) out run
    by (cases r) (auto simp: run_task_def thn_def bnd_def attempt_def answer_def pipe_output_no_Err)
  have "attempt (run os eh pid c) s = (Ok (Inr (AlreadyDone 0)), t)"
    by (simp add: run r attempt_def thn_def bnd_def answer_def ret_def)
  with assms(3) have "bnd (on_machine (start_completed fuel pid (from_exit_code 0))) (\<lambda>new_tasks.
      thn (unwrap (on_handler (h_command_result eh pid 0))) (ret new_tasks)) t = (Ok ts, s')"
    by (simp add: run_task_def bnd_def [of "attempt (run os eh pid c)"])
  then have "ex_threads s' = ex_threads t"
    by (auto dest!: bnd_OkD thn_OkD on_machine_threads on_handler_threads simp: ret_def)
  with output_threads [of os "rc_pipes c" "lossy dir @ newline" "s\<lparr>ex_world := v\<rparr>" t] out r show ?thesis
    by (simp add: newline_def)
qed

lemma set_directory_appended:
  "valid_utf8 dir \<Longrightarrow> r \<notin> fst ` set rs \<Longrightarrow>
   set_directory r (dir @ newline) (rs @ [(r, info)]) = Ok (rs @ [(r, info\<lparr>working_dir := dir\<rparr>)])"
  by (induction rs) (auto simp: newline_def)

lemma drain_then_prompt:
  assumes "cwd_for_remote (ep_handler e) = [(r, p)]" and "st_remotes (ep_handler e) = rs @ [(r, info)]"
    and "r \<notin> fst ` set rs" and "valid_utf8 dir" and "finished_output (ep_handler e) p = Some (dir @ newline)"
  shows "returns (thn drain_directories prompt) (\<lambda>s e'.
     s = ''['' @ show_nat (length rs + 1) @ '':'' @ hostname info @ ''] '' @ dir @ ''$ '' \<and>
     st_remotes (ep_handler e') = rs @ [(r, info\<lparr>working_dir := dir\<rparr>)]) e"
  using assms set_directory_appended [OF assms(4,3), of info]
  by (simp add: drain_directories_def note_directory_def prompt_def wp_simps)

text \<open>
  C10: The prompt shows the directory the backend is in. The executor runs \<open>GetDirectory\<close> and writes
  the directory and a newline to the command's output; a reader takes it from there in chunks of
  any size; the frontend gathers them, and at the next prompt notes the directory, without the
  newline, as the current remote's and shows it.
\<close>

theorem working_directory_roundtrip:
  assumes "rc_cmd c = GetDirectory" and "os_cur_dir os (ex_world s) = (Inr dir, v)"
    and "run_task os eh fuel (Start pid c) s = (Ok ts, s1)"
    and "written (w_stdout (rc_pipes c)) (ex_threads s) = []"
    and "concat chunks = written (w_stdout (rc_pipes c)) (ex_threads s1)"
    and "p = write_to_generic (w_stdout (rc_pipes c))"
    and "run_handler os (exec_handler_impl wb) fuel (reader_events p chunks) s2 = (Ok (), s3)"
    and "faithful (response_string wb) from_str" and "recording wb"
    and "pipe_num p \<in> ep_pipes e" and "gathering_output (ep_handler e) p = Some []"
    and "cwd_for_remote (ep_handler e) = [(r, p)]" and "st_remotes (ep_handler e) = rs @ [(r, info)]"
    and "r \<notin> fst ` set rs" and "valid_utf8 dir"
  shows "\<exists>lines. bk_trans (ex_handler s3) = bk_trans (ex_handler s2) @ lines \<and>
     returns (thn (deliver from_str w fo lines) (thn drain_directories prompt)) (\<lambda>text e'.
       text = ''['' @ show_nat (length rs + 1) @ '':'' @ hostname info @ ''] '' @ dir @ ''$ '' \<and>
       st_remotes (ep_handler e') = rs @ [(r, info\<lparr>working_dir := dir\<rparr>)]) e"
proof -
  from directory_written [OF assms(1-3)] have chunks: "concat chunks = dir @ newline"
    using assms(4,5) lossy_valid [OF assms(15)] by (auto simp: written_def)
  from gathered_delivered [OF assms(8,9,7,10,11), of w fo] obtain lines where
    lines: "bk_trans (ex_handler s3) = bk_trans (ex_handler s2) @ lines"
    "returns (deliver from_str w fo lines) (\<lambda>_ e'. e' = gathered p (dir @ newline) e) e"
    by (auto simp: chunks)
  have "returns (thn drain_directories prompt) (\<lambda>text e'.
      text = ''['' @ show_nat (length rs + 1) @ '':'' @ hostname info @ ''] '' @ dir @ ''$ '' \<and>
      st_remotes (ep_handler e') = rs @ [(r, info\<lparr>working_dir := dir\<rparr>)]) (gathered p (dir @ newline) e)"
    by (rule drain_then_prompt) (use assms(12-15) in \<open>auto simp: gathered_def\<close>)
  with lines show ?thesis
    by (auto simp: wp_thn intro!: exI [of _ lines] elim!: wp_mono)
qed

section \<open>Interrupting\<close>

text \<open>What the transport has after a request was sent, and the request that ends a process.\<close>

definition sent_to :: "'t wire \<Rightarrow> request \<Rightarrow> 't \<Rightarrow> 't" where
  "sent_to w q t = snd (wire_send w (the (request_string w q) @ newline) t)"

definition cancel_request :: "'t front_endpoint \<Rightarrow> process_id \<Rightarrow> request" where
  "cancel_request e p = \<lparr>rq_remote_id = rid_num (ps_parent (the (ep_jobs e p))), rq_message = RqCancelCommand p\<rparr>"

lemma cancel_run:
  fixes e :: "'t front_endpoint"
  assumes "reliable w" and "ep_jobs e p = Some st" and "ep_remotes e (ps_parent st) \<noteq> None"
  shows "ext_cancel w p e =
    (Ok (), e\<lparr>ep_jobs := (ep_jobs e)(p := None), ep_trans := sent_to w (cancel_request e p) (ep_trans e)\<rparr>)"
proof -
  let ?r = "\<lparr>rq_remote_id = rid_num (ps_parent st), rq_message = RqCancelCommand p\<rparr>"
  from assms(1) obtain s where s: "request_string w ?r = Some s" unfolding reliable_def by blast
  from assms(1) obtain t where "wire_send w (s @ newline) (ep_trans e) = (Inr (), t)"
    unfolding reliable_def by blast
  with s assms(2,3) show ?thesis
    by (simp add: ext_cancel_def ep_close_process_def ep_connected_def ep_send_def ser_to_endpoint_def sent_to_def
        cancel_request_def eff_defs)
qed

definition cancellable :: "'t front_endpoint \<Rightarrow> process_id \<Rightarrow> bool" where
  "cancellable e p \<longleftrightarrow> (\<exists>st. ep_jobs e p = Some st \<and> ep_remotes e (ps_parent st) \<noteq> None)"

lemma cancels_run:
  fixes e :: "'t front_endpoint"
  assumes "reliable w"
  shows "distinct ps \<Longrightarrow> list_all (cancellable e) ps \<Longrightarrow> for_each ps (ext_cancel w) e =
    (Ok (), e\<lparr>ep_jobs := (\<lambda>p. if p \<in> set ps then None else ep_jobs e p),
      ep_trans := fold (sent_to w) (map (cancel_request e) ps) (ep_trans e)\<rparr>)"
proof (induction ps arbitrary: e)
  case (Cons p ps)
  let ?e = "e\<lparr>ep_jobs := (ep_jobs e)(p := None), ep_trans := sent_to w (cancel_request e p) (ep_trans e)\<rparr>"
  from Cons.prems(2) obtain st where "ep_jobs e p = Some st" "ep_remotes e (ps_parent st) \<noteq> None"
    by (auto simp: cancellable_def)
  note run = cancel_run [OF assms this]
  from Cons.prems have other: "q \<noteq> p" if "q \<in> set ps" for q using that by auto
  have "list_all (cancellable ?e) ps" "map (cancel_request ?e) ps = map (cancel_request e) ps"
    using Cons.prems(2) other by (auto simp: cancellable_def cancel_request_def list_all_iff)
  with Cons.IH [of ?e] Cons.prems(1) run other show ?case
    by (auto simp: thn_def bnd_def fun_eq_iff intro!: endpoint.equality)
qed (simp add: ret_def)

text \<open>
  C35: A second Ctrl-C ends the frontend. The first one sends the backend, for every process waited
  for, in this order and nothing else, the request to end it, and forgets it as running; but they
  are all still waited for: when Ctrl-C comes again before the backend has answered, the frontend
  panics.
\<close>

theorem second_ctrlc_panics:
  assumes "reliable w" and "waiting_for (ep_handler e) \<noteq> []" and "distinct (waiting_for (ep_handler e))"
    and "list_all (cancellable e) (waiting_for (ep_handler e))"
  shows "\<exists>e'. cancel_all w e = (Ok (), e') \<and>
     ep_trans e' = fold (sent_to w) (map (cancel_request e) (waiting_for (ep_handler e))) (ep_trans e) \<and>
     ep_jobs e' = (\<lambda>p. if p \<in> set (waiting_for (ep_handler e)) then None else ep_jobs e p) \<and>
     waiting_for (ep_handler e') = waiting_for (ep_handler e) \<and>
     fst (cancel_all w e') = Panic ''process not running''"
proof -
  let ?e = "e\<lparr>ep_jobs := (\<lambda>p. if p \<in> set (waiting_for (ep_handler e)) then None else ep_jobs e p),
    ep_trans := fold (sent_to w) (map (cancel_request e) (waiting_for (ep_handler e))) (ep_trans e)\<rparr>"
  have "cancel_all w e = (Ok (), ?e)"
    using cancels_run [OF assms(1,3,4)] by (simp add: cancel_all_def handler_state_def bnd_def gets_def)
  moreover have "fst (cancel_all w ?e) = Panic ''process not running''"
    using assms(2) by (auto simp: cancel_all_def handler_state_def ext_cancel_def ep_close_process_def neq_Nil_conv eff_defs)
  ultimately show ?thesis by (intro exI [of _ ?e]) simp
qed

section \<open>Concrete deliveries\<close>

text \<open>A printer and a parser that know two messages.\<close>

definition pair_wire :: "response \<Rightarrow> response \<Rightarrow> bytes list wire" where
  "pair_wire a b = log_wire\<lparr>response_string :=
     (\<lambda>q. if q = a then Some ''first'' else if q = b then Some ''second'' else None)\<rparr>"

definition parse_pair :: "response \<Rightarrow> response \<Rightarrow> bytes \<Rightarrow> response option" where
  "parse_pair a b line = (if line = ''first'' @ newline then Some a
     else if line = ''second'' @ newline then Some b else None)"

lemma pair_wire_laws: "faithful (response_string (pair_wire a b)) (parse_pair a b)" "recording (pair_wire a b)"
  by (simp_all add: faithful_def pair_wire_def parse_pair_def recording_def log_wire_def newline_def)

definition demo_pipe :: "bytes \<Rightarrow> bytes list wire" where
  "demo_pipe d = pair_wire (pipe_response (GenericPipe 1) (Data d 0)) (pipe_response (GenericPipe 1) (Closed 0))"

definition demo_unpipe :: "bytes \<Rightarrow> bytes \<Rightarrow> response option" where
  "demo_unpipe d = parse_pair (pipe_response (GenericPipe 1) (Data d 0)) (pipe_response (GenericPipe 1) (Closed 0))"

lemma demo_pipe_laws: "faithful (response_string (demo_pipe d)) (demo_unpipe d)" "recording (demo_pipe d)"
  unfolding demo_pipe_def demo_unpipe_def by (rule pair_wire_laws)+

definition demo_reported :: "bytes \<Rightarrow> (nat, bytes list backend) exec" where
  "demo_reported d = snd (run_handler demo_os (exec_handler_impl (demo_pipe d)) 2
     (reader_events (GenericPipe 1) [d]) demo_backend)"

lemma demo_reported: "run_handler demo_os (exec_handler_impl (demo_pipe d)) 2
     (reader_events (GenericPipe 1) [d]) demo_backend = (Ok (), demo_reported d)"
  unfolding demo_reported_def
  by (simp add: run_handler_def reader_events_def reader_events_handled on_handler_def demo_backend_def
      exec_new_def bk_send_def ser_to_frontend_def demo_pipe_def pair_wire_def log_wire_def pipe_response_def
      bk_new_def eff_defs)

definition demo_terminal :: "bytes list front_os" where
  "demo_terminal = \<lparr>fo_stdout = (\<lambda>d t. (Inr (), t @ [d])), fo_stderr = (\<lambda>d t. (Inr (), t)),
     fo_stdout_write = (\<lambda>d t. (Inr (length d), t @ [d])), fo_tempdir = (\<lambda>t. (Inr ''/tmp'', t)),
     fo_create_write = (\<lambda>_ _ t. (Inr (), t)), fo_micro = (\<lambda>_ t. (Inr True, t)),
     fo_read_file = (\<lambda>_ t. (Inr [], t))\<rparr>"

definition demo_streaming :: "bytes list front_endpoint" where
  "demo_streaming = log_front\<lparr>ep_pipes := {1}, ep_handler := (ep_handler log_front)
     \<lparr>stdout_pipes := {GenericPipe 1}, waiting_for_eof := {GenericPipe 1}\<rparr>\<rparr>"

lemmas log_front_defs = log_front_def connected_def launched_def ep_new_def stacked_new_def ep_root_def demo_info_def

lemma stdout_reaches_terminal_witness:
  "\<exists>lines. bk_trans (ex_handler (demo_reported ''hi'')) = bk_trans (ex_handler demo_backend) @ lines \<and>
     returns (deliver (demo_unpipe ''hi'') log_wire demo_terminal lines)
       (\<lambda>_ e'. e' = demo_streaming\<lparr>ep_trans := fold (\<lambda>d t. t @ [d]) [''hi''] (ep_trans demo_streaming),
         ep_handler := (ep_handler demo_streaming)
           \<lparr>waiting_for_eof := waiting_for_eof (ep_handler demo_streaming) - {GenericPipe 1}\<rparr>\<rparr>) demo_streaming"
  by (rule stdout_reaches_terminal [OF demo_pipe_laws demo_reported])
    (simp_all add: demo_streaming_def log_front_defs demo_terminal_def)

text \<open>Process 0 asks for the directory; its output is pipe 1.\<close>

definition demo_asked :: "bytes list front_endpoint" where
  "demo_asked = log_front\<lparr>ep_pipes := {1}, ep_handler := (ep_handler log_front)
     \<lparr>gathering_output := [GenericPipe 1 \<mapsto> []], waiting_for_eof := {GenericPipe 1},
       cwd_for_remote := [(ep_root, GenericPipe 1)]\<rparr>\<rparr>"

definition demo_directory :: bytes where
  "demo_directory = ''/'' @ newline"

lemma demo_task: "run_task demo_os tally 2 (Start (ProcessId 0) (demo_cmd GetDirectory)) (demo_exec GetDirectory) =
    (Ok [], snd (run_task demo_os tally 2 (Start (ProcessId 0) (demo_cmd GetDirectory)) (demo_exec GetDirectory)))"
proof -
  have "fst (run_task demo_os tally 2 (Start (ProcessId 0) (demo_cmd GetDirectory)) (demo_exec GetDirectory)) = Ok []"
    by code_simp
  then show ?thesis by (metis prod.collapse)
qed

definition demo_told :: "(nat, (process_id \<times> int) list) exec" where
  "demo_told = snd (run_task demo_os tally 2 (Start (ProcessId 0) (demo_cmd GetDirectory)) (demo_exec GetDirectory))"

lemma demo_written: "written (WritePipe 1) (ex_threads demo_told) = demo_directory"
proof -
  have "os_cur_dir demo_os (ex_world (demo_exec GetDirectory)) = (Inr ''/'', ex_world (demo_exec GetDirectory))"
    by (simp add: demo_os_def)
  from directory_written [OF _ this demo_task [folded demo_told_def]] obtain h where
    "ex_threads demo_told = ex_threads (demo_exec GetDirectory) @ [Writer (WritePipe 1) h demo_directory]"
    by (auto simp: demo_cmd_def demo_pipes_def demo_directory_def lossy_examples)
  then show ?thesis by (simp add: written_def demo_exec_def exec_new_def)
qed

lemma working_directory_roundtrip_witness:
  "\<exists>lines. bk_trans (ex_handler (demo_reported demo_directory)) = bk_trans (ex_handler demo_backend) @ lines \<and>
     returns (thn (deliver (demo_unpipe demo_directory) log_wire demo_terminal lines) (thn drain_directories prompt))
       (\<lambda>text e'. text = ''['' @ show_nat (length ([] :: (remote_id \<times> remote_info) list) + 1) @ '':'' @
          hostname demo_info @ ''] '' @ ''/'' @ ''$ '' \<and>
        st_remotes (ep_handler e') = [] @ [(ep_root, demo_info\<lparr>working_dir := ''/''\<rparr>)]) demo_asked"
proof (rule working_directory_roundtrip [OF _ _ demo_task [folded demo_told_def] _ _ _ demo_reported demo_pipe_laws])
  show "os_cur_dir demo_os (ex_world (demo_exec GetDirectory)) = (Inr ''/'', ex_world (demo_exec GetDirectory))"
    by (simp add: demo_os_def)
  show "concat [demo_directory] = written (w_stdout (rc_pipes (demo_cmd GetDirectory))) (ex_threads demo_told)"
    by (simp add: demo_written [simplified] demo_cmd_def demo_pipes_def)
  show "valid_utf8 ''/''" by code_simp
qed (simp_all add: demo_cmd_def demo_pipes_def demo_asked_def log_front_defs written_def demo_exec_def exec_new_def
       write_to_generic_def)

definition demo_interrupted :: "bytes list front_endpoint" where
  "demo_interrupted = log_front\<lparr>ep_jobs := [ProcessId 3 \<mapsto> \<lparr>ps_parent = ep_root\<rparr>, ProcessId 7 \<mapsto> \<lparr>ps_parent = ep_root\<rparr>],
     ep_handler := (ep_handler log_front)\<lparr>waiting_for := [ProcessId 3, ProcessId 7]\<rparr>\<rparr>"

lemma second_ctrlc_panics_witness:
  "\<exists>e'. cancel_all log_wire demo_interrupted = (Ok (), e') \<and>
     ep_trans e' = fold (sent_to log_wire) [\<lparr>rq_remote_id = 0, rq_message = RqCancelCommand (ProcessId 3)\<rparr>,
       \<lparr>rq_remote_id = 0, rq_message = RqCancelCommand (ProcessId 7)\<rparr>] (ep_trans demo_interrupted) \<and>
     ep_jobs e' = Map.empty \<and> waiting_for (ep_handler e') = [ProcessId 3, ProcessId 7] \<and>
     fst (cancel_all log_wire e') = Panic ''process not running''"
proof -
  have state: "waiting_for (ep_handler demo_interrupted) = [ProcessId 3, ProcessId 7]"
    "(\<lambda>p. if p \<in> {ProcessId 3, ProcessId 7} then None else ep_jobs demo_interrupted p) = Map.empty"
    "map (cancel_request demo_interrupted) [ProcessId 3, ProcessId 7] =
      [\<lparr>rq_remote_id = 0, rq_message = RqCancelCommand (ProcessId 3)\<rparr>,
       \<lparr>rq_remote_id = 0, rq_message = RqCancelCommand (ProcessId 7)\<rparr>]"
    by (auto simp: demo_interrupted_def cancel_request_def ep_root_def fun_eq_iff)
  have "list_all (cancellable demo_interrupted) (waiting_for (ep_handler demo_interrupted))"
    by (simp add: demo_interrupted_def log_front_defs cancellable_def)
  from second_ctrlc_panics [OF log_wire_laws(1) _ _ this] state show ?thesis by simp
qed

text \<open>The two messages of \<open>demo_pipe\<close> on a stream.\<close>

definition stream_wire :: "bytes wire" where
  "stream_wire = \<lparr>wire_send = stdout_send (\<lambda>d t. (Inr (length d), t @ d)) (\<lambda>t. (Inr (), t)),
     request_string = (\<lambda>_. None), response_string = response_string (demo_pipe ''hi'')\<rparr>"

lemma stream_carries_messages_witness:
  "\<exists>b'. for_each [RsPipe \<lparr>env_id = 1, env_msg = Data ''hi'' 0\<rparr>, RsPipe \<lparr>env_id = 1, env_msg = Closed 0\<rparr>]
       (bk_send stream_wire) (bk_new []) = (Ok (), b') \<and>
     map (demo_unpipe ''hi'') (read_lines (bk_trans b')) =
       map (\<lambda>m. Some \<lparr>rs_remote_id = 0, rs_message = m\<rparr>)
         [RsPipe \<lparr>env_id = 1, env_msg = Data ''hi'' 0\<rparr>, RsPipe \<lparr>env_id = 1, env_msg = Closed 0\<rparr>]"
proof (rule stream_carries_messages)
  show "faithful (response_string stream_wire) (demo_unpipe ''hi'')"
    using demo_pipe_laws(1) [of "''hi''"] by (simp add: stream_wire_def)
qed (simp_all add: full_writes_def stream_wire_def one_line_each_def demo_pipe_def pair_wire_def pipe_response_def)

lemma short_write_unnoticed_witness:
  "bk_send (stream_wire\<lparr>wire_send := stdout_send (\<lambda>d t. (Inr (min 3 (length d)), t @ take 3 d)) (\<lambda>t. (Inr (), t))\<rparr>)
     (RsPipe \<lparr>env_id = 1, env_msg = Closed 0\<rparr>) (bk_new []) =
   (Ok (), (bk_new [])\<lparr>bk_trans := bk_trans (bk_new []) @ take 3 ''second''\<rparr>)"
  by (rule short_write_unnoticed)
    (simp_all add: short_writes_def stream_wire_def demo_pipe_def pair_wire_def pipe_response_def)

end
