(* ===== verification/Session.thy ===== *)
theory Session
  imports Delivery
begin

text \<open>
  The main loop of \<open>frontend/src/main.rs\<close> over a whole session: an invariant of every state the
  frontend can be in between turns, that the prompt therefore always finds the directories it
  asked for, and that a session of one command (\<open>--command\<close>) ends.
\<close>

section \<open>A prompt never misses a directory\<close>

text \<open>
  Every directory asked for is still being gathered or has been: its pipe is waited for until it
  is closed, and closing it moves what was gathered to the finished outputs.
\<close>

definition directory_inv :: "'t front_endpoint \<Rightarrow> bool" where
  "directory_inv e \<longleftrightarrow> (let h = ep_handler e in distinct (map fst (cwd_for_remote h)) \<and> distinct (map snd (cwd_for_remote h)) \<and>
     (\<forall>(r, p) \<in> set (cwd_for_remote h). pipe_num p < next_id (ep_ids e) \<and>
       (p \<in> waiting_for_eof h \<and> gathering_output h p \<noteq> None \<or> finished_output h p \<noteq> None)))"

definition keeps :: "('t front_endpoint, 'a) eff \<Rightarrow> bool" where
  "keeps m \<longleftrightarrow> (\<forall>e. directory_inv e \<longrightarrow>
     wp m (\<lambda>_. directory_inv) (\<lambda>_. directory_inv) (\<lambda>_ _. True) e)"

text \<open>An operation that leaves the handler alone and draws numbers at most.\<close>

definition inert :: "('t front_endpoint, 'a) eff \<Rightarrow> bool" where
  "inert m \<longleftrightarrow> (\<forall>e. let Q = \<lambda>e'. ep_handler e' = ep_handler e \<and> next_id (ep_ids e) \<le> next_id (ep_ids e') in
     wp m (\<lambda>_. Q) (\<lambda>_. Q) (\<lambda>_ _. True) e)"

lemma inert_keeps:
  fixes m :: "('t front_endpoint, 'a) eff"
  assumes "inert m"
  shows "keeps m"
  unfolding keeps_def
proof (intro allI impI)
  fix e :: "'t front_endpoint"
  assume inv: "directory_inv e"
  have "directory_inv e'" if "ep_handler e' = ep_handler e \<and> next_id (ep_ids e) \<le> next_id (ep_ids e')"
    for e' :: "'t front_endpoint"
    using inv that by (fastforce simp: directory_inv_def Let_def)
  moreover from assms have "wp m (\<lambda>_ e'. ep_handler e' = ep_handler e \<and> next_id (ep_ids e) \<le> next_id (ep_ids e'))
      (\<lambda>_ e'. ep_handler e' = ep_handler e \<and> next_id (ep_ids e) \<le> next_id (ep_ids e')) (\<lambda>_ _. True) e"
    by (simp add: inert_def Let_def)
  ultimately show "wp m (\<lambda>_. directory_inv) (\<lambda>_. directory_inv) (\<lambda>_ _. True) e"
    by - (erule wp_mono, auto)
qed

named_theorems keeps_intros "operations of the frontend that keep the directories"

lemma inert_ops:
  "inert ep_pipe" "inert (ep_command w r c bf ps)" "inert (ep_open_output_file w r path)"
  "inert (ep_pipe_read w r p n)" "inert (ep_pipe_begin_read w r p)" "inert (ep_close_remote w r)"
  "inert (ep_close_process w pid)" "inert (ep_finish_edit w pid k data)" "inert (handler_state f)" "inert (gets g)"
  "inert (outside oc)" "inert (ret a)" "inert (panic m)" "inert (ensure m b)" "inert (expect m x)"
  "inert cur_remote" "inert (take_read i pairs)" "inert (take_write i pairs)"
  by (simp_all add: inert_def Let_def ep_pipe_def ep_command_def ep_open_output_file_def ep_pipe_read_def
      ep_pipe_begin_read_def ep_close_remote_def ep_close_process_def ep_finish_edit_def outside_def
      cur_remote_def take_read_def take_write_def wp_simps split: option.split prod.split sum.split)

lemma inert_bnd:
  fixes m :: "('t front_endpoint, 'a) eff"
  assumes "inert m" and "\<And>a. inert (f a)"
  shows "inert (bnd m f)"
  unfolding inert_def Let_def
proof
  fix e :: "'t front_endpoint"
  let ?Q = "\<lambda>e'. ep_handler e' = ep_handler e \<and> next_id (ep_ids e) \<le> next_id (ep_ids e')"
  from assms(1) have "wp m (\<lambda>_. ?Q) (\<lambda>_. ?Q) (\<lambda>_ _. True) e" by (simp add: inert_def Let_def)
  then show "wp (bnd m f) (\<lambda>_. ?Q) (\<lambda>_. ?Q) (\<lambda>_ _. True) e"
  proof (rule wp_bndI)
    fix a and e' :: "'t front_endpoint" assume Q: "?Q e'"
    from assms(2) [of a] have "wp (f a) (\<lambda>_ t. ep_handler t = ep_handler e' \<and> next_id (ep_ids e') \<le> next_id (ep_ids t))
        (\<lambda>_ t. ep_handler t = ep_handler e' \<and> next_id (ep_ids e') \<le> next_id (ep_ids t)) (\<lambda>_ _. True) e'"
      by (simp add: inert_def Let_def)
    then show "wp (f a) (\<lambda>_. ?Q) (\<lambda>_. ?Q) (\<lambda>_ _. True) e'"
      by (rule wp_mono) (use Q in auto)
  qed
qed

lemma inert_thn: "inert m \<Longrightarrow> inert n \<Longrightarrow> inert (thn m n)"
  unfolding thn_def by (rule inert_bnd)

lemma inert_unwrap: "inert m \<Longrightarrow> inert (unwrap m)"
  by (auto simp: inert_def Let_def wp_simps elim!: wp_mono)

lemmas keeps_ops [keeps_intros] = inert_ops [THEN inert_keeps]

lemma keeps_bnd [keeps_intros]:
  fixes m :: "('t front_endpoint, 'a) eff"
  assumes "keeps m" and "\<And>a. keeps (f a)"
  shows "keeps (bnd m f)"
  unfolding keeps_def
proof (intro allI impI)
  fix e :: "'t front_endpoint"
  assume "directory_inv e"
  with assms(1) have "wp m (\<lambda>_. directory_inv) (\<lambda>_. directory_inv) (\<lambda>_ _. True) e" by (simp add: keeps_def)
  then show "wp (bnd m f) (\<lambda>_. directory_inv) (\<lambda>_. directory_inv) (\<lambda>_ _. True) e"
    by (rule wp_bndI) (use assms(2) in \<open>auto simp: keeps_def\<close>)
qed

lemma keeps_thn [keeps_intros]: "keeps m \<Longrightarrow> keeps n \<Longrightarrow> keeps (thn m n)"
  unfolding thn_def by (rule keeps_bnd)

lemma keeps_unwrap [keeps_intros]: "keeps m \<Longrightarrow> keeps (unwrap m)"
  by (auto simp: keeps_def wp_simps elim!: wp_mono)

lemma keeps_for_each [keeps_intros]: "(\<And>x. keeps (f x)) \<Longrightarrow> keeps (for_each xs f)"
  by (induction xs) (simp_all add: keeps_intros)

lemma keeps_handler_upd [keeps_intros]:
  "(\<And>h. cwd_for_remote (g h) = cwd_for_remote h \<and> waiting_for_eof (g h) = waiting_for_eof h \<and>
     gathering_output (g h) = gathering_output h \<and> finished_output (g h) = finished_output h) \<Longrightarrow>
   keeps (handler_upd g)"
  by (simp add: keeps_def wp_simps directory_inv_def Let_def)

lemma ask_directory_wp:
  fixes e :: "'t front_endpoint"
  defines "n \<equiv> next_id (ep_ids e)"
  shows "wp (ask_directory w wait)
    (\<lambda>_ e'. n < next_id (ep_ids e') \<and> (\<exists>r. ep_handler e' = (ep_handler e)\<lparr>
       gathering_output := (gathering_output (ep_handler e))(GenericPipe n \<mapsto> []),
       waiting_for_eof := insert (GenericPipe n) (waiting_for_eof (ep_handler e)),
       stderr_pipes := insert (GenericPipe (Suc n)) (stderr_pipes (ep_handler e)),
       cwd_for_remote := map_insert r (GenericPipe n) (cwd_for_remote (ep_handler e))\<rparr>))
    (\<lambda>_ e'. ep_handler e' = ep_handler e \<and> n \<le> next_id (ep_ids e')) (\<lambda>_ _. True) e"
  by (auto simp: ask_directory_def cur_remote_def ep_pipe_def ep_command_def ep_pipe_begin_read_def
      ep_pipe_read_def Let_def wp_simps n_def split: option.split prod.split sum.split)

lemma keeps_ask_directory [keeps_intros]:
  fixes w :: "'t wire"
  shows "keeps (ask_directory w wait)"
  unfolding keeps_def
proof (intro allI impI)
  fix e :: "'t front_endpoint"
  assume inv: "directory_inv e"
  show "wp (ask_directory w wait) (\<lambda>_. directory_inv) (\<lambda>_. directory_inv) (\<lambda>_ _. True) e"
    by (rule wp_mono [OF ask_directory_wp])
      (use inv in \<open>fastforce simp: directory_inv_def Let_def map_insert_def distinct_map_filter\<close>)+
qed

lemma keeps_carry_step [keeps_intros]: "keeps (carry_step w s pairs wait)"
  unfolding carry_step_def ext_end_remote_def
  by (cases s; simp split: remote_step.split) (auto intro!: keeps_intros split: prod.split)

lemma keeps_carry_steps [keeps_intros]: "keeps (carry_steps w ss pairs wait)"
  by (induction ss arbitrary: pairs wait) (auto intro!: keeps_intros split: option.split)

lemma keeps_carry_sink [keeps_intros]: "keeps (carry_sink w r s pairs)"
  unfolding carry_sink_def
  by (cases s) (auto intro!: keeps_intros split: option.split prod.split sink.split)

lemma keeps_carry_sinks [keeps_intros]: "keeps (carry_sinks w r ss pairs)"
  by (induction ss arbitrary: pairs) (auto intro!: keeps_intros)

lemma keeps_carry_plan [keeps_intros]: "keeps (carry_plan w pl)"
  unfolding carry_plan_def by (auto intro!: keeps_intros split: option.split)

lemma keeps_cancel_all [keeps_intros]: "keeps (cancel_all w)"
  unfolding cancel_all_def ext_cancel_def by (intro keeps_intros)

lemma keeps_sr_pipe [keeps_intros]:
  fixes fo :: "'t front_os"
  shows "keeps (sr_pipe fo p m)"
  unfolding keeps_def
proof (intro allI impI)
  fix e :: "'t front_endpoint"
  assume inv: "directory_inv e"
  then show "wp (sr_pipe fo p m) (\<lambda>_. directory_inv) (\<lambda>_. directory_inv) (\<lambda>_ _. True) e"
    by (cases m) (auto simp: sr_pipe_def outside_def wp_simps directory_inv_def Let_def
        split: option.split prod.split sum.split)
qed

lemma keeps_receive [keeps_intros]: "keeps (receive w fo msg)"
proof -
  have "keeps (sr_remote_ready k info)" for k info
    unfolding sr_remote_ready_def by (intro keeps_intros) simp
  moreover have "keeps (sr_command_done p code)" for p code
    unfolding sr_command_done_def by (intro keeps_intros) simp
  moreover have "keeps (sr_edit_request w fo k p name data)" for k p name data
    by (auto simp: sr_edit_request_def Let_def intro!: keeps_intros)
  ultimately show ?thesis
    by (auto simp: receive_def ep_receive_def stacked_handler_def sr_directory_listing_def
        split: remote_response.split intro!: keeps_intros)
qed

lemma map_outcome_Diverge [simp]: "map_outcome f x = Diverge \<longleftrightarrow> x = Diverge"
  by (cases x) auto

lemma set_directory_answers: "set_directory r out rs \<noteq> Diverge"
  by (induction r out rs rule: set_directory.induct) auto

lemma keeps_drain [keeps_intros]: "keeps (drain_directories :: ('t front_endpoint, unit) eff)"
proof -
  have "wp (note_directory x) (\<lambda>_ e'. cwd_for_remote (ep_handler e') = []) (\<lambda>_ e'. cwd_for_remote (ep_handler e') = [])
      (\<lambda>_ _. True) e"
    if "cwd_for_remote (ep_handler e) = []" for x and e :: "'t front_endpoint"
    using that by (simp add: note_directory_def wp_simps set_directory_answers split: option.split outcome.split)
  then have "wp (for_each xs note_directory) (\<lambda>_ e'. cwd_for_remote (ep_handler e') = [])
      (\<lambda>_ e'. cwd_for_remote (ep_handler e') = []) (\<lambda>_ _. True) e"
    if "cwd_for_remote (ep_handler e) = []" for xs and e :: "'t front_endpoint"
    using that by (intro wp_for_each [where I = "\<lambda>_ e. cwd_for_remote (ep_handler e) = []"])
  then have "wp drain_directories (\<lambda>_ e'. cwd_for_remote (ep_handler e') = [])
      (\<lambda>_ e'. cwd_for_remote (ep_handler e') = []) (\<lambda>_ _. True) e" for e :: "'t front_endpoint"
    by (simp add: drain_directories_def wp_bnd wp_thn wp_handler_state wp_handler_upd)
  moreover have "directory_inv e" if "cwd_for_remote (ep_handler e) = []" for e :: "'t front_endpoint"
    using that by (simp add: directory_inv_def)
  ultimately show ?thesis
    unfolding keeps_def by (blast intro: wp_mono)
qed

lemma keeps_prompt [keeps_intros]: "keeps prompt"
  unfolding prompt_def by (intro keeps_intros)

text \<open>The states of the frontend between turns of its main loop, whatever arrives and is typed.\<close>

inductive front_reach :: "'t wire \<Rightarrow> 't front_os \<Rightarrow> (string \<Rightarrow> ('r, plan) eff) \<Rightarrow> ('t, 'r) front \<Rightarrow> bool"
  for w fo gc where
  front_start: "fr_remote s = launched t \<Longrightarrow> front_reach w fo gc s"
| front_turn: "front_reach w fo gc s \<Longrightarrow> one_loop w fo gc s = (Ok True, s') \<Longrightarrow> front_reach w fo gc s'"
| front_arrival: "front_reach w fo gc s \<Longrightarrow> front_reach w fo gc (s\<lparr>fr_receiver := fr_receiver s @ evs\<rparr>)"
| front_close: "front_reach w fo gc s \<Longrightarrow> front_reach w fo gc (s\<lparr>fr_open := False\<rparr>)"

lemma on_remote_keeps:
  assumes "keeps m" and "on_remote m s = (Ok a, s')" and "directory_inv (fr_remote s)"
  shows "directory_inv (fr_remote s')"
proof -
  from assms(2) obtain e' where e': "m (fr_remote s) = (Ok a, e')" "fr_remote s' = e'"
    by (auto simp: on_remote_def zoom_def split: prod.splits)
  from assms(1,3) have "wp m (\<lambda>_. directory_inv) (\<lambda>_. directory_inv) (\<lambda>_ _. True) (fr_remote s)"
    by (simp add: keeps_def)
  from wp_runD [OF this e'(1)] e'(2) show ?thesis by simp
qed

lemma others_keep_remote:
  "on_reader m s = (Ok b, s') \<Longrightarrow> fr_remote s' = fr_remote s"
  "recv s = (Ok ev, s') \<Longrightarrow> fr_remote s' = fr_remote s"
  "on_remote (handler_state f) s = (Ok c, s') \<Longrightarrow> s' = s"
  by (auto simp: on_reader_def recv_def on_remote_def handler_state_def eff_defs split: prod.splits list.splits if_splits)

lemma one_loop_keeps:
  assumes "one_loop w fo gc s = (Ok go, s')" and "directory_inv (fr_remote s)"
  shows "directory_inv (fr_remote s')"
  using assms
  by (auto simp: one_loop_def panic_def ret_def split: if_splits prod.splits front_event.splits
      dest!: bnd_OkD thn_OkD others_keep_remote)
    (metis on_remote_keeps keeps_receive keeps_drain keeps_prompt keeps_carry_plan keeps_cancel_all)+

lemma directory_inv_reach: "front_reach w fo gc s \<Longrightarrow> directory_inv (fr_remote s)"
proof (induction rule: front_reach.induct)
  case (front_start s t)
  then show ?case by (simp add: directory_inv_def launched_def ep_new_def stacked_new_def)
next
  case (front_turn s s')
  then show ?case using one_loop_keeps by blast
qed simp_all

text \<open>What \<open>GetDirectory\<close> prints on its standard output: a line, or nothing when it failed.\<close>

definition directory_line :: "bytes \<Rightarrow> bool" where
  "directory_line out \<longleftrightarrow> out = [] \<or> valid_utf8 (butlast out) \<and> out = butlast out @ newline"

definition directories_told :: "'t front_endpoint \<Rightarrow> bool" where
  "directories_told e \<longleftrightarrow> list_all (\<lambda>(r, p). case finished_output (ep_handler e) p of
     None \<Rightarrow> True | Some out \<Rightarrow> directory_line out) (cwd_for_remote (ep_handler e))"

lemma set_directory_ok: "directory_line out \<Longrightarrow> \<exists>rs'. set_directory r out rs = Ok rs'"
proof (induction rs)
  case (Cons x rs)
  then obtain rs' where "set_directory r out rs = Ok rs'" by blast
  moreover from Cons.prems have "out \<noteq> [] \<Longrightarrow> valid_utf8 (butlast out) \<and> last out = CHR 0x0A"
    unfolding directory_line_def newline_def by (metis last_snoc)
  ultimately show ?case
    by (cases x; cases "out = []") auto
qed simp

lemma set_directory_remotes: "set_directory r out rs = Ok rs' \<Longrightarrow> map fst rs' = map fst rs"
proof (induction r out rs arbitrary: rs' rule: set_directory.induct)
  case (2 remote result k rem rs)
  have tail: "\<exists>rs1. x = Ok rs1 \<and> rs' = y # rs1" if "map_outcome (Cons y) x = Ok rs'" for x y
    using that by (cases x) auto
  from 2 show ?case by (auto split: if_splits dest!: tail)
qed simp

lemma run_returns: "m s = (Ok x, s') \<Longrightarrow> Q x s' \<Longrightarrow> returns m Q s"
  by (simp add: wp_def)

lemma note_directory_runs:
  assumes "finished_output (ep_handler e) (snd x) = Some out"
    and "set_directory (fst x) out (st_remotes (ep_handler e)) = Ok rs'"
  shows "note_directory x e = (Ok (), e\<lparr>ep_handler := (ep_handler e)
     \<lparr>finished_output := (finished_output (ep_handler e))(snd x := None), st_remotes := rs'\<rparr>\<rparr>)"
  using assms by (simp add: note_directory_def handler_state_def handler_upd_def eff_defs)

text \<open>What a directory's output, if there is one, makes of what is known of its remote.\<close>

definition noted :: "bytes option \<Rightarrow> remote_info \<Rightarrow> remote_info" where
  "noted out info = (case out of
     None \<Rightarrow> info
   | Some d \<Rightarrow> if d = [] then info else info\<lparr>working_dir := butlast d\<rparr>)"

lemma set_directory_noted:
  assumes "set_directory r out rs = Ok rs'" and "directory_line out"
  shows "map_of rs' k = map_option (noted (if k = r then Some out else None)) (map_of rs k)"
  using assms
proof (induction rs arbitrary: rs')
  case Nil
  then show ?case by simp
next
  case (Cons x rs)
  obtain q info where x: "x = (q, info)" by (cases x)
  have tail: "\<exists>rs1. y = Ok rs1 \<and> rs' = x # rs1" if "map_outcome (Cons x) y = Ok rs'" for y
    using that by (cases y) auto
  have line: "out = [] \<or> out \<noteq> [] \<and> last out = CHR 0x0A"
    using Cons.prems(2) unfolding directory_line_def newline_def by (metis last_snoc)
  show ?case
  proof (cases "q = r \<and> out \<noteq> []")
    case True
    with Cons.prems(1) x line show ?thesis by (auto simp: noted_def option.map_id0 [unfolded id_def] split: if_splits)
  next
    case False
    with Cons.prems(1) x line have "map_outcome (Cons x) (set_directory r out rs) = Ok rs'" by (auto split: if_splits)
    from tail [OF this] obtain rs1 where "set_directory r out rs = Ok rs1" "rs' = x # rs1" by blast
    with Cons.IH [OF this(1) Cons.prems(2)] x False show ?thesis by (auto simp: noted_def)
  qed
qed

lemma notes_run:
  fixes e :: "'t front_endpoint"
  shows "distinct (map fst xs) \<Longrightarrow> distinct (map snd xs) \<Longrightarrow>
    list_all (\<lambda>x. \<exists>out. finished_output (ep_handler e) (snd x) = Some out \<and> directory_line out) xs \<Longrightarrow>
    \<exists>rs'. for_each xs note_directory e = (Ok (), e\<lparr>ep_handler := (ep_handler e)
        \<lparr>finished_output := (\<lambda>p. if p \<in> snd ` set xs then None else finished_output (ep_handler e) p), st_remotes := rs'\<rparr>\<rparr>) \<and>
      map fst rs' = map fst (st_remotes (ep_handler e)) \<and>
      (\<forall>k. map_of rs' k = map_option (noted (Option.bind (map_of xs k) (finished_output (ep_handler e))))
         (map_of (st_remotes (ep_handler e)) k))"
proof (induction xs arbitrary: e)
  case Nil
  then show ?case
    by (intro exI [of _ "st_remotes (ep_handler e)"]) (simp add: ret_def noted_def option.map_id0 [unfolded id_def])
next
  case (Cons x xs)
  let ?h = "ep_handler e"
  from Cons.prems(3) obtain out where out: "finished_output ?h (snd x) = Some out" "directory_line out" by auto
  from set_directory_ok [OF out(2)] obtain rs1 where rs1: "set_directory (fst x) out (st_remotes ?h) = Ok rs1" by blast
  define e1 where "e1 = e\<lparr>ep_handler := ?h\<lparr>finished_output := (finished_output ?h)(snd x := None), st_remotes := rs1\<rparr>\<rparr>"
  have run: "note_directory x e = (Ok (), e1)"
    using note_directory_runs [OF out(1) rs1] by (simp add: e1_def)
  have other: "finished_output (ep_handler e1) (snd y) = finished_output ?h (snd y)" if "y \<in> set xs" for y
    using Cons.prems(2) that by (auto simp: e1_def rev_image_eqI)
  have IH_prems: "distinct (map fst xs)" "distinct (map snd xs)"
    "list_all (\<lambda>x. \<exists>out. finished_output (ep_handler e1) (snd x) = Some out \<and> directory_line out) xs"
    using Cons.prems other by (simp_all add: list_all_iff)
  have rem: "st_remotes (ep_handler e1) = rs1" by (simp add: e1_def)
  from Cons.IH [OF IH_prems] obtain rs' where
    rs': "for_each xs note_directory e1 = (Ok (), e1\<lparr>ep_handler := (ep_handler e1)
        \<lparr>finished_output := (\<lambda>p. if p \<in> snd ` set xs then None else finished_output (ep_handler e1) p), st_remotes := rs'\<rparr>\<rparr>)"
      "map fst rs' = map fst rs1"
      "\<And>k. map_of rs' k = map_option (noted (Option.bind (map_of xs k) (finished_output (ep_handler e1)))) (map_of rs1 k)"
    unfolding rem by blast
  have "map_of rs' k = map_option (noted (Option.bind (map_of (x # xs) k) (finished_output ?h))) (map_of (st_remotes ?h) k)" for k
  proof (cases "k = fst x")
    case True
    with Cons.prems(1) have "map_of xs k = None" by (auto simp: map_of_eq_None_iff)
    with True out(1) rs'(3) [of k] set_directory_noted [OF rs1 out(2), of k] show ?thesis
      by (cases x) (simp add: option.map_comp comp_def noted_def [of None])
  next
    case False
    have "Option.bind (map_of xs k) (finished_output (ep_handler e1)) = Option.bind (map_of xs k) (finished_output ?h)"
      using other by (cases "map_of xs k") (auto dest!: map_of_SomeD)
    with False rs'(3) [of k] set_directory_noted [OF rs1 out(2), of k] show ?thesis
      by (cases x) (simp add: option.map_comp comp_def noted_def [of None])
  qed
  moreover have "map fst rs' = map fst (st_remotes ?h)" using rs'(2) set_directory_remotes [OF rs1] by simp
  moreover have "for_each (x # xs) note_directory e = (Ok (), e\<lparr>ep_handler := ?h
        \<lparr>finished_output := (\<lambda>p. if p \<in> snd ` set (x # xs) then None else finished_output ?h p), st_remotes := rs'\<rparr>\<rparr>)"
    using run rs'(1) by (auto simp: thn_def bnd_def e1_def fun_eq_iff)
  ultimately show ?case by blast
qed

lemma drain_runs:
  fixes e :: "'t front_endpoint"
  assumes "directory_inv e" and "waiting_for_eof (ep_handler e) = {}" and "directories_told e" and "h = ep_handler e"
  shows "list_all (\<lambda>(r, p). finished_output h p \<noteq> None) (cwd_for_remote h) \<and>
    (\<exists>rs'. drain_directories e = (Ok (), e\<lparr>ep_handler := h\<lparr>cwd_for_remote := [],
        finished_output := (\<lambda>p. if p \<in> snd ` set (cwd_for_remote h) then None else finished_output h p), st_remotes := rs'\<rparr>\<rparr>) \<and>
      map fst rs' = map fst (st_remotes h) \<and>
      (\<forall>k. map_of rs' k = map_option (noted (Option.bind (map_of (cwd_for_remote h) k) (finished_output h)))
         (map_of (st_remotes h) k)))"
proof -
  let ?e = "e\<lparr>ep_handler := h\<lparr>cwd_for_remote := []\<rparr>\<rparr>"
  have all: "list_all (\<lambda>x. \<exists>out. finished_output h (snd x) = Some out \<and> directory_line out) (cwd_for_remote h)"
    unfolding list_all_iff
  proof
    fix x assume "x \<in> set (cwd_for_remote h)"
    with assms have "finished_output h (snd x) \<noteq> None"
      "case finished_output h (snd x) of None \<Rightarrow> True | Some out \<Rightarrow> directory_line out"
      unfolding directory_inv_def directories_told_def Let_def list_all_iff by (cases x, fastforce)+
    then show "\<exists>out. finished_output h (snd x) = Some out \<and> directory_line out" by auto
  qed
  from assms(1,4) have "distinct (map fst (cwd_for_remote h))" "distinct (map snd (cwd_for_remote h))"
    by (simp_all add: directory_inv_def Let_def)
  from notes_run [OF this, of ?e] all obtain rs' where
    "for_each (cwd_for_remote h) note_directory ?e = (Ok (), e\<lparr>ep_handler := h\<lparr>cwd_for_remote := [],
        finished_output := (\<lambda>p. if p \<in> snd ` set (cwd_for_remote h) then None else finished_output h p), st_remotes := rs'\<rparr>\<rparr>)"
    "map fst rs' = map fst (st_remotes h)"
    "\<forall>k. map_of rs' k = map_option (noted (Option.bind (map_of (cwd_for_remote h) k) (finished_output h))) (map_of (st_remotes h) k)"
    by (auto cong: if_cong)
  moreover from this(1) have "drain_directories e = for_each (cwd_for_remote h) note_directory ?e"
    using assms(4) by (simp add: drain_directories_def handler_state_def handler_upd_def eff_defs)
  ultimately show ?thesis using all by (auto simp: list_all_iff)
qed

lemma drain_returns:
  fixes e :: "'t front_endpoint"
  assumes "directory_inv e" and "waiting_for_eof (ep_handler e) = {}" and "directories_told e"
  shows "returns drain_directories (\<lambda>_ e'. \<exists>h. e' = e\<lparr>ep_handler := h\<rparr> \<and> cwd_for_remote h = [] \<and>
     map fst (st_remotes h) = map fst (st_remotes (ep_handler e))) e"
proof -
  from drain_runs [OF assms refl] obtain rs' where rs': "drain_directories e = (Ok (), e\<lparr>ep_handler := (ep_handler e)\<lparr>cwd_for_remote := [],
        finished_output := (\<lambda>p. if p \<in> snd ` set (cwd_for_remote (ep_handler e)) then None else finished_output (ep_handler e) p),
        st_remotes := rs'\<rparr>\<rparr>)" "map fst rs' = map fst (st_remotes (ep_handler e))" by blast
  show ?thesis
    unfolding wp_def rs'(1) by (simp, intro exI conjI, rule refl) (simp_all add: rs'(2))
qed

text \<open>
  C22: A prompt never misses a directory. In every state the frontend reaches by turns of its main
  loop, when no pipe is waited for any more, every directory that was asked for has been
  gathered, and if what arrived is a directory's line or nothing, the frontend notes them all
  without a panic: each remote whose directory was asked for has, before its prompt is shown, the
  line that arrived for it as its working directory, or keeps the old one if nothing arrived, the
  other remotes are as they were, and nothing is left to be noted.
\<close>

theorem prompt_has_directories:
  assumes "front_reach w fo gc s" and "waiting_for_eof (ep_handler (fr_remote s)) = {}"
    and "directories_told (fr_remote s)" and "h = ep_handler (fr_remote s)"
  shows "list_all (\<lambda>(r, p). finished_output h p \<noteq> None) (cwd_for_remote h) \<and>
    (\<exists>rs'. drain_directories (fr_remote s) = (Ok (), (fr_remote s)\<lparr>ep_handler := h\<lparr>cwd_for_remote := [],
        finished_output := (\<lambda>p. if p \<in> snd ` set (cwd_for_remote h) then None else finished_output h p), st_remotes := rs'\<rparr>\<rparr>) \<and>
      map fst rs' = map fst (st_remotes h) \<and>
      (\<forall>k. map_of rs' k = map_option (noted (Option.bind (map_of (cwd_for_remote h) k) (finished_output h)))
         (map_of (st_remotes h) k)))"
  by (rule drain_runs [OF directory_inv_reach [OF assms(1)] assms(2-4)])

section \<open>A session\<close>

definition busy :: "'t front_endpoint \<Rightarrow> bool" where
  "busy e \<longleftrightarrow> waiting_for_remote (ep_handler e) = None \<and>
     (waiting_for (ep_handler e) \<noteq> [] \<or> waiting_for_eof (ep_handler e) \<noteq> {})"

definition idle :: "'t front_endpoint \<Rightarrow> bool" where
  "idle e \<longleftrightarrow> waiting_for_remote (ep_handler e) = None \<and>
     waiting_for (ep_handler e) = [] \<and> waiting_for_eof (ep_handler e) = {}"

text \<open>The responses that take a waiting frontend from one state to another.\<close>

inductive absorbs :: "'t wire \<Rightarrow> 't front_os \<Rightarrow> 't front_endpoint \<Rightarrow> response list \<Rightarrow> 't front_endpoint \<Rightarrow> bool"
  for w fo where
  absorbs_Nil: "absorbs w fo e [] e"
| absorbs_Cons: "busy e \<Longrightarrow> receive w fo m e = (Ok (), e1) \<Longrightarrow> absorbs w fo e1 ms e2 \<Longrightarrow>
    absorbs w fo e (m # ms) e2"

definition ready_response :: "remote_info \<Rightarrow> response" where
  "ready_response info = \<lparr>rs_remote_id = 0, rs_message = RsRemoteReady info\<rparr>"

lemma turn_connect:
  "one_loop w fo gc \<lparr>fr_receiver = EvRemote (ready_response info) # evs, fr_open = alive, fr_remote = launched t, fr_reader = r\<rparr> =
   (Ok True, \<lparr>fr_receiver = evs, fr_open = alive, fr_remote = connected t info, fr_reader = r\<rparr>)"
  by (simp add: one_loop_def on_remote_def handler_state_def recv_def receive_def ep_receive_def stacked_handler_def
      sr_remote_ready_def handler_upd_def ready_response_def launched_def connected_def stacked_new_def ep_new_def
      ep_root_def eff_defs)

lemma turn_message:
  assumes "busy e" and "receive w fo m e = (Ok (), e')"
  shows "one_loop w fo gc \<lparr>fr_receiver = EvRemote m # evs, fr_open = alive, fr_remote = e, fr_reader = r\<rparr> =
   (Ok True, \<lparr>fr_receiver = evs, fr_open = alive, fr_remote = e', fr_reader = r\<rparr>)"
  using assms
  by (auto simp: one_loop_def on_remote_def handler_state_def recv_def busy_def eff_defs)

lemma turn_prompt:
  assumes "idle e" and "drain_directories e = (Ok (), e1)" and "prompt e1 = (Ok shown, e2)"
    and "gc shown r = (Ok pl, r')" and "carry_plan w pl e2 = (Ok go, e3)"
  shows "one_loop w fo gc \<lparr>fr_receiver = evs, fr_open = alive, fr_remote = e, fr_reader = r\<rparr> =
   (Ok go, \<lparr>fr_receiver = evs, fr_open = alive, fr_remote = e3, fr_reader = r'\<rparr>)"
  using assms
  by (auto simp: one_loop_def on_remote_def on_reader_def handler_state_def idle_def eff_defs)

lemma run_messages:
  assumes "absorbs w fo e ms e'"
  shows "remote_run w fo gc save (length ms + n) \<lparr>fr_receiver = map EvRemote ms @ evs, fr_open = alive, fr_remote = e, fr_reader = r\<rparr> =
     remote_run w fo gc save n \<lparr>fr_receiver = evs, fr_open = alive, fr_remote = e', fr_reader = r\<rparr>"
  using assms
  by (induction rule: absorbs.induct) (simp_all add: turn_message bnd_def)

text \<open>Responses that leave something to wait for: when they have come, the frontend waits for ever.\<close>

lemma run_waits:
  assumes "absorbs w fo e ms e'" and "busy e'"
  shows "fst (remote_run w fo gc save n \<lparr>fr_receiver = map EvRemote ms, fr_open = True, fr_remote = e, fr_reader = r\<rparr>) = Diverge"
  using assms
proof (induction arbitrary: n rule: absorbs.induct)
  case (absorbs_Nil e)
  then show ?case
    by (cases n) (auto simp: one_loop_def on_remote_def handler_state_def recv_def busy_def eff_defs)
next
  case (absorbs_Cons e m e1 ms e2)
  then show ?case by (cases n) (simp_all add: turn_message bnd_def diverge_def)
qed

definition stack_kept :: "('t front_endpoint, 'a) eff \<Rightarrow> 't front_endpoint \<Rightarrow> bool" where
  "stack_kept m e \<longleftrightarrow> wp m (\<lambda>_ e'. waiting_for_remote (ep_handler e') = None \<and>
     st_remotes (ep_handler e') = st_remotes (ep_handler e)) (\<lambda>_ _. True) (\<lambda>_ _. True) e"

lemma edit_inert: "inert (sr_edit_request w fo k p name data)"
  unfolding sr_edit_request_def Let_def
  by (intro inert_thn inert_bnd inert_unwrap inert_ops)

lemma stack_kept_ops:
  assumes "waiting_for_remote (ep_handler e) = None"
  shows "stack_kept (sr_remote_ready k info) e" "stack_kept (sr_command_done p c) e"
    "stack_kept (sr_directory_listing n items) e" "stack_kept (sr_edit_request w fo n p name data) e"
    "stack_kept (sr_pipe fo k' pm) e"
proof -
  show "stack_kept (sr_edit_request w fo n p name data) e"
    unfolding stack_kept_def
    by (rule wp_mono [OF edit_inert [unfolded inert_def Let_def, rule_format]]) (use assms in auto)
  show "stack_kept (sr_pipe fo k' pm) e"
    using assms by (cases pm) (auto simp: stack_kept_def sr_pipe_def outside_def wp_simps
        split: option.split prod.split sum.split)
qed (use assms in \<open>simp_all add: stack_kept_def sr_remote_ready_def sr_command_done_def
       sr_directory_listing_def wp_simps\<close>)

lemma receive_stack:
  assumes "waiting_for_remote (ep_handler e) = None"
  shows "stack_kept (receive w fo m) e"
  using stack_kept_ops [OF assms]
  by (simp add: receive_def ep_receive_def stacked_handler_def stack_kept_def wp_simps
      split: remote_response.split)

lemma absorbs_keeps:
  "absorbs w fo e ms e' \<Longrightarrow> directory_inv e \<Longrightarrow> directory_inv e' \<and>
     st_remotes (ep_handler e') = st_remotes (ep_handler e)"
proof (induction rule: absorbs.induct)
  case (absorbs_Cons e m e1 ms e2)
  from keeps_receive [of w fo m] absorbs_Cons.prems have
    "wp (receive w fo m) (\<lambda>_. directory_inv) (\<lambda>_. directory_inv) (\<lambda>_ _. True) e" by (simp add: keeps_def)
  from wp_runD [OF this absorbs_Cons.hyps(2)] have "directory_inv e1" .
  moreover have "st_remotes (ep_handler e1) = st_remotes (ep_handler e)"
    using receive_stack [of e w fo m] absorbs_Cons.hyps(1,2) by (simp add: busy_def stack_kept_def wp_def)
  ultimately show ?case using absorbs_Cons.IH by simp
qed simp

lemma prompt_runs: "st_remotes (ep_handler e) \<noteq> [] \<Longrightarrow> \<exists>shown. prompt e = (Ok shown, e)"
  by (simp add: prompt_def handler_state_def eff_defs)

definition exit_plan :: plan where
  "exit_plan = \<lparr>steps = [StepRemote (RemoteRef 0) Close], plan_stdin = None, gather_count = 0,
     pager_count = 0, sink_map = []\<rparr>"

lemma get_command_runs:
  "get_command (single_command_reader_new p line) =
     (parse_command_simple root_only p line, \<lparr>scr_prefs = p, scr_text = None\<rparr>)"
  "get_command \<lparr>scr_prefs = p, scr_text = None\<rparr> = (Ok exit_plan, \<lparr>scr_prefs = p, scr_text = None\<rparr>)"
  by (simp_all add: get_command_def single_command_reader_new_def root_only_def exit_plan_def eff_defs
      run_builder_def builder_exit_def push_step_def builder_new_def build_def)

lemma exit_plan_ends:
  "length (st_remotes (ep_handler e)) = 1 \<Longrightarrow> carry_plan w exit_plan e = (Ok False, e)"
  by (simp add: carry_plan_def exit_plan_def carry_step_def handler_state_def eff_defs)

lemma turn_exit:
  assumes "idle e" and "directory_inv e" and "length (st_remotes (ep_handler e)) = 1"
    and "directories_told e"
  shows "\<exists>s'. one_loop w fo (\<lambda>_. get_command) \<lparr>fr_receiver = evs, fr_open = alive, fr_remote = e,
     fr_reader = \<lparr>scr_prefs = p, scr_text = None\<rparr>\<rparr> = (Ok False, s') \<and> fr_receiver s' = evs \<and>
     ep_trans (fr_remote s') = ep_trans e"
proof -
  from assms(1) have "waiting_for_eof (ep_handler e) = {}" by (simp add: idle_def)
  from returnsD [OF drain_returns [OF assms(2) this assms(4)]] obtain h where
    h: "drain_directories e = (Ok (), e\<lparr>ep_handler := h\<rparr>)" "map fst (st_remotes h) = map fst (st_remotes (ep_handler e))"
    by auto
  from h(2) have len: "length (st_remotes h) = 1" using assms(3) by (metis length_map)
  then obtain shown where "prompt (e\<lparr>ep_handler := h\<rparr>) = (Ok shown, e\<lparr>ep_handler := h\<rparr>)"
    using prompt_runs [of "e\<lparr>ep_handler := h\<rparr>"] by force
  from turn_prompt [where gc = "\<lambda>_. get_command", OF assms(1) h(1) this get_command_runs(2) exit_plan_ends] len show ?thesis by simp
qed

text \<open>The first two turns of \<open>nak --command\<close>: the connection, and the line, whose requests are sent.\<close>

lemma session_begins:
  assumes "valid_utf8 line" and "parse_input line = Ok a" and "\<forall>h cls. a \<noteq> Sequence h cls"
    and "parse_command_simple root_only p line = Ok pl" and "reliable w"
    and "carry_plan w pl (connected t info) = (Ok go, e1)"
  shows "remote_run w fo (\<lambda>_. get_command) (ret ()) (Suc (Suc n))
     \<lparr>fr_receiver = EvRemote (ready_response info) # evs, fr_open = alive, fr_remote = launched t,
      fr_reader = single_command_reader_new p line\<rparr> =
   remote_run w fo (\<lambda>_. get_command) (ret ()) n
     \<lparr>fr_receiver = evs, fr_open = alive, fr_remote = e1, fr_reader = \<lparr>scr_prefs = p, scr_text = None\<rparr>\<rparr>"
    and "directory_inv e1" and "st_remotes (ep_handler e1) = [(ep_root, info)]"
proof -
  let ?c = "connected t info"
  let ?r = "\<lparr>scr_prefs = p, scr_text = None\<rparr>"
  have c: "at_prompt ?c" "idle ?c" "directory_inv ?c" "cwd_for_remote (ep_handler ?c) = []"
    "st_remotes (ep_handler ?c) = [(ep_root, info)]"
    by (simp_all add: connected_def launched_def ep_new_def stacked_new_def at_prompt_def idle_def
        directory_inv_def ep_root_def)
  from carry_plan_returns [OF assms(5) c(1) conversion_runnable [OF assms(1-3) _ assms(4)]] assms(6)
  have e1: "go" "st_remotes (ep_handler e1) = [(ep_root, info)]"
    by (simp_all add: wp_def c(5) split: outcome.splits)
  have drain: "drain_directories ?c = (Ok (), ?c)"
    using c(4) by (simp add: drain_directories_def handler_state_def handler_upd_def eff_defs)
  obtain shown where shown: "prompt ?c = (Ok shown, ?c)" using prompt_runs [of ?c] c(5) by auto
  have "get_command (single_command_reader_new p line) = (Ok pl, ?r)"
    using get_command_runs(1) assms(4) by simp
  note command_turn = turn_prompt [where gc = "\<lambda>_. get_command", OF c(2) drain shown this assms(6)]
  show "remote_run w fo (\<lambda>_. get_command) (ret ()) (Suc (Suc n))
     \<lparr>fr_receiver = EvRemote (ready_response info) # evs, fr_open = alive, fr_remote = launched t,
      fr_reader = single_command_reader_new p line\<rparr> =
   remote_run w fo (\<lambda>_. get_command) (ret ()) n \<lparr>fr_receiver = evs, fr_open = alive, fr_remote = e1, fr_reader = ?r\<rparr>"
    using command_turn e1(1) by (simp add: turn_connect bnd_def)
  show "directory_inv e1"
    using keeps_carry_plan [of w pl] c(3) assms(6) unfolding keeps_def by (blast dest: wp_runD)
  show "st_remotes (ep_handler e1) = [(ep_root, info)]" by (rule e1(2))
qed

text \<open>
  A session of one command ends. When the backend reports itself, the line converts, and the
  responses after it are received and leave nothing to wait for, the main loop ends without an
  error after as many turns as there were responses and three more: the connection, the command
  and the closing of the root. What arrives after these responses is not looked at.
\<close>

lemma session_ends:
  assumes "valid_utf8 line" and "parse_input line = Ok a" and "\<forall>h cls. a \<noteq> Sequence h cls"
    and "parse_command_simple root_only p line = Ok pl" and "reliable w"
    and "carry_plan w pl (connected t info) = (Ok go, e1)" and "absorbs w fo e1 ms e2" and "idle e2"
    and "directories_told e2"
  shows "\<exists>s'. remote_run w fo (\<lambda>_. get_command) (ret ()) (length ms + (k + 3))
     \<lparr>fr_receiver = EvRemote (ready_response info) # map EvRemote ms @ late, fr_open = alive, fr_remote = launched t,
      fr_reader = single_command_reader_new p line\<rparr> = (Ok (), s') \<and> fr_receiver s' = late \<and>
     ep_trans (fr_remote s') = ep_trans e2"
proof -
  let ?r = "\<lparr>scr_prefs = p, scr_text = None\<rparr>"
  note begins = session_begins [OF assms(1-6)]
  from absorbs_keeps [OF assms(7) begins(2)] begins(3)
  have e2: "directory_inv e2" "length (st_remotes (ep_handler e2)) = 1" by simp_all
  from turn_exit [OF assms(8) e2 assms(9)] obtain s' where
    s': "one_loop w fo (\<lambda>_. get_command) \<lparr>fr_receiver = late, fr_open = alive, fr_remote = e2, fr_reader = ?r\<rparr> = (Ok False, s')"
      "fr_receiver s' = late" "ep_trans (fr_remote s') = ep_trans e2" by blast
  have "remote_run w fo (\<lambda>_. get_command) (ret ()) (length ms + (k + 3))
      \<lparr>fr_receiver = EvRemote (ready_response info) # map EvRemote ms @ late, fr_open = alive, fr_remote = launched t,
       fr_reader = single_command_reader_new p line\<rparr> =
    remote_run w fo (\<lambda>_. get_command) (ret ()) (length ms + Suc k)
      \<lparr>fr_receiver = map EvRemote ms @ late, fr_open = alive, fr_remote = e1, fr_reader = ?r\<rparr>"
    using begins(1) by (simp add: numeral_3_eq_3)
  also have "\<dots> = remote_run w fo (\<lambda>_. get_command) (ret ()) (Suc k)
      \<lparr>fr_receiver = late, fr_open = alive, fr_remote = e2, fr_reader = ?r\<rparr>"
    by (rule run_messages [OF assms(7)])
  also have "\<dots> = (Ok (), s')"
    using s'(1) by (simp add: bnd_def on_reader_def zoom_def ret_def)
  finally show ?thesis using s'(2,3) by blast
qed

text \<open>When the responses leave something to wait for, it never ends.\<close>

lemma session_waits:
  assumes "valid_utf8 line" and "parse_input line = Ok a" and "\<forall>h cls. a \<noteq> Sequence h cls"
    and "parse_command_simple root_only p line = Ok pl" and "reliable w"
    and "carry_plan w pl (connected t info) = (Ok go, e1)" and "absorbs w fo e1 ms e2" and "busy e2"
  shows "fst (remote_run w fo (\<lambda>_. get_command) (ret ()) n
     \<lparr>fr_receiver = EvRemote (ready_response info) # map EvRemote ms, fr_open = True, fr_remote = launched t,
      fr_reader = single_command_reader_new p line\<rparr>) = Diverge"
proof -
  consider "n = 0" | "n = 1" | k where "n = Suc (Suc k)" by (metis One_nat_def not0_implies_Suc)
  then show ?thesis
  proof cases
    case 3
    show ?thesis unfolding 3 session_begins(1) [OF assms(1-6)] by (rule run_waits [OF assms(7,8)])
  qed (simp_all add: diverge_def turn_connect bnd_def)
qed

section \<open>A concrete session\<close>

text \<open>The piped line is typed; its two commands end, the directory is told, and its pipe is closed.\<close>

definition session_messages :: "response list" where
  "session_messages = map (\<lambda>m. \<lparr>rs_remote_id = 0, rs_message = m\<rparr>)
     [RsCommandDone (ProcessId 6) 0, RsCommandDone (ProcessId 3) 0,
      RsPipe \<lparr>env_id = 7, env_msg = Data ''/home'' 0\<rparr>, RsPipe \<lparr>env_id = 7, env_msg = Data newline 0\<rparr>,
      RsCommandDone (ProcessId 10) 0, RsPipe \<lparr>env_id = 7, env_msg = Closed 0\<rparr>]"

definition session_sent :: "bytes list front_endpoint" where
  "session_sent = snd (carry_plan log_wire piped_plan log_front)"

definition session_left :: "bytes list front_endpoint" where
  "session_left = fold (\<lambda>m e. snd (receive log_wire demo_terminal m e)) session_messages session_sent"

fun absorbed :: "'t wire \<Rightarrow> 't front_os \<Rightarrow> 't front_endpoint \<Rightarrow> response list \<Rightarrow> bool" where
  "absorbed w fo e [] \<longleftrightarrow> True"
| "absorbed w fo e (m # ms) \<longleftrightarrow> busy e \<and> fst (receive w fo m e) = Ok () \<and> absorbed w fo (snd (receive w fo m e)) ms"

lemma absorbed_absorbs: "absorbed w fo e ms \<Longrightarrow> absorbs w fo e ms (fold (\<lambda>m e. snd (receive w fo m e)) ms e)"
  by (induction ms arbitrary: e) (auto intro: absorbs.intros simp: prod_eq_iff)

lemmas carry_defs = carry_plan_def piped_plan_def wired_plan_def stages_def stage_def carry_step_def
  ask_directory_def carry_sink_def cur_remote_def handler_state_def handler_upd_def take_read_def take_write_def
  ep_pipe_read_def ep_pipe_begin_read_def connected_def launched_def stacked_new_def log_front_def

lemma session_sent: "carry_plan log_wire piped_plan log_front = (Ok True, session_sent)"
proof -
  have "fst (carry_plan log_wire piped_plan log_front) = Ok True"
    by (simp add: carry_defs demo_endpoint_defs eff_defs)
  then show ?thesis unfolding session_sent_def by (metis prod.collapse)
qed

lemma session_sent_state [simp]:
  "waiting_for_remote (ep_handler session_sent) = None"
  "waiting_for (ep_handler session_sent) = [ProcessId 10, ProcessId 6, ProcessId 3]"
  "waiting_for_eof (ep_handler session_sent) = {GenericPipe 7}"
  "gathering_output (ep_handler session_sent) (GenericPipe 7) = Some []"
  "cwd_for_remote (ep_handler session_sent) = [(RemoteId 0, GenericPipe 7)]"
  "7 \<in> ep_pipes session_sent"
  by (simp_all add: session_sent_def carry_defs demo_endpoint_defs map_insert_def fun_upd_def eff_defs)

lemmas receive_defs = receive_def ep_receive_def stacked_handler_def sr_command_done_def sr_pipe_def
  handler_state_def handler_upd_def session_messages_def newline_def eff_defs

lemma session_absorbed: "absorbs log_wire demo_terminal session_sent session_messages session_left"
  unfolding session_left_def
  by (rule absorbed_absorbs) (simp add: busy_def receive_defs)

lemma session_left: "idle session_left" "directories_told session_left"
proof -
  show "idle session_left" by (simp add: idle_def session_left_def receive_defs)
  have "valid_utf8 ''/home''" by code_simp
  then show "directories_told session_left"
    by (simp add: directories_told_def directory_line_def session_left_def receive_defs)
qed

lemma absorbs_reach:
  "absorbs w fo e ms e' \<Longrightarrow>
   front_reach w fo gc \<lparr>fr_receiver = map EvRemote ms @ evs, fr_open = alive, fr_remote = e, fr_reader = r\<rparr> \<Longrightarrow>
   front_reach w fo gc \<lparr>fr_receiver = evs, fr_open = alive, fr_remote = e', fr_reader = r\<rparr>"
proof (induction rule: absorbs.induct)
  case (absorbs_Cons e m e1 ms e2)
  from front_turn [OF absorbs_Cons.prems, simplified, OF turn_message [OF absorbs_Cons.hyps(1,2)]]
  show ?case by (rule absorbs_Cons.IH)
qed simp

text \<open>The same line typed at the first prompt of a frontend that has just been started.\<close>

lemma session_left_reach: "front_reach log_wire demo_terminal (\<lambda>_. ret piped_plan)
   \<lparr>fr_receiver = [], fr_open = True, fr_remote = session_left, fr_reader = ()\<rparr>"
proof -
  let ?gc = "\<lambda>_. ret piped_plan :: (unit, plan) eff"
  have "front_reach log_wire demo_terminal ?gc \<lparr>fr_receiver = EvRemote (ready_response demo_info) #
      map EvRemote session_messages @ [], fr_open = True, fr_remote = launched [], fr_reader = ()\<rparr>"
    by (rule front_start [where t = "[]"]) simp
  from front_turn [OF this turn_connect]
  have 1: "front_reach log_wire demo_terminal ?gc \<lparr>fr_receiver = map EvRemote session_messages @ [], fr_open = True,
      fr_remote = log_front, fr_reader = ()\<rparr>" by (simp add: log_front_def)
  have "idle log_front" "drain_directories log_front = (Ok (), log_front)"
    by (simp_all add: idle_def log_front_defs drain_directories_def handler_state_def handler_upd_def eff_defs)
  moreover obtain shown where "prompt log_front = (Ok shown, log_front)"
    using prompt_runs [of log_front] by (auto simp: log_front_defs)
  ultimately have "one_loop log_wire demo_terminal ?gc \<lparr>fr_receiver = map EvRemote session_messages @ [], fr_open = True,
      fr_remote = log_front, fr_reader = ()\<rparr> = (Ok True, \<lparr>fr_receiver = map EvRemote session_messages @ [], fr_open = True,
      fr_remote = session_sent, fr_reader = ()\<rparr>)"
    by (rule turn_prompt [OF _ _ _ _ session_sent]) (simp add: ret_def)
  from absorbs_reach [OF session_absorbed front_turn [OF 1 this]] show ?thesis .
qed

lemma prompt_has_directories_witness:
  "\<exists>rs'. drain_directories session_left = (Ok (), session_left\<lparr>ep_handler := (ep_handler session_left)\<lparr>cwd_for_remote := [],
       finished_output := (\<lambda>p. if p = GenericPipe 7 then None else finished_output (ep_handler session_left) p),
       st_remotes := rs'\<rparr>\<rparr>) \<and>
     map fst rs' = [ep_root] \<and> map_of rs' ep_root = Some (demo_info\<lparr>working_dir := ''/home''\<rparr>)"
proof -
  have left: "waiting_for_eof (ep_handler session_left) = {}" "directories_told session_left"
    using session_left by (simp_all add: idle_def)
  have state: "cwd_for_remote (ep_handler session_left) = [(ep_root, GenericPipe 7)]"
    "finished_output (ep_handler session_left) (GenericPipe 7) = Some (''/home'' @ newline)"
    by (simp_all add: session_left_def ep_root_def receive_defs)
  have "st_remotes (ep_handler session_left) = [(ep_root, demo_info)]"
    by (simp add: session_left_def receive_defs) (simp add: session_sent_def carry_defs demo_endpoint_defs eff_defs)
  note st = this state
  from prompt_has_directories [OF session_left_reach, simplified, OF left refl] obtain rs' where
    run: "drain_directories session_left = (Ok (), session_left\<lparr>ep_handler := (ep_handler session_left)\<lparr>cwd_for_remote := [],
       finished_output := (\<lambda>p. if p \<in> snd ` set (cwd_for_remote (ep_handler session_left)) then None
         else finished_output (ep_handler session_left) p), st_remotes := rs'\<rparr>\<rparr>)"
    and rs': "map fst rs' = map fst (st_remotes (ep_handler session_left))"
      "map_of rs' ep_root = map_option (noted (Option.bind (map_of (cwd_for_remote (ep_handler session_left)) ep_root)
         (finished_output (ep_handler session_left)))) (map_of (st_remotes (ep_handler session_left)) ep_root)" by blast
  have "map fst rs' = [ep_root] \<and> map_of rs' ep_root = Some (demo_info\<lparr>working_dir := ''/home''\<rparr>)"
    using rs' by (simp add: st noted_def newline_def)
  moreover have "(\<lambda>p. if p \<in> snd ` set (cwd_for_remote (ep_handler session_left)) then None
      else finished_output (ep_handler session_left) p) =
    (\<lambda>p. if p = GenericPipe 7 then None else finished_output (ep_handler session_left) p)" by (simp add: st(2))
  ultimately show ?thesis using run by (intro exI [of _ rs']) (simp only: simp_thms)
qed

end
