(* ===== verification/Programs.thy ===== *)
theory Programs
  imports Session
begin

text \<open>
  The frontend program as a whole: \<open>SimpleReader::new\<close> and the terminal's reader of
  \<open>frontend/src/edit.rs\<close>, and \<open>main\<close> of \<open>frontend/src/main.rs\<close>, which loads the preferences, starts
  the backend and runs the loop with one of the two readers.
\<close>

section \<open>The interactive reader\<close>

definition simple_reader_new :: "string option \<Rightarrow> (string \<Rightarrow> io_error + string list) \<Rightarrow> prefs \<Rightarrow>
    simple_reader outcome" where
  "simple_reader_new home_dir load_history p = (case home_dir of
     None \<Rightarrow> Panic ''unwrap''
   | Some home \<Rightarrow>
       (case load_history (path_join (path_join (path_join home ''.config'') ''nak'') ''history.nak'') of
          Inr history \<Rightarrow> Ok \<lparr>sr_prefs = p, sr_history = history\<rparr>
        | Inl NotFound \<Rightarrow> Ok \<lparr>sr_prefs = p, sr_history = []\<rparr>
        | Inl (OtherError e) \<Rightarrow> Err e))"

text \<open>
  The line editor, in a state of its own: what it answers after a prompt, and whether the history
  file takes the line.
\<close>

type_synonym 'i typist = "string \<Rightarrow> 'i \<Rightarrow> (line_answer \<times> error option) \<times> 'i"

definition typed_command :: "'i typist \<Rightarrow> string \<Rightarrow> ('i \<times> simple_reader, plan) eff" where
  "typed_command typist shown = (\<lambda>(i, r). case typist shown i of ((line, push_error), i1) \<Rightarrow>
     (case simple_get_command line push_error r of (x, r1) \<Rightarrow> (x, (i1, r1))))"

section \<open>The frontend program\<close>

record 't surroundings =
  su_home_dir :: "string option"
  su_open_file :: "string \<Rightarrow> file_answer"
  su_from_str :: "string \<Rightarrow> prefs outcome"
  su_history :: "string \<Rightarrow> io_error + string list"
  su_launcher :: "'t launcher"
  su_set_handler :: "('t, unit) call"

text \<open>The loop, until it ends; what is left is what lies outside.\<close>

definition run_session :: "'t wire \<Rightarrow> 't front_os \<Rightarrow> (string \<Rightarrow> ('r, plan) eff) \<Rightarrow> ('r, unit) eff \<Rightarrow> nat \<Rightarrow>
    front_event list \<Rightarrow> bool \<Rightarrow> 'r \<Rightarrow> 't front_endpoint \<Rightarrow> ('t, unit) eff" where
  "run_session w fo gc save fuel arrivals alive reader remote = (\<lambda>_.
     case remote_run w fo gc save fuel \<lparr>fr_receiver = arrivals, fr_open = alive, fr_remote = remote, fr_reader = reader\<rparr> of
       (r, s) \<Rightarrow> (r, ep_trans (fr_remote s)))"

definition front_main :: "'t surroundings \<Rightarrow> 't wire \<Rightarrow> 't front_os \<Rightarrow> 'i typist \<Rightarrow> 'i \<Rightarrow>
    ('i \<times> simple_reader, unit) eff \<Rightarrow> nat \<Rightarrow> front_event list \<Rightarrow> bool \<Rightarrow> string option \<Rightarrow> string option \<Rightarrow> ('t, unit) eff" where
  "front_main su w fo typist i save fuel arrivals alive backend command =
     bnd (answer (load (su_home_dir su) (su_open_file su) (su_from_str su))) (\<lambda>prefs.
     bnd (launch_backend (su_launcher su) backend) (\<lambda>remote.
     case command of
       Some line \<Rightarrow>
         run_session w fo (\<lambda>_. get_command) (ret ()) fuel arrivals alive (single_command_reader_new prefs line) remote
     | None \<Rightarrow>
         bnd (attempt (from_call (su_set_handler su))) (\<lambda>r. case r of
           Inl e \<Rightarrow> panic ''Error setting CtrlC handler''
         | Inr _ \<Rightarrow>
             bnd (answer (simple_reader_new (su_home_dir su) (su_history su) prefs)) (\<lambda>reader.
             run_session w fo (typed_command typist) save fuel arrivals alive (i, reader) remote))))"

section \<open>Properties\<close>

lemma launch_run:
  assumes "la_pipe la t0 = (Inr (rd, wr), t1)" and "la_pipe la t1 = (Inr (rd', wr'), t2)"
    and "la_read_line la rd (la_fork la (case name of Some prog \<Rightarrow> prog | None \<Rightarrow> ''nak-backend'') wr rd' t2) =
      (Inr handshake, t)"
  shows "launch_backend la name t0 = (Ok (launched t), t)"
  using assms by (simp add: launch_backend_def eff_defs)

text \<open>
  C11: \<open>nak --command\<close> runs its line and ends. When the preferences load, the program started on the
  other end of the pipes answers the handshake and then reports itself, the line converts, and the
  responses after it are received and leave nothing to wait for, \<open>main\<close> returns without an error,
  after as many turns of the loop as there were responses and three more.
\<close>

theorem command_line_ends:
  assumes "load (su_home_dir su) (su_open_file su) (su_from_str su) = Ok p"
    and "la_pipe (su_launcher su) t0 = (Inr (rd, wr), t1)" and "la_pipe (su_launcher su) t1 = (Inr (rd', wr'), t2)"
    and "la_read_line (su_launcher su) rd (la_fork (su_launcher su)
      (case backend of Some prog \<Rightarrow> prog | None \<Rightarrow> ''nak-backend'') wr rd' t2) = (Inr handshake, t)"
    and "valid_utf8 line" and "parse_input line = Ok a" and "\<forall>h cls. a \<noteq> Sequence h cls"
    and "parse_command_simple root_only p line = Ok pl" and "reliable w"
    and "carry_plan w pl (connected t info) = (Ok go, e1)" and "absorbs w fo e1 ms e2" and "idle e2"
    and "directories_told e2"
  shows "fst (front_main su w fo typist i save (length ms + 3)
     (EvRemote (ready_response info) # map EvRemote ms) alive backend (Some line) t0) = Ok ()"
proof -
  note launch = launch_run [OF assms(2-4)]
  from session_ends [OF assms(5-13), of 0 "[]"] obtain s' where
    "remote_run w fo (\<lambda>_. get_command) (ret ()) (length ms + 3)
      \<lparr>fr_receiver = EvRemote (ready_response info) # map EvRemote ms, fr_open = alive, fr_remote = launched t,
       fr_reader = single_command_reader_new p line\<rparr> = (Ok (), s')" by auto
  with assms(1) launch show ?thesis
    by (simp add: front_main_def run_session_def answer_def bnd_def)
qed


section \<open>A concrete program\<close>

definition demo_surroundings :: "bytes list surroundings" where
  "demo_surroundings = \<lparr>su_home_dir = Some ''/home/user'', su_open_file = (\<lambda>_. OpenError NotFound),
     su_from_str = (\<lambda>_. Err ''serde_json''), su_history = (\<lambda>_. Inl NotFound),
     su_launcher = \<lparr>la_pipe = (\<lambda>t. (Inr (3, 4), t)), la_fork = (\<lambda>_ _ _ t. t),
       la_read_line = (\<lambda>_ t. (Inr handshake, t))\<rparr>,
     su_set_handler = (\<lambda>t. (Inr (), t))\<rparr>"

definition one_typed :: "string \<Rightarrow> nat typist" where
  "one_typed line shown n = ((if n = 0 then Line line else UnexpectedEof, None), n + 1)"

lemma command_line_ends_witness:
  "fst (front_main demo_surroundings log_wire demo_terminal (one_typed ''exit'') 0 (ret ()) (length session_messages + 3)
     (EvRemote (ready_response demo_info) # map EvRemote session_messages) True None (Some piped_line) []) = Ok ()"
proof (rule command_line_ends [OF _ _ _ _ piped_valid piped_parse _ piped_plan log_wire_laws(1)
      session_sent [unfolded log_front_def] session_absorbed session_left])
  show "load (su_home_dir demo_surroundings) (su_open_file demo_surroundings) (su_from_str demo_surroundings) =
      Ok prefs_default"
    by (simp add: demo_surroundings_def load_def)
qed (simp_all add: demo_surroundings_def piped_ast_def pipeline_ast_def)



end
