(* ===== verification/Codec.thy ===== *)
theory Codec
  imports Requests
begin

text \<open>
  A printer and a parser of requests and responses. They stand for \<open>serde_json\<close>, which the programs
  only call: what is assumed of it elsewhere (parsing gives back what was printed, and every
  message can be printed) holds of these two, so it can hold.
\<close>

text \<open>A number is printed in unary, a list after its length, a variant after its number.\<close>

type_synonym 'a reader = "bytes \<Rightarrow> ('a \<times> bytes) option"

named_theorems reads_back "a reader after its printer"

fun read_num_code :: "nat \<Rightarrow> nat reader" where
  "read_num_code k [] = None"
| "read_num_code k (c # r) = (if c = CHR ''1'' then read_num_code (Suc k) r else Some (k, r))"

definition print_nat :: "nat \<Rightarrow> bytes" where
  "print_nat k = replicate k (CHR ''1'') @ ''0''"

definition read_nat :: "nat reader" where
  "read_nat = read_num_code 0"

lemma read_num_code: "read_num_code k (print_nat i @ r) = Some (k + i, r)"
  by (induction i arbitrary: k) (simp_all add: print_nat_def)

lemma read_nat [reads_back]: "read_nat (print_nat i @ r) = Some (i, r)"
  by (simp add: read_nat_def read_num_code)

definition and_then :: "'a reader \<Rightarrow> ('a \<Rightarrow> 'b reader) \<Rightarrow> 'b reader" where
  "and_then rd f s = Option.bind (rd s) (\<lambda>(x, r). f x r)"

definition give :: "'a \<Rightarrow> 'a reader" where
  "give x s = Some (x, s)"

lemmas reader_defs = and_then_def give_def

definition print_string :: "string \<Rightarrow> bytes" where
  "print_string s = print_nat (length s) @ s"

definition read_string :: "string reader" where
  "read_string = and_then read_nat (\<lambda>k s. if length s < k then None else Some (take k s, drop k s))"

lemma read_string [reads_back]: "read_string (print_string s @ r) = Some (s, r)"
  by (simp add: read_string_def print_string_def reader_defs reads_back)

primrec read_times :: "nat \<Rightarrow> 'a reader \<Rightarrow> 'a list reader" where
  "read_times 0 rd = give []"
| "read_times (Suc k) rd = and_then rd (\<lambda>x. and_then (read_times k rd) (\<lambda>xs. give (x # xs)))"

definition print_list :: "('a \<Rightarrow> bytes) \<Rightarrow> 'a list \<Rightarrow> bytes" where
  "print_list pr xs = print_nat (length xs) @ concat (map pr xs)"

definition read_list :: "'a reader \<Rightarrow> 'a list reader" where
  "read_list rd = and_then read_nat (\<lambda>k. read_times k rd)"

lemma read_times: "(\<And>x r. rd (pr x @ r) = Some (x, r)) \<Longrightarrow> read_times (length xs) rd (concat (map pr xs) @ r) = Some (xs, r)"
  by (induction xs) (simp_all add: reader_defs)

lemma read_list: "(\<And>x r. rd (pr x @ r) = Some (x, r)) \<Longrightarrow> read_list rd (print_list pr xs @ r) = Some (xs, r)"
  by (simp add: read_list_def print_list_def reader_defs reads_back read_times)

definition print_int :: "int \<Rightarrow> bytes" where
  "print_int i = print_nat (if i < 0 then 1 else 0) @ print_nat (nat (abs i))"

definition read_int :: "int reader" where
  "read_int = and_then read_nat (\<lambda>neg. and_then read_nat (\<lambda>k. give (if neg = 1 then - int k else int k)))"

lemma read_int [reads_back]: "read_int (print_int i @ r) = Some (i, r)"
  by (simp add: read_int_def print_int_def reader_defs reads_back)

definition print_u64 :: "u64 \<Rightarrow> bytes" where
  "print_u64 x = print_nat (unat x)"

definition read_u64 :: "u64 reader" where
  "read_u64 = and_then read_nat (\<lambda>k. give (of_nat k))"

lemma read_u64 [reads_back]: "read_u64 (print_u64 x @ r) = Some (x, r)"
  by (simp add: read_u64_def print_u64_def reader_defs reads_back)

section \<open>Messages\<close>

fun print_command :: "command \<Rightarrow> bytes" where
  "print_command (Unknown path args) = print_nat 0 @ print_string path @ print_list print_string args"
| "print_command (SetDirectory dir) = print_nat 1 @ print_string dir"
| "print_command GetDirectory = print_nat 2"
| "print_command (Edit path) = print_nat 3 @ print_string path"

definition read_command :: "command reader" where
  "read_command = and_then read_nat (\<lambda>k.
     if k = 0 then and_then read_string (\<lambda>path. and_then (read_list read_string) (\<lambda>args. give (Unknown path args)))
     else if k = 1 then and_then read_string (\<lambda>dir. give (SetDirectory dir))
     else if k = 2 then give GetDirectory
     else and_then read_string (\<lambda>path. give (Edit path)))"

lemma read_command [reads_back]: "read_command (print_command c @ r) = Some (c, r)"
  by (cases c) (simp_all add: read_command_def reader_defs reads_back read_list)

fun print_pipe_message :: "pipe_message \<Rightarrow> bytes" where
  "print_pipe_message BeginRead = print_nat 0"
| "print_pipe_message (Data d off) = print_nat 1 @ print_string d @ print_u64 off"
| "print_pipe_message (Read k) = print_nat 2 @ print_u64 k"
| "print_pipe_message (Closed off) = print_nat 3 @ print_u64 off"

definition read_pipe_message :: "pipe_message reader" where
  "read_pipe_message = and_then read_nat (\<lambda>k.
     if k = 0 then give BeginRead
     else if k = 1 then and_then read_string (\<lambda>d. and_then read_u64 (\<lambda>off. give (Data d off)))
     else if k = 2 then and_then read_u64 (\<lambda>n. give (Read n))
     else and_then read_u64 (\<lambda>off. give (Closed off)))"

lemma read_pipe_message [reads_back]: "read_pipe_message (print_pipe_message m @ r) = Some (m, r)"
  by (cases m) (simp_all add: read_pipe_message_def reader_defs reads_back)

definition print_envelope :: "pipe_envelope \<Rightarrow> bytes" where
  "print_envelope e = print_nat (env_id e) @ print_pipe_message (env_msg e)"

definition read_envelope :: "pipe_envelope reader" where
  "read_envelope = and_then read_nat (\<lambda>k. and_then read_pipe_message (\<lambda>m. give \<lparr>env_id = k, env_msg = m\<rparr>))"

lemma read_envelope [reads_back]: "read_envelope (print_envelope e @ r) = Some (e, r)"
  by (simp add: read_envelope_def print_envelope_def reader_defs reads_back)

definition print_pid :: "process_id \<Rightarrow> bytes" where
  "print_pid p = print_nat (pid_num p)"

definition read_pid :: "process_id reader" where
  "read_pid = and_then read_nat (\<lambda>k. give (ProcessId k))"

lemma read_pid [reads_back]: "read_pid (print_pid p @ r) = Some (p, r)"
  by (simp add: read_pid_def print_pid_def reader_defs reads_back)

definition print_block :: "process_id \<times> condition \<Rightarrow> bytes" where
  "print_block b = print_pid (fst b) @ print_nat (case snd b of None \<Rightarrow> 0 | Some Success \<Rightarrow> 1 | Some Failure \<Rightarrow> 2)"

definition read_block :: "(process_id \<times> condition) reader" where
  "read_block = and_then read_pid (\<lambda>p. and_then read_nat (\<lambda>k.
     give (p, if k = 0 then None else if k = 1 then Some Success else Some Failure)))"

lemma read_block [reads_back]: "read_block (print_block b @ r) = Some (b, r)"
  by (cases b) (simp add: read_block_def print_block_def reader_defs reads_back split: option.split exit_status.split)

definition print_abstract :: "abstract_process \<Rightarrow> bytes" where
  "print_abstract a = print_pid (ap_id a) @ print_nat (ap_stdin a) @ print_nat (ap_stdout a) @ print_nat (ap_stderr a)"

definition read_abstract :: "abstract_process reader" where
  "read_abstract = and_then read_pid (\<lambda>p. and_then read_nat (\<lambda>i. and_then read_nat (\<lambda>out. and_then read_nat (\<lambda>err.
     give \<lparr>ap_id = p, ap_stdin = i, ap_stdout = out, ap_stderr = err\<rparr>))))"

lemma read_abstract [reads_back]: "read_abstract (print_abstract a @ r) = Some (a, r)"
  by (simp add: read_abstract_def print_abstract_def reader_defs reads_back)

fun print_remote_request :: "remote_request \<Rightarrow> bytes" where
  "print_remote_request (RqBeginCommand bf a c) = print_nat 0 @ print_list print_block bf @ print_abstract a @ print_command c"
| "print_remote_request (RqCancelCommand p) = print_nat 1 @ print_pid p"
| "print_remote_request (RqBeginRemote k c) = print_nat 2 @ print_nat k @ print_command c"
| "print_remote_request (RqOpenOutputFile k path) = print_nat 3 @ print_nat k @ print_string path"
| "print_remote_request (RqOpenInputFile k path) = print_nat 4 @ print_nat k @ print_string path"
| "print_remote_request (RqEndRemote k) = print_nat 5 @ print_nat k"
| "print_remote_request (RqListDirectory k path) = print_nat 6 @ print_nat k @ print_string path"
| "print_remote_request (RqFinishEdit k d) = print_nat 7 @ print_nat k @ print_string d"
| "print_remote_request (RqPipe e) = print_nat 8 @ print_envelope e"

definition read_remote_request :: "remote_request reader" where
  "read_remote_request = and_then read_nat (\<lambda>v.
     if v = 0 then and_then (read_list read_block) (\<lambda>bf. and_then read_abstract (\<lambda>a. and_then read_command (\<lambda>c.
       give (RqBeginCommand bf a c))))
     else if v = 1 then and_then read_pid (\<lambda>p. give (RqCancelCommand p))
     else if v = 8 then and_then read_envelope (\<lambda>e. give (RqPipe e))
     else and_then read_nat (\<lambda>k.
       if v = 2 then and_then read_command (\<lambda>c. give (RqBeginRemote k c))
       else if v = 5 then give (RqEndRemote k)
       else and_then read_string (\<lambda>s. give
         (if v = 3 then RqOpenOutputFile k s else if v = 4 then RqOpenInputFile k s
          else if v = 6 then RqListDirectory k s else RqFinishEdit k s))))"

lemma read_remote_request [reads_back]: "read_remote_request (print_remote_request m @ r) = Some (m, r)"
  by (cases m) (simp_all add: read_remote_request_def reader_defs reads_back read_list)

definition print_info :: "remote_info \<Rightarrow> bytes" where
  "print_info i = print_string (hostname i) @ print_string (username i) @ print_string (working_dir i)"

definition read_info :: "remote_info reader" where
  "read_info = and_then read_string (\<lambda>h. and_then read_string (\<lambda>u. and_then read_string (\<lambda>d.
     give \<lparr>hostname = h, username = u, working_dir = d\<rparr>)))"

lemma read_info [reads_back]: "read_info (print_info i @ r) = Some (i, r)"
  by (simp add: read_info_def print_info_def reader_defs reads_back)

fun print_remote_response :: "remote_response \<Rightarrow> bytes" where
  "print_remote_response (RsRemoteReady i) = print_nat 0 @ print_info i"
| "print_remote_response (RsCommandDone p k) = print_nat 1 @ print_pid p @ print_int k"
| "print_remote_response (RsDirectoryListing k items) = print_nat 2 @ print_nat k @ print_list print_string items"
| "print_remote_response (RsEditRequest p k name d) = print_nat 3 @ print_pid p @ print_nat k @ print_string name @ print_string d"
| "print_remote_response (RsPipe e) = print_nat 4 @ print_envelope e"

definition read_remote_response :: "remote_response reader" where
  "read_remote_response = and_then read_nat (\<lambda>v.
     if v = 0 then and_then read_info (\<lambda>i. give (RsRemoteReady i))
     else if v = 1 then and_then read_pid (\<lambda>p. and_then read_int (\<lambda>k. give (RsCommandDone p k)))
     else if v = 2 then and_then read_nat (\<lambda>k. and_then (read_list read_string) (\<lambda>items. give (RsDirectoryListing k items)))
     else if v = 3 then and_then read_pid (\<lambda>p. and_then read_nat (\<lambda>k. and_then read_string (\<lambda>name.
       and_then read_string (\<lambda>d. give (RsEditRequest p k name d)))))
     else and_then read_envelope (\<lambda>e. give (RsPipe e)))"

lemma read_remote_response [reads_back]: "read_remote_response (print_remote_response m @ r) = Some (m, r)"
  by (cases m) (simp_all add: read_remote_response_def reader_defs reads_back read_list)

text \<open>What is left of a line after the message is the newline.\<close>

definition print_request :: "request \<Rightarrow> bytes" where
  "print_request q = print_nat (rq_remote_id q) @ print_remote_request (rq_message q)"

definition parse_request :: "bytes \<Rightarrow> request option" where
  "parse_request line = map_option fst (and_then read_nat (\<lambda>k. and_then read_remote_request (\<lambda>m.
     give \<lparr>rq_remote_id = k, rq_message = m\<rparr>)) line)"

definition print_response :: "response \<Rightarrow> bytes" where
  "print_response q = print_nat (rs_remote_id q) @ print_remote_response (rs_message q)"

definition parse_response :: "bytes \<Rightarrow> response option" where
  "parse_response line = map_option fst (and_then read_nat (\<lambda>k. and_then read_remote_response (\<lambda>m.
     give \<lparr>rs_remote_id = k, rs_message = m\<rparr>)) line)"

definition coded_wire :: "bytes list wire" where
  "coded_wire = \<lparr>wire_send = (\<lambda>line log. (Inr (), log @ [line])),
     request_string = (\<lambda>q. Some (print_request q)), response_string = (\<lambda>q. Some (print_response q))\<rparr>"

lemma parse_request: "parse_request (print_request q @ r) = Some q"
  by (simp add: parse_request_def print_request_def reader_defs reads_back)

lemma parse_response: "parse_response (print_response q @ r) = Some q"
  by (simp add: parse_response_def print_response_def reader_defs reads_back)

lemma coded_wire_laws:
  "logging coded_wire" "recording coded_wire" "reliable coded_wire"
  "faithful (request_string coded_wire) parse_request" "faithful (response_string coded_wire) parse_response"
  by (simp_all add: coded_wire_def logging_def recording_def reliable_def faithful_def parse_request parse_response)

end
