(* ===== verification/Job.thy ===== *)
theory Job
  imports Delivery Codec
begin

text \<open>
  What the executor promises to a client that sends it well-formed requests, as a small abstract
  machine (\<open>job\<close>): which commands run, which are done, the one that waits, which ends of which
  pipes are taken, and what is reported after which event. The executor of \<open>exec.rs\<close> implements it
  on an operating system that grants pipes and processes, whatever else happens in between.
\<close>

section \<open>The abstract executor\<close>

record job =
  jb_running :: "process_id set"
  jb_done :: "process_id set"
  jb_waiting :: "(process_id \<times> run_cmd \<times> process_id set) option"
  jb_readers :: "nat set"
  jb_writers :: "nat set"
  jb_told :: "nat set"

definition job_new :: job where
  "job_new = \<lparr>jb_running = {}, jb_done = {}, jb_waiting = None, jb_readers = {}, jb_writers = {}, jb_told = {}\<rparr>"

definition in_of :: "run_cmd \<Rightarrow> nat" where
  "in_of c = read_num (w_stdin (rc_pipes c))"

definition out_of :: "run_cmd \<Rightarrow> nat" where
  "out_of c = write_num (w_stdout (rc_pipes c))"

definition err_of :: "run_cmd \<Rightarrow> nat" where
  "err_of c = write_num (w_stderr (rc_pipes c))"

text \<open>A command that is started: a program runs on; a builtin is done at once, and reports 0.\<close>

definition job_start :: "process_id \<Rightarrow> run_cmd \<Rightarrow> job \<Rightarrow> (job \<times> remote_response list) option" where
  "job_start p c j =
     (if out_of c \<in> jb_writers j \<or> err_of c \<in> jb_writers j \<or> out_of c = err_of c then None
      else let j' = j\<lparr>jb_writers := {out_of c, err_of c} \<union> jb_writers j\<rparr> in
      case rc_cmd c of
        Unknown _ _ \<Rightarrow> if in_of c \<in> jb_readers j then None
          else Some (j'\<lparr>jb_running := insert p (jb_running j), jb_readers := insert (in_of c) (jb_readers j)\<rparr>, [])
      | SetDirectory _ \<Rightarrow> Some (j'\<lparr>jb_done := insert p (jb_done j)\<rparr>, [RsCommandDone p 0])
      | GetDirectory \<Rightarrow> Some (j'\<lparr>jb_done := insert p (jb_done j), jb_told := insert (out_of c) (jb_told j)\<rparr>,
          [RsCommandDone p 0])
      | Edit _ \<Rightarrow> None)"

definition job_enqueue :: "process_id \<Rightarrow> run_cmd \<Rightarrow> (process_id \<times> condition) list \<Rightarrow> job \<Rightarrow>
    (job \<times> remote_response list) option" where
  "job_enqueue p c bf j =
     (if p \<in> jb_running j \<union> jb_done j \<or> p \<in> fst ` set_option (jb_waiting j) \<or> \<not> distinct (map fst bf) \<or>
         (\<exists>b\<in>set bf. snd b \<noteq> None \<or> fst b \<notin> jb_running j \<union> jb_done j) then None
      else if fst ` set bf \<subseteq> jb_done j then job_start p c j
      else if jb_waiting j = None then Some (j\<lparr>jb_waiting := Some (p, c, fst ` set bf - jb_done j)\<rparr>, [])
      else None)"

definition job_completed :: "process_id \<Rightarrow> int \<Rightarrow> job \<Rightarrow> (job \<times> remote_response list) option" where
  "job_completed p exit_code j =
     (if p \<notin> jb_running j then None
      else let j' = j\<lparr>jb_running := jb_running j - {p}, jb_done := insert p (jb_done j)\<rparr>;
               tell = map_option (\<lambda>(j'', rs). (j'', RsCommandDone p exit_code # rs)) in
      case jb_waiting j of
        None \<Rightarrow> tell (Some (j', []))
      | Some (q, c, left) \<Rightarrow>
          if left \<subseteq> {p} then tell (job_start q c (j'\<lparr>jb_waiting := None\<rparr>))
          else tell (Some (j'\<lparr>jb_waiting := Some (q, c, left - {p})\<rparr>, [])))"

fun job_step :: "exec_event \<Rightarrow> job \<Rightarrow> (job \<times> remote_response list) option" where
  "job_step (EvEnqueue p c bf) j = job_enqueue p c bf j"
| "job_step (EvCompleted p exit_code) j = job_completed p exit_code j"
| "job_step (EvPipeMessage g BeginRead) j =
     (if pipe_num g \<in> jb_readers j then None else Some (j\<lparr>jb_readers := insert (pipe_num g) (jb_readers j)\<rparr>, []))"
| "job_step (EvPipeMessage g (Read _)) j = Some (j, [])"
| "job_step (EvPipeOutput g data off) j = Some (j, [RsPipe \<lparr>env_id = pipe_num g, env_msg = Data data off\<rparr>])"
| "job_step (EvPipeClosed g off) j = Some (j, [RsPipe \<lparr>env_id = pipe_num g, env_msg = Closed off\<rparr>])"
| "job_step _ j = None"

primrec job_run :: "exec_event list \<Rightarrow> job \<Rightarrow> (job \<times> remote_response list) option" where
  "job_run [] j = Some (j, [])"
| "job_run (ev # evs) j = Option.bind (job_step ev j) (\<lambda>(j1, rs).
     map_option (\<lambda>(j2, rs'). (j2, rs @ rs')) (job_run evs j1))"

section \<open>What the executor's state says of the job\<close>

definition ends :: "('w, 'h) exec \<Rightarrow> nat set \<Rightarrow> nat set \<Rightarrow> bool" where
  "ends s R W \<longleftrightarrow> (\<forall>i. case open_handles s (GenericPipe i) of
     None \<Rightarrow> i \<notin> R \<and> i \<notin> W
   | Some hp \<Rightarrow> (pair_read hp = None \<longleftrightarrow> i \<in> R) \<and> (pair_write hp = None \<longleftrightarrow> i \<in> W))"

definition sched :: "(process_id, run_cmd, process_st) machine \<Rightarrow> job \<Rightarrow> bool" where
  "sched m j \<longleftrightarrow> dom (running m) = jb_running j \<and> dom (finished m) = jb_done j \<and> jb_running j \<inter> jb_done j = {} \<and>
     (case jb_waiting j of
        None \<Rightarrow> waiting_on m = Map.empty \<and> check_on_completed m = Map.empty
      | Some (q, c, left) \<Rightarrow> q \<notin> jb_running j \<union> jb_done j \<and> left \<noteq> {} \<and> left \<subseteq> jb_running j \<and>
          check_on_completed m = (\<lambda>p. if p \<in> left then Some [(None, q)] else None) \<and>
          (\<exists>bf. waiting_on m = [q \<mapsto> \<lparr>cmd = c, conditions = bf\<rparr>] \<and> distinct (map fst bf) \<and>
             set bf = (\<lambda>p. (p, None)) ` left))"

text \<open>What builtins wrote: nothing to a pipe whose writing end is free, a directory and a newline where they had to.\<close>

definition answers_dir :: "'w os \<Rightarrow> string \<Rightarrow> bool" where
  "answers_dir os dir \<longleftrightarrow> (\<exists>v v'. os_cur_dir os v = (Inr dir, v'))"

definition told :: "'w os \<Rightarrow> thread list \<Rightarrow> job \<Rightarrow> bool" where
  "told os ths j \<longleftrightarrow> (\<forall>i. i \<notin> jb_writers j \<longrightarrow> written (WritePipe i) ths = []) \<and> jb_told j \<subseteq> jb_writers j \<and>
     (\<forall>i\<in>jb_told j. \<exists>dir. answers_dir os dir \<and> written (WritePipe i) ths = dir @ newline)"

text \<open>The executor between two events, and when the commands \<open>T\<close> are about to be started.\<close>

definition about :: "'w os \<Rightarrow> process_id set \<Rightarrow> job \<Rightarrow> bytes list \<Rightarrow> ('w, bytes list backend) exec \<Rightarrow> bool" where
  "about os T j log s \<longleftrightarrow> sched (ex_machine s) j \<and> to_run (ex_machine s) = T \<and>
     ends s (jb_readers j) (jb_writers j) \<and> told os (ex_threads s) j \<and> bk_trans (ex_handler s) = log"

abbreviation follows :: "'w os \<Rightarrow> job \<Rightarrow> bytes list \<Rightarrow> ('w, bytes list backend) exec \<Rightarrow> bool" where
  "follows os \<equiv> about os {}"

text \<open>
  An operating system that grants what is asked for, at least the programs in \<open>P\<close>; an obliging one has
  every program.
\<close>

definition grants :: "(string \<Rightarrow> bool) \<Rightarrow> 'w os \<Rightarrow> bool" where
  "grants P os \<longleftrightarrow> (\<forall>v. \<exists>r w v'. os_pipe os v = (Inr (r, w), v')) \<and>
     (\<forall>c v. P (program c) \<longrightarrow> (\<exists>h v'. os_spawn os c v = (Inr h, v'))) \<and>
     (\<forall>v. \<exists>dir v'. os_cur_dir os v = (Inr dir, v') \<and> valid_utf8 dir)"

definition obliging :: "'w os \<Rightarrow> bool" where
  "obliging os \<longleftrightarrow> grants (\<lambda>_. True) os"

definition found :: "(string \<Rightarrow> bool) \<Rightarrow> run_cmd \<Rightarrow> bool" where
  "found P c \<longleftrightarrow> (case rc_cmd c of Unknown path _ \<Rightarrow> P path | _ \<Rightarrow> True)"

fun starts_found :: "(string \<Rightarrow> bool) \<Rightarrow> exec_event \<Rightarrow> bool" where
  "starts_found P (EvEnqueue p c bf) \<longleftrightarrow> found P c"
| "starts_found P _ \<longleftrightarrow> True"

definition waits_found :: "(string \<Rightarrow> bool) \<Rightarrow> job \<Rightarrow> bool" where
  "waits_found P j \<longleftrightarrow> (\<forall>q c left. jb_waiting j = Some (q, c, left) \<longrightarrow> found P c)"

lemma all_found [simp]: "found (\<lambda>_. True) c" "starts_found (\<lambda>_. True) ev" "waits_found (\<lambda>_. True) j"
  by (auto simp: found_def waits_found_def split: command.split) (cases ev; simp add: found_def split: command.split)

lemma waits_found_step:
  assumes "job_step ev j = Some (j', rs)" and "starts_found P ev" and "waits_found P j"
  shows "waits_found P j'"
  using assms
  by (cases "(ev, j)" rule: job_step.cases)
    (auto simp: job_enqueue_def job_completed_def job_start_def waits_found_def Let_def split: if_splits option.splits command.splits)

definition answering :: "bytes list wire \<Rightarrow> bool" where
  "answering w \<longleftrightarrow> recording w \<and> (\<forall>q. response_string w q \<noteq> None)"

definition reply_line :: "'t wire \<Rightarrow> remote_response \<Rightarrow> bytes" where
  "reply_line w m = the (response_string w \<lparr>rs_remote_id = 0, rs_message = m\<rparr>) @ newline"

lemma wp_bk_send_answering:
  assumes "answering w"
  shows "wp (bk_send w m) Q E P b = Q () (b\<lparr>bk_trans := bk_trans b @ [reply_line w m]\<rparr>)"
proof -
  from assms obtain s where "response_string w \<lparr>rs_remote_id = 0, rs_message = m\<rparr> = Some s"
    unfolding answering_def by blast
  with assms show ?thesis by (simp add: wp_simps answering_def recording_def reply_line_def)
qed

lemma grantsE:
  assumes "grants P os"
  obtains r w v' where "os_pipe os v = (Inr (r, w), v')"
  using assms unfolding grants_def by blast

text \<open>What taking an end leaves: the other parts of the executor are as they were.\<close>

definition same_but_ends :: "('w, 'h) exec \<Rightarrow> ('w, 'h) exec \<Rightarrow> bool" where
  "same_but_ends s s' \<longleftrightarrow> ex_machine s' = ex_machine s \<and> ex_handler s' = ex_handler s \<and> ex_threads s' = ex_threads s"

lemma take_read_end:
  assumes "grants P os" and "ends s R W" and "i \<notin> R"
  shows "returns (read_end os (ReadPipe i)) (\<lambda>_ s'. ends s' (insert i R) W \<and> same_but_ends s s') s"
proof (cases "open_handles s (GenericPipe i)")
  case None
  moreover obtain r w v' where "os_pipe os (ex_world s) = (Inr (r, w), v')" using assms(1) by (rule grantsE)
  moreover have "i \<notin> W" using assms(2) None by (auto simp: ends_def dest: spec [of _ i])
  ultimately show ?thesis
    using assms(2) by (auto simp: read_end_def put_pair_def on_os_def wp_simps ends_def same_but_ends_def cong: option.case_cong)
next
  case (Some hp)
  with assms(2,3) have "pair_read hp \<noteq> None" by (auto simp: ends_def dest: spec [of _ i])
  with Some assms(2) show ?thesis
    by (auto simp: read_end_def put_pair_def wp_simps ends_def same_but_ends_def dest: spec [of _ i] cong: option.case_cong)
qed

lemma take_write_end:
  assumes "grants P os" and "ends s R W" and "i \<notin> W"
  shows "returns (write_end os (WritePipe i)) (\<lambda>_ s'. ends s' R (insert i W) \<and> same_but_ends s s') s"
proof (cases "open_handles s (GenericPipe i)")
  case None
  moreover obtain r w v' where "os_pipe os (ex_world s) = (Inr (r, w), v')" using assms(1) by (rule grantsE)
  moreover have "i \<notin> R" using assms(2) None by (auto simp: ends_def dest: spec [of _ i])
  ultimately show ?thesis
    using assms(2) by (auto simp: write_end_def put_pair_def on_os_def wp_simps ends_def same_but_ends_def cong: option.case_cong)
next
  case (Some hp)
  with assms(2,3) have "pair_write hp \<noteq> None" by (auto simp: ends_def dest: spec [of _ i])
  with Some assms(2) show ?thesis
    by (auto simp: write_end_def put_pair_def wp_simps ends_def same_but_ends_def dest: spec [of _ i] cong: option.case_cong)
qed

section \<open>Running a command\<close>

definition wrote :: "(write_pipe \<Rightarrow> bytes) \<Rightarrow> ('w, 'h) exec \<Rightarrow> ('w, 'h) exec \<Rightarrow> bool" where
  "wrote f s s' \<longleftrightarrow> ex_machine s' = ex_machine s \<and> ex_handler s' = ex_handler s \<and>
     (\<forall>q. written q (ex_threads s') = written q (ex_threads s) @ f q)"

lemma wrote_trans: "wrote f s t \<Longrightarrow> wrote g t u \<Longrightarrow> wrote (\<lambda>q. f q @ g q) s u"
  by (simp add: wrote_def)

lemma same_wrote: "same_but_ends s s' \<Longrightarrow> wrote (\<lambda>_. []) s s'"
  by (simp add: same_but_ends_def wrote_def)

lemma write_and_close:
  assumes "grants P os" and "ends s R W" and "write_num p \<notin> W"
  shows "returns (bnd (write_end os p) (\<lambda>h. pipe_and_close p h data))
    (\<lambda>_ s'. ends s' R (insert (write_num p) W) \<and> wrote (\<lambda>q. if q = p then data else []) s s') s"
proof (rule wp_bndI [OF take_write_end [OF assms, unfolded write_pipe.collapse]])
  show "returns (pipe_and_close p h data)
      (\<lambda>_ s'. ends s' R (insert (write_num p) W) \<and> wrote (\<lambda>q. if q = p then data else []) s s') s1"
    if "ends s1 R (insert (write_num p) W) \<and> same_but_ends s s1" for h s1
    using that
    by (auto simp: pipe_and_close_def spawn_thread_def wp_simps ends_def same_but_ends_def wrote_def written_def)
qed simp_all

lemma output_closed:
  assumes "grants P os" and "ends s R W" and "write_num (w_stdout ps) \<notin> W" and "write_num (w_stderr ps) \<notin> W"
    and "write_num (w_stdout ps) \<noteq> write_num (w_stderr ps)"
  shows "returns (pipe_output_and_close os ps out err)
    (\<lambda>_ s'. ends s' R ({write_num (w_stdout ps), write_num (w_stderr ps)} \<union> W) \<and>
       wrote (\<lambda>q. (if q = w_stdout ps then out else []) @ (if q = w_stderr ps then err else [])) s s') s"
proof -
  have both: "pipe_output_and_close os ps out err =
      thn (bnd (write_end os (w_stdout ps)) (\<lambda>h. pipe_and_close (w_stdout ps) h out))
        (bnd (write_end os (w_stderr ps)) (\<lambda>h. pipe_and_close (w_stderr ps) h err))"
    by (simp add: pipe_output_and_close_def thn_def bnd_bnd)
  show ?thesis
    unfolding both thn_def
  proof (rule wp_bndI [OF write_and_close [OF assms(1-3)]])
    fix u and s1 :: "('a, 'b) exec"
    assume s1: "ends s1 R (insert (write_num (w_stdout ps)) W) \<and> wrote (\<lambda>q. if q = w_stdout ps then out else []) s s1"
    show "returns (bnd (write_end os (w_stderr ps)) (\<lambda>h. pipe_and_close (w_stderr ps) h err))
      (\<lambda>_ s'. ends s' R ({write_num (w_stdout ps), write_num (w_stderr ps)} \<union> W) \<and>
       wrote (\<lambda>q. (if q = w_stdout ps then out else []) @ (if q = w_stderr ps then err else [])) s s') s1"
      by (rule wp_mono [OF write_and_close [OF assms(1) s1 [THEN conjunct1]]])
        (use assms(4,5) s1 wrote_trans in \<open>auto simp: insert_commute\<close>)
  qed simp_all
qed

text \<open>What remains to be done by the scheduler: a command that is ready is noted as running, or as done.\<close>

definition fresh :: "process_id \<Rightarrow> job \<Rightarrow> bool" where
  "fresh p j \<longleftrightarrow> p \<notin> jb_running j \<union> jb_done j \<and> p \<notin> fst ` set_option (jb_waiting j)"

lemma sched_start:
  assumes "sched m j" and "to_run m = {p}" and "fresh p j"
  shows "\<exists>m'. start p st m = (Ok (), m') \<and> sched m' (j\<lparr>jb_running := insert p (jb_running j)\<rparr>) \<and> to_run m' = {}"
  using assms by (auto simp: start_def sched_def fresh_def eff_defs split: option.splits)

lemma sched_start_completed:
  assumes "sched m j" and "to_run m = {p}" and "fresh p j"
  shows "\<exists>m'. start_completed fuel p st m = (Ok [], m') \<and> sched m' (j\<lparr>jb_done := insert p (jb_done j)\<rparr>) \<and> to_run m' = {}"
proof -
  let ?m = "m\<lparr>to_run := {}, finished := (finished m)(p \<mapsto> st)\<rparr>"
  have "check_on_completed m p = None" using assms(1,3) by (auto simp: sched_def fresh_def split: option.splits if_split_asm)
  then have "start_completed fuel p st m = (Ok [], ?m)"
    using assms(2) by (simp add: start_completed_def resolve_tasks.simps eff_defs)
  moreover have "sched ?m (j\<lparr>jb_done := insert p (jb_done j)\<rparr>)"
    using assms(1,3) by (auto simp: sched_def fresh_def split: option.splits)
  ultimately show ?thesis by simp
qed

lemma sched_same:
  "sched m j \<Longrightarrow> jb_running j' = jb_running j \<Longrightarrow> jb_done j' = jb_done j \<Longrightarrow> jb_waiting j' = jb_waiting j \<Longrightarrow> sched m j'"
  by (simp add: sched_def split: option.splits prod.splits)

lemma sched_ends [simp]: "sched m (j\<lparr>jb_readers := R\<rparr>) = sched m j"
  by (auto simp: sched_def split: option.splits)

lemma ends_same [simp]:
  "ends (s\<lparr>ex_machine := m\<rparr>) = ends s" "ends (s\<lparr>ex_handler := h\<rparr>) = ends s" "ends (s\<lparr>ex_threads := ths\<rparr>) = ends s"
  by (simp_all add: ends_def fun_eq_iff)

text \<open>A program takes its three ends, then it is spawned.\<close>

lemma run_with_ends:
  assumes "grants P os" and "ends s R W" and "rc_cmd c = Unknown path args"
    and "in_of c \<notin> R" and "out_of c \<notin> W" and "err_of c \<notin> W" and "out_of c \<noteq> err_of c"
    and spawn: "\<And>oc s3. ends s3 (insert (in_of c) R) ({out_of c, err_of c} \<union> W) \<and> same_but_ends s s3 \<Longrightarrow> program oc = path \<Longrightarrow>
      wp (bnd (on_os (os_spawn os oc)) (\<lambda>handle. thn (spawn_thread (Waiter p handle)) (ret (RunProcess (PsRunning handle)))))
        Q E F s3"
  shows "wp (run os eh p c) Q E F s"
proof -
  have inp: "returns (read_end os (w_stdin (rc_pipes c))) (\<lambda>_ s1. ends s1 (insert (in_of c) R) W \<and> same_but_ends s s1) s"
    using take_read_end [OF assms(1,2,4)] by (simp add: in_of_def)
  have out: "returns (write_end os (w_stdout (rc_pipes c))) (\<lambda>_ s2. ends s2 (insert (in_of c) R) (insert (out_of c) W) \<and>
      same_but_ends s s2) s1" if "ends s1 (insert (in_of c) R) W \<and> same_but_ends s s1" for s1
    by (rule wp_mono [OF take_write_end [OF assms(1) that [THEN conjunct1] assms(5), unfolded out_of_def, simplified]])
      (use that in \<open>auto simp: out_of_def same_but_ends_def\<close>)
  have err: "returns (write_end os (w_stderr (rc_pipes c))) (\<lambda>_ s3. ends s3 (insert (in_of c) R) ({out_of c, err_of c} \<union> W) \<and>
      same_but_ends s s3) s2" if "ends s2 (insert (in_of c) R) (insert (out_of c) W) \<and> same_but_ends s s2" for s2
  proof -
    have "err_of c \<notin> insert (out_of c) W" using assms(6,7) by simp
    note taken = take_write_end [OF assms(1) that [THEN conjunct1] this]
    show ?thesis
      by (rule wp_mono [OF taken [unfolded err_of_def, simplified]])
        (use that in \<open>auto simp: err_of_def same_but_ends_def insert_commute\<close>)
  qed
  show ?thesis
    unfolding run_def assms(3) command.case
    by (rule wp_bndI [OF inp], rule wp_bndI [OF out], assumption, rule wp_bndI [OF err], assumption, rule spawn)
      (assumption | simp add: assign_stdin_def assign_stdout_def assign_stderr_def os_command_new_def)+
qed

lemma run_program:
  assumes "grants P os" and "ends s R W" and "rc_cmd c = Unknown path args"
    and "in_of c \<notin> R" and "out_of c \<notin> W" and "err_of c \<notin> W" and "out_of c \<noteq> err_of c" and "P path"
  shows "returns (run os eh p c) (\<lambda>r s'. (\<exists>st. r = RunProcess st) \<and>
     ends s' (insert (in_of c) R) ({out_of c, err_of c} \<union> W) \<and> wrote (\<lambda>_. []) s s') s"
proof (rule run_with_ends [OF assms(1-7)])
  fix oc :: os_command and s3 :: "('a, 'b) exec"
  assume at: "ends s3 (insert (in_of c) R) ({out_of c, err_of c} \<union> W) \<and> same_but_ends s s3" and "program oc = path"
  with assms(1,8) obtain h v' where "os_spawn os oc (ex_world s3) = (Inr h, v')" unfolding grants_def by blast
  with at show "returns (bnd (on_os (os_spawn os oc)) (\<lambda>handle. thn (spawn_thread (Waiter p handle)) (ret (RunProcess (PsRunning handle)))))
      (\<lambda>r s'. (\<exists>st. r = RunProcess st) \<and> ends s' (insert (in_of c) R) ({out_of c, err_of c} \<union> W) \<and> wrote (\<lambda>_. []) s s') s3"
    by (simp add: on_os_def spawn_thread_def wp_simps ends_def same_but_ends_def wrote_def written_def)
qed

lemma run_builtin:
  assumes ok: "grants P os" and "ends s R W" and "rc_cmd c = GetDirectory \<or> rc_cmd c = SetDirectory d"
    and "out_of c \<notin> W" and "err_of c \<notin> W" and "out_of c \<noteq> err_of c"
  shows "returns (run os eh p c) (\<lambda>r s'. (\<exists>st. r = AlreadyDone st) \<and> ends s' R ({out_of c, err_of c} \<union> W) \<and>
     (\<exists>f. wrote f s s' \<and> (\<forall>q. write_num q \<notin> {out_of c, err_of c} \<longrightarrow> f q = []) \<and>
       (rc_cmd c = GetDirectory \<longrightarrow> (\<exists>dir. answers_dir os dir \<and> f (w_stdout (rc_pipes c)) = dir @ newline)))) s"
proof -
  have quiet: "wrote f (s\<lparr>ex_world := v\<rparr>) t \<Longrightarrow> wrote f s t" for f v and t :: "('a, 'b) exec"
    by (simp add: wrote_def)
  note close = output_closed [OF ok _ assms(4-6) [unfolded out_of_def err_of_def]]
  have e: "ends (s\<lparr>ex_world := v\<rparr>) R W" for v using assms(2) by (simp add: ends_def)
  have apart: "w_stdout (rc_pipes c) \<noteq> w_stderr (rc_pipes c)" using assms(6) by (auto simp: out_of_def err_of_def)
  show ?thesis
  proof (cases "rc_cmd c = GetDirectory")
    case True
    from ok obtain dir v where dir: "os_cur_dir os (ex_world s) = (Inr dir, v)" and "valid_utf8 dir"
      unfolding grants_def by blast
    then have "answers_dir os dir" "lossy dir = dir" by (auto simp: answers_dir_def lossy_valid)
    note dir = dir this
    from close [OF e [of v], of "dir @ newline" "[]"] dir True apart show ?thesis
      by (auto simp: run_def on_os_def wp_simps out_of_def err_of_def elim!: wp_mono dest!: quiet
          intro!: exI [of _ "\<lambda>q. (if q = w_stdout (rc_pipes c) then dir @ newline else []) @ (if q = w_stderr (rc_pipes c) then [] else [])"])
  next
    case False
    with assms(3) have c: "rc_cmd c = SetDirectory d" by simp
    obtain r v where r: "os_set_dir os d (ex_world s) = (r, v)" by fastforce
    have any: "returns (pipe_output_and_close os (rc_pipes c) out [])
      (\<lambda>_ s'. ends s' R ({out_of c, err_of c} \<union> W) \<and> (\<exists>f. wrote f s s' \<and> (\<forall>q. write_num q \<notin> {out_of c, err_of c} \<longrightarrow> f q = [])))
      (s\<lparr>ex_world := v\<rparr>)" for out
      by (rule wp_mono [OF close [OF e]]) (fastforce simp: out_of_def err_of_def dest!: quiet)+
    show ?thesis
      using r c by (cases r) (simp_all add: run_def on_os_def wp_simps wp_ret_fun any [simplified])
  qed
qed

lemma told_after:
  assumes "told os ths j" and "\<forall>q. written q ths' = written q ths @ f q" and "\<forall>q. write_num q \<notin> N \<longrightarrow> f q = []"
    and "N \<inter> jb_writers j = {}" and "jb_writers j' = N \<union> jb_writers j"
    and "jb_told j' = jb_told j \<or> (\<exists>i dir. jb_told j' = insert i (jb_told j) \<and> i \<in> N \<and> answers_dir os dir \<and>
      f (WritePipe i) = dir @ newline)"
  shows "told os ths' j'"
proof -
  have old: "written (WritePipe i) ths' = written (WritePipe i) ths" if "i \<notin> N" for i
    using assms(2,3) that by simp
  have "written (WritePipe i) ths' = []" if "i \<notin> N \<union> jb_writers j" for i
    using assms(1) old that by (simp add: told_def)
  moreover have "\<exists>dir. answers_dir os dir \<and> written (WritePipe i) ths' = dir @ newline" if "i \<in> jb_told j" for i
  proof -
    from assms(1,4) that have "i \<notin> N" by (auto simp: told_def)
    with assms(1) old that show ?thesis by (simp add: told_def)
  qed
  moreover have "written (WritePipe i) ths' = f (WritePipe i)" if "i \<in> N" for i
    using assms(1,2,4) that by (auto simp: told_def)
  moreover have "jb_told j \<subseteq> jb_writers j" using assms(1) by (simp add: told_def)
  ultimately show ?thesis
    using assms(5,6) unfolding told_def by (elim disjE exE conjE) (auto simp: subset_insertI2)
qed

lemma handler_results:
  "h_command_result (exec_handler_impl w) p c = bk_send w (RsCommandDone p c)"
  "h_pipe_output (exec_handler_impl w) g d off = bk_send w (RsPipe \<lparr>env_id = pipe_num g, env_msg = Data d off\<rparr>)"
  "h_pipe_closed (exec_handler_impl w) g off = bk_send w (RsPipe \<lparr>env_id = pipe_num g, env_msg = Closed off\<rparr>)"
  by (simp_all add: exec_handler_impl_def bk_command_done_def bk_pipe_data_def bk_pipe_closed_def)

lemma start_task:
  assumes w: "answering w" and ok: "grants P os" and start: "job_start p c j = Some (j', rs)" and "fresh p j"
    and s: "about os {p} j log s" and "found P c"
  shows "returns (run_task os (exec_handler_impl w) fuel (Start p c))
    (\<lambda>ts s'. ts = [] \<and> follows os j' (log @ map (reply_line w) rs) s') s"
proof -
  from start have free: "out_of c \<notin> jb_writers j" "err_of c \<notin> jb_writers j" "out_of c \<noteq> err_of c"
    by (auto simp: job_start_def split: if_splits)
  from s have at: "ends s (jb_readers j) (jb_writers j)" "sched (ex_machine s) j" "to_run (ex_machine s) = {p}"
    "told os (ex_threads s) j" "bk_trans (ex_handler s) = log"
    by (simp_all add: about_def)
  note told = told_after [OF at(4), where N = "{out_of c, err_of c}"]
  show ?thesis
  proof (cases "\<exists>path args. rc_cmd c = Unknown path args")
    case True
    then obtain path args where c: "rc_cmd c = Unknown path args" by blast
    with assms(6) have path: "P path" by (simp add: found_def)
    from c start free have j': "in_of c \<notin> jb_readers j" "rs = []" "j' = j\<lparr>jb_writers := {out_of c, err_of c} \<union> jb_writers j,
        jb_running := insert p (jb_running j), jb_readers := insert (in_of c) (jb_readers j)\<rparr>"
      by (auto simp: job_start_def Let_def split: if_splits)
    from returnsD [OF run_program [OF ok at(1) c j'(1) free path]] obtain st s1 where
      s1: "run os (exec_handler_impl w) p c s = (Ok (RunProcess st), s1)" "wrote (\<lambda>_. []) s s1"
        "ends s1 (insert (in_of c) (jb_readers j)) ({out_of c, err_of c} \<union> jb_writers j)" by blast
    from s1(2) at(2,3) have m: "sched (ex_machine s1) j" "to_run (ex_machine s1) = {p}" by (simp_all add: wrote_def)
    from sched_start [OF m assms(4), of st] obtain m' where
      m': "start p st (ex_machine s1) = (Ok (), m')" "sched m' (j\<lparr>jb_running := insert p (jb_running j)\<rparr>)" "to_run m' = {}"
      by blast
    have "run_task os (exec_handler_impl w) fuel (Start p c) s = (Ok [], s1\<lparr>ex_machine := m'\<rparr>)"
      using s1(1) m'(1) by (simp add: run_task_def on_machine_def eff_defs)
    moreover have "told os (ex_threads s1) j'"
      by (rule told [where f = "\<lambda>_. []"]) (use s1(2) free in \<open>auto simp: wrote_def j'\<close>)
    moreover have "sched m' j'" by (rule sched_same [OF m'(2)]) (simp_all add: j')
    ultimately show ?thesis
      using m'(3) s1(2,3) at(5) by (simp add: wp_def about_def wrote_def j'(2)) (simp add: j'(3))
  next
    case False
    with start free obtain d where c: "rc_cmd c = GetDirectory \<or> rc_cmd c = SetDirectory d"
      by (cases "rc_cmd c") (auto simp: job_start_def)
    with start free have j': "rs = [RsCommandDone p 0]" "j' = j\<lparr>jb_writers := {out_of c, err_of c} \<union> jb_writers j,
        jb_done := insert p (jb_done j), jb_told := (if rc_cmd c = GetDirectory then insert (out_of c) (jb_told j) else jb_told j)\<rparr>"
      by (auto simp: job_start_def Let_def split: if_splits)
    from returnsD [OF run_builtin [OF ok at(1) c free, of "exec_handler_impl w" p]] obtain r s1 where
      r: "run os (exec_handler_impl w) p c s = (Ok r, s1)" "(\<exists>st. r = AlreadyDone st) \<and>
        ends s1 (jb_readers j) ({out_of c, err_of c} \<union> jb_writers j) \<and>
        (\<exists>f. wrote f s s1 \<and> (\<forall>q. write_num q \<notin> {out_of c, err_of c} \<longrightarrow> f q = []) \<and>
          (rc_cmd c = GetDirectory \<longrightarrow> (\<exists>dir. answers_dir os dir \<and> f (w_stdout (rc_pipes c)) = dir @ newline)))"
      by blast
    from r(2) obtain st f where r2: "r = AlreadyDone st" "wrote f s s1"
      "\<forall>q. write_num q \<notin> {out_of c, err_of c} \<longrightarrow> f q = []"
      "rc_cmd c = GetDirectory \<longrightarrow> (\<exists>dir. answers_dir os dir \<and> f (w_stdout (rc_pipes c)) = dir @ newline)"
      "ends s1 (jb_readers j) ({out_of c, err_of c} \<union> jb_writers j)" by blast
    note s1 = r(1) [unfolded r2(1)] r2(2-5)
    from s1(2) at(2,3) have m: "sched (ex_machine s1) j" "to_run (ex_machine s1) = {p}" by (simp_all add: wrote_def)
    from sched_start_completed [OF m assms(4), of fuel "from_exit_code st"] obtain m' where
      m': "start_completed fuel p (from_exit_code st) (ex_machine s1) = (Ok [], m')"
        "sched m' (j\<lparr>jb_done := insert p (jb_done j)\<rparr>)" "to_run m' = {}"
      by blast
    have send: "returns (bk_send w (RsCommandDone p 0)) (\<lambda>_ b. bk_trans b = log @ [reply_line w (RsCommandDone p 0)]) (ex_handler s1)"
      using at(5) s1(2) by (simp add: wp_bk_send_answering [OF w] wrote_def)
    have "told os (ex_threads s1) j'"
      by (rule told [where f = f]) (use s1(2,3,4) free in \<open>auto simp: wrote_def j' out_of_def\<close>)
    moreover have "sched m' j'" by (rule sched_same [OF m'(2)]) (simp_all add: j')
    moreover have "ends s1 (jb_readers j') (jb_writers j')" using s1(5) by (simp add: j')
    moreover from returnsD [OF send] obtain b where b: "bk_send w (RsCommandDone p 0) (ex_handler s1) = (Ok (), b)"
        "bk_trans b = log @ [reply_line w (RsCommandDone p 0)]"
      by auto
    ultimately have "follows os j' (log @ map (reply_line w) rs) (s1\<lparr>ex_machine := m', ex_handler := b\<rparr>)"
      using m'(3) by (simp add: about_def j'(1))
    moreover have "run_task os (exec_handler_impl w) fuel (Start p c) s = (Ok [], s1\<lparr>ex_machine := m', ex_handler := b\<rparr>)"
      using s1(1) m'(1) b(1)
      by (simp add: run_task_def on_machine_def on_handler_def handler_results eff_defs)
    ultimately show ?thesis by (simp add: wp_def)
  qed
qed

section \<open>Requests and completions\<close>

lemma process_start:
  assumes "answering w" and "grants P os" and "job_start p c j = Some (j', rs)" and "fresh p j" and "about os {p} j log s"
    and "found P c"
  shows "returns (process_tasks os (exec_handler_impl w) (Suc fuel) [Start p c])
    (\<lambda>_. follows os j' (log @ map (reply_line w) rs)) s"
  using returnsD [OF start_task [OF assms, of "Suc fuel"]]
  by (auto simp: process_tasks_def wp_def eff_defs)

lemma process_none: "process_tasks os eh (Suc fuel) [] s = (Ok (), s)"
  by (simp add: process_tasks_def eff_defs)

lemma scan_left:
  "\<forall>b \<in> set bf. snd b = None \<and> (finished m (fst b) \<noteq> None \<or> running m (fst b) \<noteq> None) \<Longrightarrow>
   scan_conditions bf still m = (Ok (Some (still @ filter (\<lambda>b. finished m (fst b) = None) bf)), m)"
proof (induction bf arbitrary: still)
  case (Cons b bf)
  then show ?case by (cases "finished m (fst b)") (auto simp: eff_defs)
qed (simp add: ret_def)

lemma watched_by:
  "distinct (map fst bf) \<Longrightarrow> \<forall>b \<in> set bf. check_on_completed m (fst b) = None \<and> snd b = None \<Longrightarrow>
   check_on_completed (fold (watch dp) bf m) = (\<lambda>p. if p \<in> fst ` set bf then Some [(None, dp)] else check_on_completed m p)"
proof (induction bf arbitrary: m)
  case (Cons b bf)
  have one: "check_on_completed (watch dp b m) = (check_on_completed m)(fst b \<mapsto> [(None, dp)])"
    using Cons.prems(2) by (simp add: watch_def)
  have "check_on_completed (fold (watch dp) bf (watch dp b m)) =
      (\<lambda>p. if p \<in> fst ` set bf then Some [(None, dp)] else check_on_completed (watch dp b m) p)"
    by (rule Cons.IH) (use Cons.prems in \<open>auto simp: one rev_image_eqI\<close>)
  with Cons.prems(1) show ?case by (simp add: one fun_eq_iff)
qed (simp add: fun_eq_iff)

lemma watch_keeps:
  "finished (fold (watch dp) bf m) = finished m" "to_run (fold (watch dp) bf m) = to_run m"
  "running (fold (watch dp) bf m) = running m" "waiting_on (fold (watch dp) bf m) = waiting_on m"
  by (induction bf arbitrary: m) (simp_all add: watch_def)

lemma watch_each: "for_each bs (\<lambda>b s. (Ok (), watch p b s)) m = (Ok (), fold (watch p) bs m)"
  by (induction bs arbitrary: m) (simp_all add: eff_defs)

lemma sched_enqueue:
  assumes "sched m j" and "to_run m = {}" and "fresh p j" and "distinct (map fst bf)"
    and "\<forall>b\<in>set bf. snd b = None \<and> fst b \<in> jb_running j \<union> jb_done j"
  shows "fst ` set bf \<subseteq> jb_done j \<Longrightarrow> enqueue p c bf m = (Ok [Start p c], m\<lparr>to_run := {p}\<rparr>)"
    and "\<not> fst ` set bf \<subseteq> jb_done j \<Longrightarrow> jb_waiting j = None \<Longrightarrow> \<exists>m'. enqueue p c bf m = (Ok [], m') \<and> to_run m' = {} \<and>
      sched m' (j\<lparr>jb_waiting := Some (p, c, fst ` set bf - jb_done j)\<rparr>)"
proof -
  define left where "left = filter (\<lambda>b. finished m (fst b) = None) bf"
  have doms: "dom (finished m) = jb_done j" "dom (running m) = jb_running j" "jb_running j \<inter> jb_done j = {}"
    using assms(1) by (simp_all add: sched_def)
  have "\<forall>b \<in> set bf. snd b = None \<and> (finished m (fst b) \<noteq> None \<or> running m (fst b) \<noteq> None)"
    using assms(5) unfolding doms(1,2) [symmetric] dom_def by auto
  from scan_left [OF this, of "[]"] have scan: "scan_conditions bf [] m = (Ok (Some left), m)" by (simp add: left_def)
  have new: "finished m p = None" "running m p = None" "waiting_on m p = None"
    using assms(1,3) doms by (auto simp: fresh_def sched_def domIff split: option.splits)
  have keys: "fst ` set left = fst ` set bf - jb_done j" using doms(1) by (auto simp: left_def)
  have dist: "distinct (map fst left)" using assms(4) by (simp add: left_def distinct_map_filter)
  have free: "snd b = None" if "b \<in> set left" for b using that assms(5) by (simp add: left_def)
  then have pairs: "set left = (\<lambda>q. (q, None)) ` (fst ` set bf - jb_done j)"
    unfolding keys [symmetric] by (force simp: image_image)
  {
    assume "fst ` set bf \<subseteq> jb_done j"
    then have "fst ` set bf - jb_done j = {}" by (rule Diff_eq_empty_iff [THEN iffD2])
    with keys have "fst ` set left = {}" by (rule trans)
    then have "left = []" by simp
    with scan new assms(2) show "enqueue p c bf m = (Ok [Start p c], m\<lparr>to_run := {p}\<rparr>)"
      by (simp add: enqueue_def eff_defs)
  next
    let ?m = "(fold (watch p) left m)\<lparr>waiting_on := (waiting_on m)(p \<mapsto> \<lparr>cmd = c, conditions = left\<rparr>)\<rparr>"
    assume some: "\<not> fst ` set bf \<subseteq> jb_done j" and none: "jb_waiting j = None"
    from some keys have ne: "left \<noteq> []" by auto
    have m: "waiting_on m = Map.empty" "check_on_completed m = Map.empty" using assms(1) none by (simp_all add: sched_def)
    have "enqueue p c bf m = (Ok [], ?m)"
      using scan new assms(2) ne by (simp add: enqueue_def eff_defs watch_each watch_keeps)
    moreover have "check_on_completed (fold (watch p) left m) =
        (\<lambda>q. if q \<in> fst ` set bf - jb_done j then Some [(None, p)] else None)"
      using watched_by [OF dist, of m p] free by (simp add: m keys fun_eq_iff)
    moreover have "p \<notin> jb_running j \<union> jb_done j" using assms(3) by (simp add: fresh_def)
    moreover have "fst ` set bf - jb_done j \<subseteq> jb_running j" using assms(5) by auto
    ultimately show "\<exists>m'. enqueue p c bf m = (Ok [], m') \<and> to_run m' = {} \<and>
        sched m' (j\<lparr>jb_waiting := Some (p, c, fst ` set bf - jb_done j)\<rparr>)"
      using doms assms(2) some dist pairs
      by (intro exI [of _ ?m]) (simp add: sched_def watch_keeps m, intro exI [of _ left], simp)
  }
qed

lemma sched_completed:
  assumes "sched m j" and "to_run m = {}" and "p \<in> jb_running j"
  defines "j' \<equiv> j\<lparr>jb_running := jb_running j - {p}, jb_done := insert p (jb_done j)\<rparr>"
  shows "jb_waiting j = None \<Longrightarrow> \<exists>m'. completed fuel p st m = (Ok [], m') \<and> sched m' j' \<and> to_run m' = {}"
    and "jb_waiting j = Some (q, c, left) \<Longrightarrow> left \<subseteq> {p} \<Longrightarrow> \<exists>m'. completed fuel p st m = (Ok [Start q c], m') \<and>
      sched m' (j'\<lparr>jb_waiting := None\<rparr>) \<and> to_run m' = {q} \<and> fresh q (j'\<lparr>jb_waiting := None\<rparr>)"
    and "jb_waiting j = Some (q, c, left) \<Longrightarrow> \<not> left \<subseteq> {p} \<Longrightarrow> \<exists>m'. completed fuel p st m = (Ok [], m') \<and>
      sched m' (j'\<lparr>jb_waiting := Some (q, c, left - {p})\<rparr>) \<and> to_run m' = {}"
proof -
  have doms: "dom (running m) = jb_running j" "dom (finished m) = jb_done j" "jb_running j \<inter> jb_done j = {}"
    using assms(1) by (simp_all add: sched_def)
  from assms(3) doms(1) have run: "running m p \<noteq> None" by auto
  let ?m = "m\<lparr>running := (running m)(p := None), finished := (finished m)(p \<mapsto> st)\<rparr>"
  have step: "completed fuel p st m = resolve_tasks fuel p st ?m"
    using run by (simp add: completed.simps eff_defs)
  {
    assume "jb_waiting j = None"
    with assms(1) have "waiting_on m = Map.empty" "check_on_completed m = Map.empty" by (simp_all add: sched_def)
    with doms assms(2) \<open>jb_waiting j = None\<close>
    show "\<exists>m'. completed fuel p st m = (Ok [], m') \<and> sched m' j' \<and> to_run m' = {}"
      unfolding step by (auto simp: resolve_tasks.simps eff_defs sched_def j'_def)
  }
  assume w: "jb_waiting j = Some (q, c, left)"
  with assms(1) obtain bf where q: "q \<notin> jb_running j \<union> jb_done j" "left \<noteq> {}" "left \<subseteq> jb_running j"
    and check: "check_on_completed m = (\<lambda>p. if p \<in> left then Some [(None, q)] else None)"
    and bf: "waiting_on m = [q \<mapsto> \<lparr>cmd = c, conditions = bf\<rparr>]" "distinct (map fst bf)" "set bf = (\<lambda>p. (p, None)) ` left"
    by (auto simp: sched_def)
  have cond: "map_of bf p = Some None" if "p \<in> left"
    using that bf(2,3) by simp
  let ?bf = "filter (\<lambda>b. fst b \<noteq> p) bf"
  have rest: "set ?bf = (\<lambda>p. (p, None)) ` (left - {p})" "distinct (map fst ?bf)"
    using bf(2,3) by (auto simp: distinct_map_filter)
  have none: "(check_on_completed m)(p := None) = (\<lambda>r. if r \<in> left - {p} then Some [(None, q)] else None)"
    by (auto simp: check fun_eq_iff)
  {
    assume "left \<subseteq> {p}"
    with q(2) have p: "p \<in> left" "left - {p} = {}" by auto
    then have "?bf = []" using rest(1) by (metis image_empty set_empty)
    moreover have "q \<noteq> p" using q(1) assms(3) by auto
    moreover have "(check_on_completed m)(p := None) = Map.empty" using none p(2) by simp
    ultimately show "\<exists>m'. completed fuel p st m = (Ok [Start q c], m') \<and>
      sched m' (j'\<lparr>jb_waiting := None\<rparr>) \<and> to_run m' = {q} \<and> fresh q (j'\<lparr>jb_waiting := None\<rparr>)"
      using doms assms(2) q(1) cond [OF p(1)] p(1)
      unfolding step
      by (auto simp: resolve_tasks.simps resolve_blocked.simps check bf(1) eff_defs sched_def fresh_def j'_def)
  next
    assume more: "\<not> left \<subseteq> {p}"
    show "\<exists>m'. completed fuel p st m = (Ok [], m') \<and>
      sched m' (j'\<lparr>jb_waiting := Some (q, c, left - {p})\<rparr>) \<and> to_run m' = {}"
    proof (cases "p \<in> left")
      case True
      from more have "?bf \<noteq> []" using rest(1) by (metis Diff_eq_empty_iff image_is_empty set_empty)
      let ?m' = "?m\<lparr>check_on_completed := (check_on_completed m)(p := None), waiting_on := [q \<mapsto> \<lparr>cmd = c, conditions = ?bf\<rparr>]\<rparr>"
      have "completed fuel p st m = (Ok [], ?m')"
        using cond [OF True] True \<open>?bf \<noteq> []\<close>
        unfolding step by (simp add: resolve_tasks.simps resolve_blocked.simps check bf(1) eff_defs)
      moreover have "sched ?m' (j'\<lparr>jb_waiting := Some (q, c, left - {p})\<rparr>)"
        using doms q more rest assms(3) by (auto simp: sched_def j'_def none intro!: exI [of _ ?bf])
      ultimately show ?thesis using assms(2) by auto
    next
      case False
      then have "completed fuel p st m = (Ok [], ?m)"
        unfolding step by (simp add: resolve_tasks.simps check eff_defs)
      moreover have "sched ?m (j'\<lparr>jb_waiting := Some (q, c, left - {p})\<rparr>)"
        using doms q False bf check assms(3) by (auto simp: sched_def j'_def intro!: exI [of _ bf])
      ultimately show ?thesis using assms(2) by auto
    qed
  }
qed

lemma enqueue_follows:
  assumes "answering w" and "grants P os" and s: "follows os j log s" and "job_enqueue p c bf j = Some (j', rs)"
    and "found P c"
  shows "returns (exec_enqueue os (exec_handler_impl w) (Suc fuel) p c bf)
    (\<lambda>_. follows os j' (log @ map (reply_line w) rs)) s"
proof -
  from assms(4) have new: "fresh p j" and bf: "distinct (map fst bf)"
    "\<forall>b\<in>set bf. snd b = None \<and> fst b \<in> jb_running j \<union> jb_done j"
    by (auto simp: job_enqueue_def fresh_def split: if_splits)
  from s have m: "sched (ex_machine s) j" "to_run (ex_machine s) = {}" by (simp_all add: about_def)
  show ?thesis
  proof (cases "fst ` set bf \<subseteq> jb_done j")
    case True
    with assms(4) have start: "job_start p c j = Some (j', rs)"
      by (auto simp: job_enqueue_def split: if_splits)
    let ?s = "s\<lparr>ex_machine := (ex_machine s)\<lparr>to_run := {p}\<rparr>\<rparr>"
    have "sched ((ex_machine s)\<lparr>to_run := {p}\<rparr>) j"
      using m(1) by (simp add: sched_def split: option.splits prod.splits)
    with s have "about os {p} j log ?s" by (simp add: about_def)
    from process_start [OF assms(1,2) start new this assms(5), of fuel] show ?thesis
      using sched_enqueue(1) [OF m new bf True]
      by (simp add: exec_enqueue_def on_machine_def wp_def bnd_def zoom_def)
  next
    case False
    with assms(4) have w: "jb_waiting j = None" "rs = []" "j' = j\<lparr>jb_waiting := Some (p, c, fst ` set bf - jb_done j)\<rparr>"
      by (auto simp: job_enqueue_def split: if_splits)
    from sched_enqueue(2) [OF m new bf False w(1), of c] obtain m' where
      "enqueue p c bf (ex_machine s) = (Ok [], m')" "to_run m' = {}" "sched m' j'" by (auto simp: w(3))
    with s show ?thesis
      by (simp add: exec_enqueue_def on_machine_def wp_def bnd_def zoom_def process_none about_def w(2))
        (simp add: w(3) told_def)
  qed
qed

lemma completed_follows:
  assumes w: "answering w" and "grants P os" and s: "follows os j log s" and "job_completed p exit_code j = Some (j', rs)"
    and "waits_found P j"
  shows "returns (exec_completed os (exec_handler_impl w) (Suc fuel) p exit_code)
    (\<lambda>_. follows os j' (log @ map (reply_line w) rs)) s"
proof -
  let ?done = "RsCommandDone p exit_code"
  let ?j = "j\<lparr>jb_running := jb_running j - {p}, jb_done := insert p (jb_done j)\<rparr>"
  from assms(4) have run: "p \<in> jb_running j" by (simp add: job_completed_def split: if_splits)
  from s have m: "sched (ex_machine s) j" "to_run (ex_machine s) = {}" by (simp_all add: about_def)
  have "returns (bk_send w ?done) (\<lambda>_ b. bk_trans b = log @ [reply_line w ?done]) (ex_handler s)"
    using s by (simp add: wp_bk_send_answering [OF w] about_def)
  from returnsD [OF this] obtain b where b: "bk_send w ?done (ex_handler s) = (Ok (), b)" "bk_trans b = log @ [reply_line w ?done]"
    by auto
  have run_to: "returns (exec_completed os (exec_handler_impl w) (Suc fuel) p exit_code) Q s"
    if "completed (Suc fuel) p (from_exit_code exit_code) (ex_machine s) = (Ok ts, m')"
      "returns (process_tasks os (exec_handler_impl w) (Suc fuel) ts) Q (s\<lparr>ex_handler := b, ex_machine := m'\<rparr>)" for ts m' Q
    using that b(1)
    by (simp add: exec_completed_def on_machine_def on_handler_def handler_results wp_def thn_def bnd_def zoom_def unwrap_def)
  have at: "about os T j'' (log @ [reply_line w ?done]) (s\<lparr>ex_handler := b, ex_machine := m'\<rparr>)"
    if "sched m' j''" "to_run m' = T" "jb_readers j'' = jb_readers j" "jb_writers j'' = jb_writers j" "jb_told j'' = jb_told j"
    for T j'' m'
    using that s b(2) by (simp add: about_def told_def)
  show ?thesis
  proof (cases "jb_waiting j")
    case None
    with assms(4) run have j': "j' = ?j" "rs = [?done]" by (auto simp: job_completed_def Let_def)
    from sched_completed(1) [OF m run None, of "Suc fuel" "from_exit_code exit_code"] obtain m' where
      m': "completed (Suc fuel) p (from_exit_code exit_code) (ex_machine s) = (Ok [], m')" "sched m' ?j" "to_run m' = {}"
      by blast
    show ?thesis
      by (rule run_to [OF m'(1)]) (use at [OF m'(2,3)] in \<open>simp add: wp_def process_none j'\<close>)
  next
    case (Some qcl)
    then obtain q c left where some: "jb_waiting j = Some (q, c, left)" by (cases qcl) auto
    show ?thesis
    proof (cases "left \<subseteq> {p}")
      case True
      with assms(4) run some obtain rs' where start: "job_start q c (?j\<lparr>jb_waiting := None\<rparr>) = Some (j', rs')"
        and rs: "rs = ?done # rs'"
        by (auto simp: job_completed_def Let_def)
      from sched_completed(2) [OF m run some True, of "Suc fuel" "from_exit_code exit_code"] obtain m' where
        m': "completed (Suc fuel) p (from_exit_code exit_code) (ex_machine s) = (Ok [Start q c], m')"
          "sched m' (?j\<lparr>jb_waiting := None\<rparr>)" "to_run m' = {q}" "fresh q (?j\<lparr>jb_waiting := None\<rparr>)" by blast
      from assms(5) some have "found P c" by (simp add: waits_found_def)
      then show ?thesis
        by (intro run_to [OF m'(1)]) (use process_start [OF assms(1,2) start m'(4) at [OF m'(2,3)], of fuel] in \<open>simp add: rs\<close>)
    next
      case False
      with assms(4) run some have j': "j' = ?j\<lparr>jb_waiting := Some (q, c, left - {p})\<rparr>" "rs = [?done]"
        by (auto simp: job_completed_def Let_def)
      from sched_completed(3) [OF m run some False, of "Suc fuel" "from_exit_code exit_code"] obtain m' where
        m': "completed (Suc fuel) p (from_exit_code exit_code) (ex_machine s) = (Ok [], m')" "sched m' j'" "to_run m' = {}"
        unfolding j' by blast
      show ?thesis
        by (rule run_to [OF m'(1)]) (use at [OF m'(2,3)] in \<open>simp add: wp_def process_none j'\<close>)
    qed
  qed
qed

lemma event_follows:
  assumes "answering w" and "grants P os" and s: "follows os j log s" and "job_step ev j = Some (j', rs)"
    and "starts_found P ev" and "waits_found P j"
  shows "returns (handle_event os (exec_handler_impl w) (Suc fuel) ev)
    (\<lambda>_. follows os j' (log @ map (reply_line w) rs)) s"
proof (cases ev)
  case (EvPipeMessage g msg)
  show ?thesis
  proof (cases msg)
    case BeginRead
    with assms(4) EvPipeMessage have j': "pipe_num g \<notin> jb_readers j" "rs = []"
      "j' = j\<lparr>jb_readers := insert (pipe_num g) (jb_readers j)\<rparr>" by (auto split: if_splits)
    from s have at: "ends s (jb_readers j) (jb_writers j)" by (simp add: about_def)
    from returnsD [OF take_read_end [OF assms(2) at j'(1)]] obtain h s1 where
      "read_end os (to_read g) s = (Ok h, s1)" "ends s1 (insert (pipe_num g) (jb_readers j)) (jb_writers j)" "same_but_ends s s1"
      by (auto simp: to_read_def)
    with s show ?thesis
      by (simp add: EvPipeMessage BeginRead handle_event_def exec_pipe_message_def wp_def spawn_thread_def Let_def eff_defs
          about_def same_but_ends_def j'(2)) (auto simp: j'(3) told_def written_def ends_def)
  qed (use assms in \<open>auto simp: EvPipeMessage handle_event_def exec_pipe_message_def wp_simps\<close>)
next
  case (EvEnqueue p c bf)
  with enqueue_follows [OF assms(1-3), of p c bf] assms(4,5) show ?thesis by (simp add: handle_event_def wp_simps)
next
  case (EvCompleted p exit_code)
  with completed_follows [OF assms(1-3), of p exit_code] assms(4,6) show ?thesis by (simp add: handle_event_def wp_simps)
next
  case (EvPipeOutput g data off)
  with assms show ?thesis
    by (auto simp: handle_event_def handler_results on_handler_def wp_simps wp_bk_send_answering about_def
        simp del: wp_bk_send)
next
  case (EvPipeClosed g off)
  with assms show ?thesis
    by (auto simp: handle_event_def handler_results on_handler_def wp_simps wp_bk_send_answering about_def
        simp del: wp_bk_send)
qed (use assms(4) in simp_all)

text \<open>
  C5: The executor implements the job, on an operating system that grants what it is asked for:
  pipes, the start of every program, and the current directory, which is Unicode. Whatever event
  the job can take, the executor then takes without a panic, an error or running out of fuel; it
  is in a state that stands for the job's next state, and has sent exactly the lines of the
  responses the job reports.
\<close>

theorem executor_follows_job:
  assumes "answering w" and "obliging os" and "follows os j log s" and "job_step ev j = Some (j', rs)"
  shows "returns (handle_event os (exec_handler_impl w) (Suc fuel) ev)
    (\<lambda>_. follows os j' (log @ map (reply_line w) rs)) s"
  using event_follows [OF assms(1) assms(2) [unfolded obliging_def] assms(3,4)] by simp

lemma run_follows_found:
  assumes "answering w" and "grants P os"
  shows "follows os j log s \<Longrightarrow> job_run evs j = Some (j', rs) \<Longrightarrow> list_all (starts_found P) evs \<Longrightarrow> waits_found P j \<Longrightarrow>
    returns (run_handler os (exec_handler_impl w) (Suc fuel) evs) (\<lambda>_. follows os j' (log @ map (reply_line w) rs)) s"
proof (induction evs arbitrary: j log s rs)
  case (Cons ev evs)
  then obtain j1 rs1 rs2 where step: "job_step ev j = Some (j1, rs1)" "job_run evs j1 = Some (j', rs2)" "rs = rs1 @ rs2"
    by (auto simp: bind_eq_Some_conv)
  from Cons.prems(3,4) have f: "starts_found P ev" "list_all (starts_found P) evs" "waits_found P j1"
    using waits_found_step [OF step(1)] by simp_all
  have "returns (handle_event os (exec_handler_impl w) (Suc fuel) ev) (\<lambda>_ t.
      returns (run_handler os (exec_handler_impl w) (Suc fuel) evs) (\<lambda>_. follows os j' (log @ map (reply_line w) rs)) t) s"
    by (rule wp_mono [OF event_follows [OF assms Cons.prems(1) step(1) f(1) Cons.prems(4)]])
      (use Cons.IH [OF _ step(2) f(2,3), of "log @ map (reply_line w) rs1"] in \<open>simp_all add: step(3)\<close>)
  then show ?case by (simp add: run_handler_def wp_thn)
qed (simp add: run_handler_def wp_ret)

lemma run_follows:
  assumes "answering w" and "obliging os" and "follows os j log s" and "job_run evs j = Some (j', rs)"
  shows "returns (run_handler os (exec_handler_impl w) (Suc fuel) evs) (\<lambda>_. follows os j' (log @ map (reply_line w) rs)) s"
  using run_follows_found [OF assms(1) assms(2) [unfolded obliging_def] assms(3,4)] by (simp add: list_all_iff)

lemma follows_new: "follows os job_new (bk_trans b) (exec_new b v)"
  by (simp add: about_def exec_new_def machine_new_def job_new_def sched_def ends_def told_def written_def)

section \<open>A concrete executor\<close>

definition kind_os :: "nat os" where
  "kind_os = demo_os\<lparr>os_spawn := (\<lambda>c v. (Inr v, v + 1))\<rparr>"

lemma kind_os: "obliging kind_os"
proof -
  have "valid_utf8 ''/''" by code_simp
  then show ?thesis by (simp add: obliging_def grants_def kind_os_def demo_os_def)
qed

lemma coded_answering: "answering coded_wire"
  by (simp add: answering_def coded_wire_laws) (simp add: coded_wire_def)

lemma executor_follows_job_witness:
  "returns (handle_event kind_os (exec_handler_impl coded_wire) (Suc 0)
      (EvEnqueue (ProcessId 3) (demo_cmd GetDirectory) []))
    (\<lambda>_. follows kind_os \<lparr>jb_running = {}, jb_done = {ProcessId 3}, jb_waiting = None, jb_readers = {},
        jb_writers = {1, 2}, jb_told = {1}\<rparr> (bk_trans (bk_new []) @ map (reply_line coded_wire) [RsCommandDone (ProcessId 3) 0]))
    (exec_new (bk_new []) 10)"
  by (rule executor_follows_job [OF coded_answering kind_os follows_new])
    (simp add: job_new_def job_enqueue_def job_start_def demo_cmd_def demo_pipes_def in_of_def out_of_def err_of_def Let_def numeral_2_eq_2)

end
