(* ===== verification/Job_Run.thy ===== *)
theory Job_Run
  imports Job
begin

text \<open>
  Runs of the job: requests that fit together, arriving in their order among the ends of programs
  and the output of pipes, are all taken; and what is reported on the way, each command once.
\<close>

section \<open>Requests among other events\<close>

definition is_program :: "run_cmd \<Rightarrow> bool" where
  "is_program c \<longleftrightarrow> (case rc_cmd c of Unknown _ _ \<Rightarrow> True | _ \<Rightarrow> False)"

definition in_ends :: "run_cmd \<Rightarrow> nat set" where
  "in_ends c = (if is_program c then {in_of c} else {})"

fun asked :: "exec_event \<Rightarrow> bool" where
  "asked (EvEnqueue p c bf) \<longleftrightarrow> True"
| "asked (EvPipeMessage g msg) \<longleftrightarrow> True"
| "asked _ \<longleftrightarrow> False"

text \<open>
  Requests that fit together, after requests for the commands \<open>P\<close>, of which \<open>Q\<close> is the one that had to
  wait, and for the ends \<open>R\<close> and \<open>W\<close>: every command is new, no end is wanted twice, and at most one
  command, a builtin, waits, for commands that are to start at once and whatever their exit status.
\<close>

fun fitting :: "process_id set \<Rightarrow> process_id set \<Rightarrow> nat set \<Rightarrow> nat set \<Rightarrow> exec_event list \<Rightarrow> bool" where
  "fitting P Q R W [] \<longleftrightarrow> True"
| "fitting P Q R W (EvEnqueue p c bf # evs) \<longleftrightarrow>
     p \<notin> P \<union> Q \<and> (\<forall>path. rc_cmd c \<noteq> Edit path) \<and> {out_of c, err_of c} \<inter> W = {} \<and> out_of c \<noteq> err_of c \<and>
     in_ends c \<inter> R = {} \<and> distinct (map fst bf) \<and> (\<forall>b\<in>set bf. snd b = None \<and> fst b \<in> P) \<and>
     (bf \<noteq> [] \<longrightarrow> Q = {} \<and> \<not> is_program c) \<and>
     fitting (if bf = [] then insert p P else P) (if bf = [] then Q else {p}) (in_ends c \<union> R) ({out_of c, err_of c} \<union> W) evs"
| "fitting P Q R W (EvPipeMessage g BeginRead # evs) \<longleftrightarrow> pipe_num g \<notin> R \<and> fitting P Q (insert (pipe_num g) R) W evs"
| "fitting P Q R W (EvPipeMessage g (Read k) # evs) \<longleftrightarrow> fitting P Q R W evs"
| "fitting P Q R W (ev # evs) \<longleftrightarrow> False"

text \<open>
  What else the executor is told: a program that was started ends once, a pipe that is read
  yields data until its end. \<open>A\<close> are the programs that run, \<open>G\<close> the pipes that are read.
\<close>

fun plausible :: "process_id set \<Rightarrow> generic_pipe set \<Rightarrow> exec_event list \<Rightarrow> bool" where
  "plausible A G [] \<longleftrightarrow> True"
| "plausible A G (EvEnqueue p c bf # evs) \<longleftrightarrow> plausible (if is_program c then insert p A else A) G evs"
| "plausible A G (EvPipeMessage g BeginRead # evs) \<longleftrightarrow> plausible A (insert g G) evs"
| "plausible A G (EvPipeMessage g (Read k) # evs) \<longleftrightarrow> plausible A G evs"
| "plausible A G (EvCompleted p exit_code # evs) \<longleftrightarrow> p \<in> A \<and> plausible (A - {p}) G evs"
| "plausible A G (EvPipeOutput g data off # evs) \<longleftrightarrow> g \<in> G \<and> plausible A G evs"
| "plausible A G (EvPipeClosed g off # evs) \<longleftrightarrow> g \<in> G \<and> plausible A (G - {g}) evs"
| "plausible A G (ev # evs) \<longleftrightarrow> False"

text \<open>The job after these requests: what was asked for is reserved, for the command that waits too.\<close>

definition reserved :: "process_id set \<Rightarrow> process_id set \<Rightarrow> nat set \<Rightarrow> nat set \<Rightarrow> job \<Rightarrow> bool" where
  "reserved P Q R W j \<longleftrightarrow> P \<subseteq> jb_running j \<union> jb_done j \<and> jb_running j \<union> jb_done j \<subseteq> P \<union> Q \<and>
     jb_readers j \<subseteq> R \<and> jb_writers j \<subseteq> W \<and>
     (case jb_waiting j of None \<Rightarrow> True
      | Some (q, c, left) \<Rightarrow> q \<in> Q \<and> \<not> is_program c \<and> (\<forall>path. rc_cmd c \<noteq> Edit path) \<and> out_of c \<noteq> err_of c \<and>
          {out_of c, err_of c} \<subseteq> W \<and> {out_of c, err_of c} \<inter> jb_writers j = {})"

lemma job_start_some:
  assumes "\<forall>path. rc_cmd c \<noteq> Edit path" and "{out_of c, err_of c} \<inter> jb_writers j = {}" and "out_of c \<noteq> err_of c"
    and "in_ends c \<inter> jb_readers j = {}"
  shows "\<exists>j' rs. job_start p c j = Some (j', rs) \<and> jb_readers j' = in_ends c \<union> jb_readers j \<and>
    jb_writers j' = {out_of c, err_of c} \<union> jb_writers j \<and> jb_waiting j' = jb_waiting j \<and>
    jb_running j' = (if is_program c then insert p (jb_running j) else jb_running j) \<and>
    jb_done j' = (if is_program c then jb_done j else insert p (jb_done j))"
  using assms by (cases "rc_cmd c") (auto simp: job_start_def is_program_def in_ends_def Let_def)

lemma enqueue_accepted:
  assumes "reserved P Q R W j" and "fitting P Q R W (EvEnqueue p c bf # evs)"
  shows "\<exists>j' rs. job_enqueue p c bf j = Some (j', rs) \<and>
    jb_running j' = (if is_program c then insert p (jb_running j) else jb_running j) \<and>
    reserved (if bf = [] then insert p P else P) (if bf = [] then Q else {p}) (in_ends c \<union> R) ({out_of c, err_of c} \<union> W) j'"
proof (cases "fst ` set bf \<subseteq> jb_done j")
  case True
  from assms have ends: "\<forall>path. rc_cmd c \<noteq> Edit path" "{out_of c, err_of c} \<inter> jb_writers j = {}" "out_of c \<noteq> err_of c"
    "in_ends c \<inter> jb_readers j = {}" by (auto simp: reserved_def)
  from job_start_some [OF this, of p] obtain j' rs where j': "job_start p c j = Some (j', rs)"
    "jb_readers j' = in_ends c \<union> jb_readers j" "jb_writers j' = {out_of c, err_of c} \<union> jb_writers j"
    "jb_waiting j' = jb_waiting j" "jb_running j' = (if is_program c then insert p (jb_running j) else jb_running j)"
    "jb_done j' = (if is_program c then jb_done j else insert p (jb_done j))" by blast
  have "job_enqueue p c bf j = Some (j', rs)"
    using assms True j'(1) by (auto simp: job_enqueue_def reserved_def split: option.splits)
  moreover have "reserved (if bf = [] then insert p P else P) (if bf = [] then Q else {p}) (in_ends c \<union> R) ({out_of c, err_of c} \<union> W) j'"
    using assms j'(2-) by (auto simp: reserved_def split: option.splits if_splits)
  ultimately show ?thesis using j'(5) by blast
next
  case False
  then have "bf \<noteq> []" by auto
  with assms False show ?thesis
    by (auto simp: job_enqueue_def reserved_def split: option.splits)
qed

lemma completed_accepted:
  assumes "reserved P Q R W j" and "p \<in> jb_running j"
  shows "\<exists>j' rs. job_completed p exit_code j = Some (j', rs) \<and> jb_running j' = jb_running j - {p} \<and> reserved P Q R W j'"
proof (cases "jb_waiting j")
  case None
  with assms show ?thesis by (auto simp: job_completed_def Let_def reserved_def)
next
  case (Some qcl)
  then obtain q c left where w: "jb_waiting j = Some (q, c, left)" by (cases qcl) auto
  let ?j = "j\<lparr>jb_running := jb_running j - {p}, jb_done := insert p (jb_done j), jb_waiting := None\<rparr>"
  from assms(1) w have c: "q \<in> Q" "\<not> is_program c" "\<forall>path. rc_cmd c \<noteq> Edit path" "out_of c \<noteq> err_of c"
    "{out_of c, err_of c} \<subseteq> W" "{out_of c, err_of c} \<inter> jb_writers ?j = {}" by (auto simp: reserved_def)
  from job_start_some [OF c(3,6,4), of q] c(2) obtain j' rs where "job_start q c ?j = Some (j', rs)"
    "jb_readers j' = jb_readers j" "jb_writers j' = {out_of c, err_of c} \<union> jb_writers j"
    "jb_waiting j' = None" "jb_running j' = jb_running j - {p}" "jb_done j' = insert q (insert p (jb_done j))"
    by (auto simp: in_ends_def)
  with assms w c show ?thesis
    by (cases "left \<subseteq> {p}") (auto simp: job_completed_def Let_def reserved_def)
qed

lemma job_accepts:
  "reserved P Q R W j \<Longrightarrow> fitting P Q R W (filter asked evs) \<Longrightarrow> plausible (jb_running j) G evs \<Longrightarrow>
   \<exists>j' rs. job_run evs j = Some (j', rs)"
proof (induction evs arbitrary: P Q R W j G)
  case (Cons ev evs)
  have next_event: "\<exists>j' rs. job_run (ev # evs) j = Some (j', rs)"
    if "job_step ev j = Some (jn, rsn)" "reserved Pn Qn Rn Wn jn" "fitting Pn Qn Rn Wn (filter asked evs)"
      "plausible (jb_running jn) Gn evs" for jn rsn Pn Qn Rn Wn Gn
    using Cons.IH [OF that(2-4)] that(1) by auto
  show ?case
  proof (cases ev)
    case (EvEnqueue p c bf)
    with Cons.prems(2) have f: "fitting P Q R W (EvEnqueue p c bf # filter asked evs)" by simp
    from enqueue_accepted [OF Cons.prems(1) f] obtain j1 rs1 where
      acc: "job_enqueue p c bf j = Some (j1, rs1)" "jb_running j1 = (if is_program c then insert p (jb_running j) else jb_running j)"
      "reserved (if bf = [] then insert p P else P) (if bf = [] then Q else {p}) (in_ends c \<union> R) ({out_of c, err_of c} \<union> W) j1"
      by blast
    have "job_step ev j = Some (j1, rs1)" using acc(1) EvEnqueue by simp
    moreover have "fitting (if bf = [] then insert p P else P) (if bf = [] then Q else {p}) (in_ends c \<union> R)
        ({out_of c, err_of c} \<union> W) (filter asked evs)" using f by (simp only: fitting.simps)
    moreover have "plausible (jb_running j1) G evs" using Cons.prems(3) unfolding EvEnqueue acc(2) plausible.simps .
    ultimately show ?thesis by (rule next_event [OF _ acc(3)])
  next
    case (EvCompleted p exit_code)
    with Cons.prems(3) have p: "p \<in> jb_running j" by simp
    from completed_accepted [OF Cons.prems(1) p, of exit_code] obtain j1 rs1 where
      "job_completed p exit_code j = Some (j1, rs1)" "jb_running j1 = jb_running j - {p}" "reserved P Q R W j1" by blast
    with Cons.prems(2,3) EvCompleted show ?thesis
      by (intro next_event [where jn = j1 and rsn = rs1 and Pn = P and Qn = Q and Rn = R and Wn = W and Gn = G]) simp_all
  next
    case (EvPipeMessage g msg)
    show ?thesis
    proof (cases msg)
      case BeginRead
      with Cons.prems EvPipeMessage show ?thesis
        by (intro next_event [where jn = "j\<lparr>jb_readers := insert (pipe_num g) (jb_readers j)\<rparr>" and rsn = "[]"
            and Rn = "insert (pipe_num g) R" and Pn = P and Qn = Q and Wn = W and Gn = "insert g G"])
          (auto simp: reserved_def split: option.splits)
    next
      case (Read k)
      with Cons.prems EvPipeMessage show ?thesis
        by (intro next_event [where jn = j and rsn = "[]" and Pn = P and Qn = Q and Rn = R and Wn = W and Gn = G]) simp_all
    qed (use Cons.prems EvPipeMessage in auto)
  next
    case (EvPipeOutput g data off)
    with Cons.prems show ?thesis
      by (intro next_event [where jn = j and Pn = P and Qn = Q and Rn = R and Wn = W and Gn = G]) simp_all
  next
    case (EvPipeClosed g off)
    with Cons.prems show ?thesis
      by (intro next_event [where jn = j and Pn = P and Qn = Q and Rn = R and Wn = W and Gn = "G - {g}"]) simp_all
  qed (use Cons.prems in auto)
qed simp

section \<open>What is reported, and why\<close>

fun done_report :: "remote_response \<Rightarrow> process_id list" where
  "done_report (RsCommandDone p c) = [p]"
| "done_report _ = []"

definition dones :: "remote_response list \<Rightarrow> process_id list" where
  "dones rs = concat (map done_report rs)"

lemma dones_simps [simp]:
  "dones [] = []" "dones (m # rs) = done_report m @ dones rs" "dones (rs @ rs') = dones rs @ dones rs'"
  by (simp_all add: dones_def)

text \<open>
  With \<open>S\<close> the commands that were asked for: who is known was asked for; a writing end is taken for a
  command all of whose conditions are met, and a builtin that took it is done; and what waits only
  lacks the commands it still waits for.
\<close>

type_synonym asked_for = "(process_id \<times> run_cmd \<times> (process_id \<times> condition) list) set"

definition writer_known :: "asked_for \<Rightarrow> job \<Rightarrow> nat \<Rightarrow> bool" where
  "writer_known S j i \<longleftrightarrow> (\<exists>p c bf. (p, c, bf) \<in> S \<and> i \<in> {out_of c, err_of c} \<and> fst ` set bf \<subseteq> jb_done j \<and>
     (is_program c \<or> p \<in> jb_done j) \<and> (rc_cmd c = GetDirectory \<longrightarrow> out_of c \<in> jb_told j))"

definition waiter_known :: "asked_for \<Rightarrow> job \<Rightarrow> bool" where
  "waiter_known S j \<longleftrightarrow> (case jb_waiting j of None \<Rightarrow> True | Some (q, c, left) \<Rightarrow>
     q \<notin> jb_running j \<union> jb_done j \<and> (\<exists>bf. (q, c, bf) \<in> S \<and> fst ` set bf \<subseteq> jb_done j \<union> left))"

definition jb_accounted :: "asked_for \<Rightarrow> job \<Rightarrow> bool" where
  "jb_accounted S j \<longleftrightarrow> jb_running j \<inter> jb_done j = {} \<and> jb_running j \<union> jb_done j \<subseteq> fst ` S \<and>
     (\<forall>i\<in>jb_writers j. writer_known S j i) \<and> waiter_known S j"

definition reported :: "job \<Rightarrow> remote_response list \<Rightarrow> job \<Rightarrow> bool" where
  "reported j rs j' \<longleftrightarrow> distinct (dones rs) \<and> set (dones rs) = jb_done j' - jb_done j \<and> jb_done j \<subseteq> jb_done j'"

lemma reported_trans:
  assumes "reported j rs j1" and "reported j1 rs' j'"
  shows "reported j (rs @ rs') j'"
proof -
  have "set (dones rs) \<inter> set (dones rs') = {}" using assms by (simp add: reported_def) blast
  moreover have "set (dones rs) \<union> set (dones rs') = jb_done j' - jb_done j"
    using assms by (simp add: reported_def) blast
  moreover have "jb_done j \<subseteq> jb_done j'" using assms by (auto simp: reported_def)
  ultimately show ?thesis using assms by (simp add: reported_def)
qed

lemma writer_known_mono:
  assumes "writer_known S j i" and "jb_done j \<subseteq> jb_done j'" and "jb_told j \<subseteq> jb_told j'"
  shows "writer_known S j' i"
proof -
  from assms(1) obtain p c bf where "(p, c, bf) \<in> S" "i \<in> {out_of c, err_of c}" "fst ` set bf \<subseteq> jb_done j"
    "is_program c \<or> p \<in> jb_done j" "rc_cmd c = GetDirectory \<longrightarrow> out_of c \<in> jb_told j"
    unfolding writer_known_def by blast
  with assms(2,3) have "(p, c, bf) \<in> S" "i \<in> {out_of c, err_of c}" "fst ` set bf \<subseteq> jb_done j'"
    "is_program c \<or> p \<in> jb_done j'" "rc_cmd c = GetDirectory \<longrightarrow> out_of c \<in> jb_told j'" by auto
  then show ?thesis unfolding writer_known_def by blast
qed

lemma start_accounted:
  assumes "jb_accounted S j" and "(p, c, bf) \<in> S" and "fst ` set bf \<subseteq> jb_done j" and "fresh p j"
    and "job_start p c j = Some (j', rs)"
  shows "jb_accounted S j' \<and> reported j rs j'"
proof -
  from assms(5) have more: "jb_writers j' = {out_of c, err_of c} \<union> jb_writers j" "jb_told j \<subseteq> jb_told j'"
    "jb_done j \<subseteq> jb_done j'" "jb_waiting j' = jb_waiting j" "jb_running j \<union> jb_done j \<union> {p} = jb_running j' \<union> jb_done j'"
    "is_program c \<or> p \<in> jb_done j'" "rc_cmd c = GetDirectory \<longrightarrow> out_of c \<in> jb_told j'"
    by (auto simp: job_start_def Let_def is_program_def split: if_splits command.splits)
  have apart: "jb_running j' \<inter> jb_done j' = {}" "reported j rs j'"
    using assms(1,4,5)
    by (auto simp: job_start_def Let_def jb_accounted_def fresh_def reported_def split: if_splits command.splits)
  have "writer_known S j' i" if "i \<in> {out_of c, err_of c}" for i
    using assms(2,3) that more(3,6,7) unfolding writer_known_def by blast
  moreover have "writer_known S j' i" if "i \<in> jb_writers j" for i
    by (rule writer_known_mono [OF _ more(3,2)]) (use assms(1) that in \<open>simp add: jb_accounted_def\<close>)
  moreover have "waiter_known S j'"
  proof (cases "jb_waiting j")
    case (Some qcl)
    then obtain q c' left where w: "jb_waiting j = Some (q, c', left)" by (cases qcl) auto
    with assms(1) obtain bf' where "q \<notin> jb_running j \<union> jb_done j" "(q, c', bf') \<in> S" "fst ` set bf' \<subseteq> jb_done j \<union> left"
      by (auto simp: jb_accounted_def waiter_known_def)
    moreover have "q \<noteq> p" using assms(4) w by (auto simp: fresh_def)
    ultimately show ?thesis
      using more(3,4) w unfolding waiter_known_def more(5) [symmetric] by auto
  qed (simp add: waiter_known_def more(4))
  moreover have "jb_running j' \<union> jb_done j' \<subseteq> fst ` S"
    using assms(1) image_eqI [OF _ assms(2), of p fst] by (simp add: jb_accounted_def more(5) [symmetric])
  ultimately show ?thesis
    using apart unfolding jb_accounted_def more(1) by auto
qed

lemma enqueue_accounted:
  assumes "jb_accounted S j" and "(p, c, bf) \<in> S" and "job_enqueue p c bf j = Some (j', rs)"
  shows "jb_accounted S j' \<and> reported j rs j'"
proof (cases "fst ` set bf \<subseteq> jb_done j")
  case True
  from assms(3) have "fresh p j" by (auto simp: job_enqueue_def fresh_def split: if_splits)
  moreover from assms(3) True have "job_start p c j = Some (j', rs)" by (auto simp: job_enqueue_def split: if_splits)
  ultimately show ?thesis using start_accounted [OF assms(1,2) True] by blast
next
  case False
  with assms(3) have "j' = j\<lparr>jb_waiting := Some (p, c, fst ` set bf - jb_done j)\<rparr>" "rs = []" "p \<notin> jb_running j \<union> jb_done j"
    by (auto simp: job_enqueue_def split: if_splits)
  with assms(1,2) show ?thesis
    by (auto simp: jb_accounted_def reported_def waiter_known_def writer_known_def)
qed

lemma completed_accounted:
  assumes "jb_accounted S j" and "job_completed p exit_code j = Some (j', rs)"
  shows "jb_accounted S j' \<and> reported j rs j'"
proof -
  let ?j = "j\<lparr>jb_running := jb_running j - {p}, jb_done := insert p (jb_done j)\<rparr>"
  from assms(2) have p: "p \<in> jb_running j" by (simp add: job_completed_def split: if_splits)
  have base: "jb_running j \<inter> jb_done j = {}" "jb_running j \<union> jb_done j \<subseteq> fst ` S"
    using assms(1) by (simp_all add: jb_accounted_def)
  have known: "writer_known S (?j\<lparr>jb_waiting := w\<rparr>) i" if "i \<in> jb_writers j" for i w
    by (rule writer_known_mono [of _ j]) (use assms(1) that in \<open>auto simp: jb_accounted_def\<close>)
  have told: "reported j [RsCommandDone p exit_code] (?j\<lparr>jb_waiting := w\<rparr>)" for w
    using base(1) p by (auto simp: reported_def)
  show ?thesis
  proof (cases "jb_waiting j")
    case None
    with assms(2) p have "j' = ?j\<lparr>jb_waiting := None\<rparr>" "rs = [RsCommandDone p exit_code]"
      by (auto simp: job_completed_def Let_def)
    with base p known told show ?thesis by (auto simp: jb_accounted_def waiter_known_def)
  next
    case (Some qcl)
    then obtain q c left where w: "jb_waiting j = Some (q, c, left)" by (cases qcl) auto
    with assms(1) obtain bf where q: "q \<notin> jb_running j \<union> jb_done j" "(q, c, bf) \<in> S" "fst ` set bf \<subseteq> jb_done j \<union> left"
      by (auto simp: jb_accounted_def waiter_known_def)
    show ?thesis
    proof (cases "left \<subseteq> {p}")
      case True
      with assms(2) p w obtain rs' where start: "job_start q c (?j\<lparr>jb_waiting := None\<rparr>) = Some (j', rs')"
        and rs: "rs = [RsCommandDone p exit_code] @ rs'"
        by (auto simp: job_completed_def Let_def)
      have "jb_accounted S (?j\<lparr>jb_waiting := None\<rparr>)"
        using base p known [where w = None] by (auto simp: jb_accounted_def waiter_known_def)
      moreover have "fst ` set bf \<subseteq> jb_done (?j\<lparr>jb_waiting := None\<rparr>)" using q(3) True by auto
      moreover have "fresh q (?j\<lparr>jb_waiting := None\<rparr>)" using q(1) p by (auto simp: fresh_def)
      ultimately have "jb_accounted S j' \<and> reported (?j\<lparr>jb_waiting := None\<rparr>) rs' j'"
        using start_accounted [OF _ q(2) _ _ start] by blast
      with told [of None] show ?thesis unfolding rs using reported_trans by blast
    next
      case False
      with assms(2) p w have "j' = ?j\<lparr>jb_waiting := Some (q, c, left - {p})\<rparr>" "rs = [RsCommandDone p exit_code]"
        by (auto simp: job_completed_def Let_def)
      moreover have "waiter_known S (?j\<lparr>jb_waiting := Some (q, c, left - {p})\<rparr>)"
        using q p by (auto simp: waiter_known_def intro!: exI [of _ bf])
      ultimately show ?thesis using base p known told by (auto simp: jb_accounted_def)
    qed
  qed
qed

fun asks :: "exec_event \<Rightarrow> asked_for" where
  "asks (EvEnqueue p c bf) = {(p, c, bf)}"
| "asks _ = {}"

lemma step_accounted:
  assumes "jb_accounted S j" and "job_step ev j = Some (j', rs)" and "asks ev \<subseteq> S"
  shows "jb_accounted S j' \<and> reported j rs j'"
proof (cases ev)
  case (EvPipeMessage g msg)
  with assms show ?thesis
    by (cases msg) (auto simp: jb_accounted_def reported_def waiter_known_def writer_known_def split: if_splits option.splits)
next
  case (EvEnqueue p c bf)
  with assms enqueue_accounted [OF assms(1), of p c bf j' rs] show ?thesis by simp
next
  case (EvCompleted p exit_code)
  with assms completed_accounted [OF assms(1), of p exit_code j' rs] show ?thesis by simp
qed (use assms in \<open>auto simp: reported_def\<close>)

lemma run_accounted:
  "jb_accounted S j \<Longrightarrow> job_run evs j = Some (j', rs) \<Longrightarrow> (\<Union>ev\<in>set evs. asks ev) \<subseteq> S \<Longrightarrow> jb_accounted S j' \<and> reported j rs j'"
proof (induction evs arbitrary: j rs)
  case (Cons ev evs)
  then obtain j1 rs1 rs2 where step: "job_step ev j = Some (j1, rs1)" "job_run evs j1 = Some (j', rs2)" "rs = rs1 @ rs2"
    by (auto simp: bind_eq_Some_conv)
  from Cons.prems(3) have asks: "asks ev \<subseteq> S" "(\<Union>ev\<in>set evs. asks ev) \<subseteq> S" by auto
  from step_accounted [OF Cons.prems(1) step(1) asks(1)] Cons.IH [OF _ step(2) asks(2)] show ?case
    unfolding step(3) using reported_trans by blast
qed (simp add: reported_def)

lemma new_accounted: "jb_accounted S job_new"
  by (simp add: jb_accounted_def job_new_def waiter_known_def)

text \<open>Who is known is who was asked for; only programs run on.\<close>

definition jb_known :: "job \<Rightarrow> process_id set" where
  "jb_known j = jb_running j \<union> jb_done j \<union> fst ` set_option (jb_waiting j)"

definition programs_run :: "asked_for \<Rightarrow> job \<Rightarrow> bool" where
  "programs_run S j \<longleftrightarrow> (\<forall>p\<in>jb_running j. \<exists>c bf. (p, c, bf) \<in> S \<and> is_program c) \<and>
     (\<forall>q c left. jb_waiting j = Some (q, c, left) \<longrightarrow> left \<noteq> {} \<and> left \<subseteq> jb_running j \<and> (\<exists>bf. (q, c, bf) \<in> S))"

lemma start_known:
  assumes "job_start p c j = Some (j', rs)"
  shows "jb_known j' = insert p (jb_known j)" "jb_waiting j' = jb_waiting j" "jb_running j \<subseteq> jb_running j'"
    "jb_running j' \<subseteq> (if is_program c then insert p (jb_running j) else jb_running j)"
  using assms by (auto simp: job_start_def Let_def jb_known_def is_program_def split: if_splits command.splits)

lemma enqueue_known:
  assumes "job_enqueue p c bf j = Some (j', rs)" and "programs_run S j" and "(p, c, bf) \<in> S"
  shows "jb_known j' = insert p (jb_known j) \<and> programs_run S j'"
proof (cases "fst ` set bf \<subseteq> jb_done j")
  case True
  with assms(1) have "job_start p c j = Some (j', rs)" by (auto simp: job_enqueue_def split: if_splits)
  note start = start_known [OF this]
  have "\<exists>c bf. (q, c, bf) \<in> S \<and> is_program c" if "q \<in> jb_running j'" for q
  proof -
    from that start(4) have "q = p \<and> is_program c \<or> q \<in> jb_running j" by (auto split: if_splits)
    with assms(2,3) show ?thesis unfolding programs_run_def by blast
  qed
  moreover have "left \<noteq> {} \<and> left \<subseteq> jb_running j' \<and> (\<exists>bf. (q, c', bf) \<in> S)" if "jb_waiting j' = Some (q, c', left)" for q c' left
  proof -
    from that start(2) assms(2) have "left \<noteq> {}" "left \<subseteq> jb_running j" "\<exists>bf. (q, c', bf) \<in> S"
      by (simp_all add: programs_run_def)
    with start(3) show ?thesis by auto
  qed
  ultimately show ?thesis using start(1) by (simp add: programs_run_def)
next
  case False
  with assms(1) have j': "jb_waiting j = None" "j' = j\<lparr>jb_waiting := Some (p, c, fst ` set bf - jb_done j)\<rparr>"
    "\<forall>b\<in>set bf. fst b \<in> jb_running j \<union> jb_done j"
    by (auto simp: job_enqueue_def split: if_splits)
  with False assms(2,3) show ?thesis by (auto simp: programs_run_def jb_known_def)
qed

lemma completed_known:
  assumes "job_completed p exit_code j = Some (j', rs)" and "programs_run S j"
  shows "jb_known j' = jb_known j \<and> programs_run S j' \<and> p \<in> jb_done j'"
proof -
  let ?j = "j\<lparr>jb_running := jb_running j - {p}, jb_done := insert p (jb_done j)\<rparr>"
  from assms(1) have p: "p \<in> jb_running j" by (simp add: job_completed_def split: if_splits)
  show ?thesis
  proof (cases "jb_waiting j")
    case None
    with assms p show ?thesis by (auto simp: job_completed_def Let_def jb_known_def programs_run_def)
  next
    case (Some qcl)
    then obtain q c left where w: "jb_waiting j = Some (q, c, left)" by (cases qcl) auto
    show ?thesis
    proof (cases "left \<subseteq> {p}")
      case True
      with assms(1) p w obtain rs' where s: "job_start q c (?j\<lparr>jb_waiting := None\<rparr>) = Some (j', rs')"
        by (auto simp: job_completed_def Let_def)
      note start = start_known [OF s]
      have "p \<in> jb_done j'" using s by (auto simp: job_start_def Let_def split: if_splits command.splits)
      moreover have "jb_known j' = jb_known j" using start(1) p w by (auto simp: jb_known_def)
      moreover have "\<exists>c bf. (r, c, bf) \<in> S \<and> is_program c" if "r \<in> jb_running j'" for r
      proof -
        from that start(4) have "r = q \<and> is_program c \<or> r \<in> jb_running j" by (auto split: if_splits)
        with assms(2) w show ?thesis unfolding programs_run_def by blast
      qed
      ultimately show ?thesis using start(2) by (simp add: programs_run_def)
    next
      case False
      with assms p w show ?thesis by (auto simp: job_completed_def Let_def jb_known_def programs_run_def)
    qed
  qed
qed

lemma step_known:
  assumes "job_step ev j = Some (j', rs)" and "programs_run S j" and "asks ev \<subseteq> S"
  shows "jb_known j' = jb_known j \<union> fst ` asks ev \<and> programs_run S j' \<and> (\<forall>p c. ev = EvCompleted p c \<longrightarrow> p \<in> jb_done j')"
proof (cases ev)
  case (EvPipeMessage g msg)
  with assms show ?thesis by (cases msg) (auto simp: jb_known_def programs_run_def split: if_splits)
next
  case (EvEnqueue p c bf)
  with assms enqueue_known [of p c bf j j' rs S] show ?thesis by auto
next
  case (EvCompleted p c)
  with assms completed_known [of p c j j' rs S] show ?thesis by simp
qed (use assms in auto)

lemma run_known:
  "job_run evs j = Some (j', rs) \<Longrightarrow> programs_run S j \<Longrightarrow> jb_accounted S j \<Longrightarrow> (\<Union>ev\<in>set evs. asks ev) \<subseteq> S \<Longrightarrow>
   jb_known j' = jb_known j \<union> fst ` (\<Union>ev\<in>set evs. asks ev) \<and> programs_run S j' \<and>
   (\<forall>p c. EvCompleted p c \<in> set evs \<longrightarrow> p \<in> jb_done j')"
proof (induction evs arbitrary: j rs)
  case (Cons ev evs)
  then obtain j1 rs1 rs2 where step: "job_step ev j = Some (j1, rs1)" "job_run evs j1 = Some (j', rs2)" "rs = rs1 @ rs2"
    by (auto simp: bind_eq_Some_conv)
  from Cons.prems(4) have asks: "asks ev \<subseteq> S" "(\<Union>ev\<in>set evs. asks ev) \<subseteq> S" by auto
  note one = step_known [OF step(1) Cons.prems(2) asks(1)]
  have acc: "jb_accounted S j1" using step_accounted [OF Cons.prems(3) step(1) asks(1)] by simp
  have "jb_done j1 \<subseteq> jb_done j'" using run_accounted [OF acc step(2) asks(2)] by (simp add: reported_def)
  with one Cons.IH [OF step(2) _ acc asks(2)] show ?case by (auto simp: image_Un)
qed simp

text \<open>
  C6: Requests that fit together are served, on an operating system that grants what it is asked
  for: pipes, the start of every program, and the current directory, which is Unicode. The executor
  starts empty; requests that fit together reach it in any order of arrival among the ends of
  programs and the output of pipes. It handles every event without a panic, and reports no command
  twice; when every program that was asked for has ended, every command asked for, the one that had
  to wait too, has been reported.
\<close>

theorem requests_served:
  assumes "answering w" and "obliging os" and "fitting {} {} {} {} (filter asked evs)" and "plausible {} {} evs"
    and "\<forall>p c bf. EvEnqueue p c bf \<in> set evs \<and> is_program c \<longrightarrow> (\<exists>exit_code. EvCompleted p exit_code \<in> set evs)"
  shows "returns (run_handler os (exec_handler_impl w) (Suc fuel) evs) (\<lambda>_ s. \<exists>rs.
     bk_trans (ex_handler s) = bk_trans b @ map (reply_line w) rs \<and> distinct (dones rs) \<and>
     set (dones rs) = {p. \<exists>c bf. EvEnqueue p c bf \<in> set evs}) (exec_new b v)"
proof -
  let ?S = "\<Union>ev\<in>set evs. asks ev"
  have new: "reserved {} {} {} {} job_new" "jb_running job_new = {}" "programs_run ?S job_new"
    by (simp_all add: reserved_def job_new_def programs_run_def)
  with job_accepts [of "{}" "{}" "{}" "{}" job_new evs "{}"] assms(3,4) obtain j rs where
    run: "job_run evs job_new = Some (j, rs)" by auto
  have S: "(p, c, bf) \<in> ?S \<longleftrightarrow> EvEnqueue p c bf \<in> set evs" for p c bf
  proof
    assume "(p, c, bf) \<in> ?S"
    then obtain ev where "ev \<in> set evs" "(p, c, bf) \<in> asks ev" by auto
    moreover from this(2) have "ev = EvEnqueue p c bf" by (cases ev) auto
    ultimately show "EvEnqueue p c bf \<in> set evs" by simp
  next
    assume "EvEnqueue p c bf \<in> set evs"
    then show "(p, c, bf) \<in> ?S" by force
  qed
  from run_accounted [OF new_accounted run subset_refl]
  have rep: "distinct (dones rs)" "set (dones rs) = jb_done j" "jb_running j \<inter> jb_done j = {}"
    by (simp_all add: reported_def job_new_def jb_accounted_def)
  from run_known [OF run new(3) new_accounted subset_refl]
  have known: "jb_known j = fst ` ?S" "programs_run ?S j" "\<forall>p c. EvCompleted p c \<in> set evs \<longrightarrow> p \<in> jb_done j"
    by (simp_all add: jb_known_def job_new_def)
  have "p \<notin> jb_running j" for p
  proof
    assume p: "p \<in> jb_running j"
    with known(2) obtain c bf where "(p, c, bf) \<in> ?S" "is_program c" unfolding programs_run_def by blast
    with assms(5) S known(3) have "p \<in> jb_done j" by blast
    with p rep(3) show False by blast
  qed
  then have "jb_running j = {}" by blast
  moreover from this have "jb_waiting j = None" using known(2) by (cases "jb_waiting j") (auto simp: programs_run_def)
  ultimately have "set (dones rs) = fst ` ?S" using known(1) rep(2) by (simp add: jb_known_def)
  moreover have "fst ` ?S = {p. \<exists>c bf. EvEnqueue p c bf \<in> set evs}" using S by force
  ultimately show ?thesis
    by (intro wp_mono [OF run_follows [OF assms(1,2) follows_new run]])
      (use rep(1) in \<open>auto simp: about_def\<close>)
qed

section \<open>A concrete run\<close>

text \<open>A program whose output is read, and a request for the directory that waits for it.\<close>

definition demo_served :: "exec_event list" where
  "demo_served = [EvEnqueue (ProcessId 3) \<lparr>rc_cmd = Unknown ''ls'' [], rc_pipes =
       \<lparr>w_stdin = ReadPipe 2, w_stdout = WritePipe 0, w_stderr = WritePipe 1\<rparr>\<rparr> [],
     EvPipeMessage (GenericPipe 0) BeginRead,
     EvEnqueue (ProcessId 7) \<lparr>rc_cmd = GetDirectory, rc_pipes =
       \<lparr>w_stdin = ReadPipe 6, w_stdout = WritePipe 4, w_stderr = WritePipe 5\<rparr>\<rparr> [(ProcessId 3, None)],
     EvPipeOutput (GenericPipe 0) ''x'' 0, EvCompleted (ProcessId 3) 1, EvPipeClosed (GenericPipe 0) 0]"

lemma requests_served_witness:
  "returns (run_handler kind_os (exec_handler_impl coded_wire) (Suc 0) demo_served) (\<lambda>_ s. \<exists>rs.
     bk_trans (ex_handler s) = bk_trans (bk_new []) @ map (reply_line coded_wire) rs \<and> distinct (dones rs) \<and>
     set (dones rs) = {p. \<exists>c bf. EvEnqueue p c bf \<in> set demo_served}) (exec_new (bk_new []) 10)"
  by (rule requests_served [OF coded_answering kind_os])
    (auto simp: demo_served_def is_program_def in_ends_def in_of_def out_of_def err_of_def)

end
