(* ===== verification/Whole_Run.thy ===== *)
theory Whole_Run
  imports Programs Job_Run
begin

text \<open>
  The two processes together: a pipeline typed as a command on its own, from the line to what the
  terminal shows, whatever the order in which its programs end and its output arrives.
\<close>

section \<open>The requests of a pipeline fit together\<close>

lemma pipe_at_numbers [simp]:
  "pipe_at n (Suc (2 * k)) = n + 3 * k + 1" "pipe_at n (Suc (Suc (2 * k))) = n + 3 * k + 2"
  by (simp_all add: pipe_at_def)

lemma pipe_at_even: "pipe_at n (2 * k) = (if k = 0 then n else n + 3 * k - 1)"
  by (cases k) (simp_all add: pipe_at_def)

definition run_by :: "nat \<Rightarrow> nat \<Rightarrow> nat \<Rightarrow> command \<Rightarrow> run_cmd" where
  "run_by i out err c = \<lparr>rc_cmd = c, rc_pipes = \<lparr>w_stdin = ReadPipe i, w_stdout = WritePipe out, w_stderr = WritePipe err\<rparr>\<rparr>"

lemma run_by_ends [simp]:
  "in_of (run_by i out err c) = i" "out_of (run_by i out err c) = out" "err_of (run_by i out err c) = err"
  "rc_cmd (run_by i out err c) = c"
  by (simp_all add: run_by_def in_of_def out_of_def err_of_def)

definition stage_event :: "nat \<Rightarrow> nat \<times> command \<Rightarrow> exec_event" where
  "stage_event n kc = (case kc of (k, c) \<Rightarrow>
     EvEnqueue (stage_pid n k) (run_by (n + 3 * k + 2) (pipe_at n (2 * k)) (n + 3 * k + 1) c) [])"

definition directory_events :: "nat \<Rightarrow> (process_id \<times> condition) list \<Rightarrow> exec_event list" where
  "directory_events d bf = [EvEnqueue (ProcessId (d + 3)) (run_by (d + 2) d (d + 1) GetDirectory) bf,
     EvPipeMessage (GenericPipe d) BeginRead, EvPipeMessage (GenericPipe (d + 1)) BeginRead,
     EvPipeMessage (GenericPipe d) (Read max_read), EvPipeMessage (GenericPipe (d + 1)) (Read max_read)]"

definition read_events :: "nat \<Rightarrow> exec_event list" where
  "read_events i = [EvPipeMessage (GenericPipe i) BeginRead, EvPipeMessage (GenericPipe i) (Read max_read)]"

definition pipeline_events :: "nat \<Rightarrow> command list \<Rightarrow> (process_id \<times> condition) list \<Rightarrow> exec_event list" where
  "pipeline_events n cs bf = map (stage_event n) (enumerate 0 cs) @ directory_events (n + 3 * length cs + 1) bf @
     read_events n @ read_events (n + 1)"

lemma request_events:
  "map event_of (map (stage_request n) (enumerate 0 cs) @ directory_requests (n + 3 * length cs + 1) bf @
     read_requests n @ read_requests (n + 1)) = map Some (pipeline_events n cs bf)"
  by (auto simp: pipeline_events_def stage_request_def stage_event_def run_by_def directory_requests_def
      directory_events_def read_requests_def read_events_def)

lemma waiting_pids_Suc: "waiting_pids n (Suc k) = insert (stage_pid n k) (waiting_pids n k)"
  by (auto simp: waiting_pids_def lessThan_Suc)

lemma stages_fit:
  assumes "\<forall>c\<in>set cs. \<forall>path. c \<noteq> Edit path"
    and "\<And>R W. R \<subseteq> {n + 2..<n + 3 * (k + length cs)} \<Longrightarrow> \<forall>i\<in>W. i + 1 < n + 3 * (k + length cs) \<Longrightarrow>
      fitting (waiting_pids n (k + length cs)) {} R W evs"
    and "R \<subseteq> {n + 2..<n + 3 * k}" and "\<forall>i\<in>W. i + 1 < n + 3 * k"
  shows "fitting (waiting_pids n k) {} R W (map (stage_event n) (enumerate k cs) @ evs)"
  using assms
proof (induction cs arbitrary: k R W)
  case (Cons c cs)
  let ?c = "run_by (n + 3 * k + 2) (pipe_at n (2 * k)) (n + 3 * k + 1) c"
  have "fitting (waiting_pids n (Suc k)) {} (in_ends ?c \<union> R) ({out_of ?c, err_of ?c} \<union> W)
      (map (stage_event n) (enumerate (Suc k) cs) @ evs)"
  proof (rule Cons.IH)
    show "in_ends ?c \<union> R \<subseteq> {n + 2..<n + 3 * Suc k}" using Cons.prems(3) by (auto simp: in_ends_def)
    show "\<forall>i\<in>{out_of ?c, err_of ?c} \<union> W. i + 1 < n + 3 * Suc k"
      using Cons.prems(4) by (auto simp: pipe_at_even)
  qed (use Cons.prems(1,2) in auto)
  moreover have "stage_pid n k \<notin> waiting_pids n k" by (auto simp: waiting_pids_def stage_pid_def)
  moreover have "in_ends ?c \<inter> R = {}" using Cons.prems(3) by (auto simp: in_ends_def)
  moreover have "{out_of ?c, err_of ?c} \<inter> W = {}" using Cons.prems(4) by (auto simp: pipe_at_even split: if_splits)
  moreover have "out_of ?c \<noteq> err_of ?c" by (cases k) (simp_all add: pipe_at_def)
  moreover have "stage_event n (k, c) = EvEnqueue (stage_pid n k) ?c []" by (simp add: stage_event_def)
  ultimately show ?case
    using Cons.prems(1) by (simp add: waiting_pids_Suc)
qed simp

lemma pipeline_fits:
  assumes "\<forall>c\<in>set cs. \<forall>path. c \<noteq> Edit path" and "cs \<noteq> []" and "distinct bf" and "set bf = (\<lambda>p. (p, None)) ` waiting_pids n (length cs)"
  shows "fitting {} {} {} {} (pipeline_events n cs bf)"
proof -
  let ?d = "n + 3 * length cs + 1"
  have "distinct (map fst bf)" using assms(3) by (auto simp: distinct_map inj_on_def assms(4))
  moreover have "ProcessId (?d + 3) \<notin> waiting_pids n (length cs)" by (auto simp: waiting_pids_def stage_pid_def)
  moreover have "\<forall>b\<in>set bf. snd b = None \<and> fst b \<in> waiting_pids n (length cs)" using assms(4) by auto
  moreover have "0 < length cs" using assms(2) by simp
  ultimately have "fitting (waiting_pids n (length cs)) {} R W (directory_events ?d bf @ read_events n @ read_events (n + 1))"
    if "R \<subseteq> {n + 2..<n + 3 * length cs}" "\<forall>i\<in>W. i + 1 < n + 3 * length cs" for R W
    using that by (auto simp: directory_events_def read_events_def is_program_def in_ends_def)
  then have "fitting (waiting_pids n 0) {} {} {} (map (stage_event n) (enumerate 0 cs) @
      directory_events ?d bf @ read_events n @ read_events (n + 1))"
    by (intro stages_fit [OF assms(1)]) simp_all
  then show ?thesis by (simp add: pipeline_events_def waiting_pids_def)
qed

section \<open>The frontend hears\<close>

text \<open>
  What arrives on the four pipes: the output of the pipeline, \<open>n\<close>, goes to the terminal by \<open>put\<close>,
  what it wrote to standard error, and \<open>GetDirectory\<close>'s, by \<open>put_err\<close>; the directory, \<open>d\<close>, is gathered.
\<close>

fun screen :: "(bytes \<Rightarrow> 't \<Rightarrow> 't) \<Rightarrow> (bytes \<Rightarrow> 't \<Rightarrow> 't) \<Rightarrow> nat \<Rightarrow> nat \<Rightarrow> exec_event \<Rightarrow> 't \<Rightarrow> 't" where
  "screen put put_err n d (EvPipeOutput g data off) t =
     (if pipe_num g = n then put data t else if pipe_num g = d then t else put_err data t)"
| "screen put put_err n d _ t = t"

fun chunk :: "nat \<Rightarrow> exec_event \<Rightarrow> bytes" where
  "chunk d (EvPipeOutput g data off) = (if pipe_num g = d then data else [])"
| "chunk d _ = []"

definition chunks :: "nat \<Rightarrow> exec_event list \<Rightarrow> bytes" where
  "chunks d evs = concat (map (chunk d) evs)"

text \<open>The frontend while it waits for the commands \<open>left\<close> and the directory, of which it has \<open>out\<close>.\<close>

definition listening :: "nat \<Rightarrow> nat \<Rightarrow> process_id set \<Rightarrow> bytes \<Rightarrow> 't \<Rightarrow> 't front_endpoint \<Rightarrow> bool" where
  "listening n d left out t e \<longleftrightarrow> waiting_for_remote (ep_handler e) = None \<and> set (waiting_for (ep_handler e)) = left \<and>
     waiting_for_eof (ep_handler e) = {GenericPipe d} \<and> {n, n + 1, d, d + 1} \<subseteq> ep_pipes e \<and>
     stdout_pipes (ep_handler e) = {GenericPipe n} \<and> stderr_pipes (ep_handler e) = {GenericPipe (n + 1), GenericPipe (d + 1)} \<and>
     gathering_output (ep_handler e) = [GenericPipe d \<mapsto> out] \<and> finished_output (ep_handler e) = Map.empty \<and>
     map snd (cwd_for_remote (ep_handler e)) = [GenericPipe d] \<and> ep_trans e = t"

definition answer_of :: "remote_response \<Rightarrow> response" where
  "answer_of m = \<lparr>rs_remote_id = 0, rs_message = m\<rparr>"

definition showing :: "'t front_os \<Rightarrow> (bytes \<Rightarrow> 't \<Rightarrow> 't) \<Rightarrow> (bytes \<Rightarrow> 't \<Rightarrow> 't) \<Rightarrow> bool" where
  "showing fo put put_err \<longleftrightarrow> fo_stdout fo = (\<lambda>b t. (Inr (), put b t)) \<and> fo_stderr fo = (\<lambda>b t. (Inr (), put_err b t))"

lemma listening_busy: "listening n d left out t e \<Longrightarrow> busy e"
  by (simp add: listening_def busy_def)

lemma hears_done:
  assumes "listening n d left out t e" and "p \<in> left"
  shows "\<exists>e'. receive w fo (answer_of (RsCommandDone p c)) e = (Ok (), e') \<and> listening n d (left - {p}) out t e'"
  using assms
  by (auto simp: receive_def ep_receive_def stacked_handler_def sr_command_done_def handler_state_def handler_upd_def
      answer_of_def listening_def eff_defs)

lemma hears_data:
  assumes "listening n d left out t e" and "showing fo put put_err" and "i \<in> {n, n + 1, d, d + 1}" and "n + 1 < d"
  shows "\<exists>e'. receive w fo (answer_of (RsPipe \<lparr>env_id = i, env_msg = Data b off\<rparr>)) e = (Ok (), e') \<and>
    listening n d left (out @ chunk d (EvPipeOutput (GenericPipe i) b off))
      (screen put put_err n d (EvPipeOutput (GenericPipe i) b off) t) e'"
  using assms
  by (auto simp: receive_def ep_receive_def stacked_handler_def sr_pipe_def handler_state_def handler_upd_def
      outside_def answer_of_def listening_def showing_def eff_defs)

lemma hears_end:
  assumes "listening n d left out t e" and "i \<in> {n, n + 1, d + 1}" and "n + 1 < d"
  shows "\<exists>e'. receive w fo (answer_of (RsPipe \<lparr>env_id = i, env_msg = Closed off\<rparr>)) e = (Ok (), e') \<and>
    listening n d left out t e'"
  using assms
  by (auto simp: receive_def ep_receive_def stacked_handler_def sr_pipe_def handler_state_def handler_upd_def
      answer_of_def listening_def eff_defs)

lemma hears_directory:
  assumes "listening n d {} out t e" and "directory_line out"
  shows "\<exists>e'. receive w fo (answer_of (RsPipe \<lparr>env_id = d, env_msg = Closed off\<rparr>)) e = (Ok (), e') \<and>
    idle e' \<and> directories_told e' \<and> ep_trans e' = t"
  using assms
  by (auto simp: receive_def ep_receive_def stacked_handler_def sr_pipe_def handler_state_def handler_upd_def
      answer_of_def listening_def idle_def directories_told_def list_all_iff eff_defs)

lemma absorbs_append: "absorbs w fo e ms e1 \<Longrightarrow> absorbs w fo e1 ms' e2 \<Longrightarrow> absorbs w fo e (ms @ ms') e2"
  by (induction rule: absorbs.induct) (auto intro: absorbs.intros)

lemma absorbs_one: "listening n d left out t e \<Longrightarrow> receive w fo m e = (Ok (), e') \<Longrightarrow> absorbs w fo e [m] e'"
  by (auto intro: absorbs.intros listening_busy)

lemma hears_dones:
  "list_all (\<lambda>m. \<exists>p c. m = RsCommandDone p c) rs \<Longrightarrow> listening n d left out t e \<Longrightarrow> distinct (dones rs) \<Longrightarrow>
   set (dones rs) \<subseteq> left \<Longrightarrow> \<exists>e'. absorbs w fo e (map answer_of rs) e' \<and> listening n d (left - set (dones rs)) out t e'"
proof (induction rs arbitrary: left e)
  case Nil
  then show ?case by (auto intro: absorbs.intros)
next
  case (Cons m rs)
  then obtain p c where m: "m = RsCommandDone p c" by auto
  from Cons.prems(4) have "p \<in> left" by (simp add: m)
  from hears_done [OF Cons.prems(2) this, of w fo c] obtain e1 where
    e1: "receive w fo (answer_of m) e = (Ok (), e1)" "listening n d (left - {p}) out t e1" unfolding m by blast
  have "list_all (\<lambda>m. \<exists>p c. m = RsCommandDone p c) rs" "distinct (dones rs)" "set (dones rs) \<subseteq> left - {p}"
    using Cons.prems(1,3,4) by (auto simp: m)
  from Cons.IH [OF this(1) e1(2) this(2,3)] obtain e2 where
    "absorbs w fo e1 (map answer_of rs) e2" "listening n d (left - {p} - set (dones rs)) out t e2" by blast
  moreover have "left - set (dones (m # rs)) = left - {p} - set (dones rs)" by (auto simp: m)
  ultimately show ?case
    using absorbs_Cons [OF listening_busy [OF Cons.prems(2)] e1(1)] by auto
qed

lemma start_replies: "job_start p c j = Some (j', rs) \<Longrightarrow> list_all (\<lambda>m. \<exists>p c. m = RsCommandDone p c) rs"
  by (auto simp: job_start_def Let_def split: if_splits command.splits)

lemma silent_replies:
  assumes "job_step ev j = Some (j', rs)" and "\<forall>g b off. ev \<noteq> EvPipeOutput g b off" and "\<forall>g off. ev \<noteq> EvPipeClosed g off"
  shows "list_all (\<lambda>m. \<exists>p c. m = RsCommandDone p c) rs" "screen put put_err n d ev t = t" "chunk d ev = []"
proof -
  show "list_all (\<lambda>m. \<exists>p c. m = RsCommandDone p c) rs"
  proof (cases ev)
    case (EvPipeMessage g msg)
    with assms show ?thesis by (cases msg) (auto split: if_splits)
  next
    case (EvEnqueue p c bf)
    with assms show ?thesis by (auto simp: job_enqueue_def start_replies split: if_splits)
  next
    case (EvCompleted p exit_code)
    with assms show ?thesis
      by (auto simp: job_completed_def Let_def start_replies split: if_splits option.splits elim!: start_replies)
  qed (use assms in auto)
qed (use assms(2) in \<open>cases ev; simp\<close>)+

text \<open>Output and ends on the pipes the frontend knows, and no end of the directory yet.\<close>

fun hearable :: "nat \<Rightarrow> nat \<Rightarrow> exec_event \<Rightarrow> bool" where
  "hearable n d (EvPipeOutput g data off) \<longleftrightarrow> pipe_num g \<in> {n, n + 1, d, d + 1}"
| "hearable n d (EvPipeClosed g off) \<longleftrightarrow> pipe_num g \<in> {n, n + 1, d + 1}"
| "hearable n d _ \<longleftrightarrow> True"

lemma hears_run:
  assumes fo: "showing fo put put_err" and nd: "n + 1 < d"
  shows "job_run evs j = Some (j', rs) \<Longrightarrow> list_all (hearable n d) evs \<Longrightarrow> listening n d left out t e \<Longrightarrow> distinct (dones rs) \<Longrightarrow>
    set (dones rs) \<subseteq> left \<Longrightarrow> \<exists>e'. absorbs w fo e (map answer_of rs) e' \<and>
    listening n d (left - set (dones rs)) (out @ chunks d evs) (fold (screen put put_err n d) evs t) e'"
proof (induction evs arbitrary: j rs left out t e)
  case Nil
  then show ?case by (auto simp: chunks_def intro: absorbs.intros)
next
  case (Cons ev evs)
  from Cons.prems(1) obtain j1 rs1 rs2 where step: "job_step ev j = Some (j1, rs1)" "job_run evs j1 = Some (j', rs2)"
    and rs: "rs = rs1 @ rs2" by (auto simp: bind_eq_Some_conv)
  from Cons.prems(4,5) have d1: "distinct (dones rs1)" "set (dones rs1) \<subseteq> left"
    and d2: "distinct (dones rs2)" "set (dones rs2) \<subseteq> left - set (dones rs1)" by (auto simp: rs)
  have "\<exists>e1. absorbs w fo e (map answer_of rs1) e1 \<and>
      listening n d (left - set (dones rs1)) (out @ chunk d ev) (screen put put_err n d ev t) e1"
  proof (cases "(\<exists>g b off. ev = EvPipeOutput g b off) \<or> (\<exists>g off. ev = EvPipeClosed g off)")
    case True
    then show ?thesis
    proof (elim disjE exE)
      fix g b off
      assume ev: "ev = EvPipeOutput g b off"
      with Cons.prems(2) have "pipe_num g \<in> {n, n + 1, d, d + 1}" by simp
      from hears_data [OF Cons.prems(3) fo this nd, of w b off] obtain e1 where
        e1: "receive w fo (answer_of (RsPipe \<lparr>env_id = pipe_num g, env_msg = Data b off\<rparr>)) e = (Ok (), e1)"
          "listening n d left (out @ chunk d ev) (screen put put_err n d ev t) e1" by (auto simp: ev)
      from step(1) have rs1: "rs1 = [RsPipe \<lparr>env_id = pipe_num g, env_msg = Data b off\<rparr>]" by (simp add: ev)
      from absorbs_one [OF Cons.prems(3) e1(1)] e1(2) show ?thesis by (intro exI [of _ e1]) (simp add: rs1)
    next
      fix g off
      assume ev: "ev = EvPipeClosed g off"
      with Cons.prems(2) have "pipe_num g \<in> {n, n + 1, d + 1}" by simp
      from hears_end [OF Cons.prems(3) this nd, of w fo off] obtain e1 where
        e1: "receive w fo (answer_of (RsPipe \<lparr>env_id = pipe_num g, env_msg = Closed off\<rparr>)) e = (Ok (), e1)"
          "listening n d left out t e1" by blast
      from step(1) have rs1: "rs1 = [RsPipe \<lparr>env_id = pipe_num g, env_msg = Closed off\<rparr>]" by (simp add: ev)
      from absorbs_one [OF Cons.prems(3) e1(1)] e1(2) show ?thesis by (intro exI [of _ e1]) (simp add: rs1 ev)
    qed
  next
    case False
    then have "\<forall>g b off. ev \<noteq> EvPipeOutput g b off" "\<forall>g off. ev \<noteq> EvPipeClosed g off" by auto
    note silent = silent_replies [OF step(1) this]
    from hears_dones [OF silent(1) Cons.prems(3) d1] show ?thesis by (simp add: silent(2,3))
  qed
  then obtain e1 where e1: "absorbs w fo e (map answer_of rs1) e1"
    "listening n d (left - set (dones rs1)) (out @ chunk d ev) (screen put put_err n d ev t) e1" by blast
  from Cons.prems(2) have "list_all (hearable n d) evs" by simp
  from Cons.IH [OF step(2) this e1(2) d2] obtain e2 where "absorbs w fo e1 (map answer_of rs2) e2"
    "listening n d (left - set (dones rs1) - set (dones rs2)) ((out @ chunk d ev) @ chunks d evs)
      (fold (screen put put_err n d) evs (screen put put_err n d ev t)) e2" by blast
  moreover have "left - set (dones rs) = left - set (dones rs1) - set (dones rs2)" by (auto simp: rs)
  ultimately show ?case
    using absorbs_append [OF e1(1)] by (auto simp: rs chunks_def)
qed

section \<open>From the line to the terminal\<close>

lemma requests_queued:
  assumes "faithful (request_string w) from_req" and "logging w"
  shows "map event_of reqs = map Some evs \<Longrightarrow> \<not> nd_ended nd \<Longrightarrow> backend_loop w os from_req (map (line_of w ep_root) reqs) nd =
    (Ok (), nd\<lparr>nd_queue := nd_queue nd @ evs\<rparr>)"
proof (induction reqs arbitrary: evs nd)
  case Nil
  then show ?case by (simp add: backend_loop_def ret_def)
next
  case (Cons q reqs)
  then obtain ev evs' where evs: "evs = ev # evs'" "event_of q = Some ev" "map event_of reqs = map Some evs'"
    by (cases evs) auto
  let ?q = "\<lparr>rq_remote_id = 0, rq_message = q\<rparr>"
  from assms(2) obtain str where "request_string w ?q = Some str" unfolding logging_def by blast
  then have "from_req (line_of w ep_root q) = Some ?q"
    using assms(1) by (simp add: faithful_def line_of_def ep_root_def)
  then have "backend_line w os from_req (line_of w ep_root q) nd = (Ok (), nd\<lparr>nd_queue := nd_queue nd @ [ev]\<rparr>)"
    using route_event [of ?q ev nd w os] evs(2) Cons.prems(2) by (simp add: backend_line_def)
  with Cons.IH [OF evs(3), of "nd\<lparr>nd_queue := nd_queue nd @ [ev]\<rparr>"] Cons.prems(2) show ?case
    by (simp add: backend_loop_def evs(1) thn_def bnd_def)
qed

lemma line_sent:
  assumes "carry_plan w (wired_plan r ms) (connected t info) = (Ok go, e1)" and "logging w" and "ms \<noteq> []"
  defines "d \<equiv> 3 * length ms + 1"
  shows "\<exists>bf. distinct bf \<and> set bf = (\<lambda>p. (p, None)) ` waiting_pids 0 (length ms) \<and>
      ep_trans e1 = t @ map (line_of w ep_root) (map (stage_request 0) (enumerate 0 (rev ms)) @
        directory_requests d bf @ read_requests 0 @ read_requests 1)"
    and "listening 0 d (insert (ProcessId (d + 3)) (waiting_pids 0 (length ms))) [] (ep_trans e1) e1"
proof -
  have c: "next_id (ep_ids (connected t info)) = 0" "ep_trans (connected t info) = t"
    "ep_handler (connected t info) = stacked_new\<lparr>st_remotes := [(ep_root, info)]\<rparr>"
    by (simp_all add: connected_def launched_def ep_new_def ids_new_def)
  from wired_plan_requests [OF assms(2) connected_prompt assms(3), of r t info] assms(1)
  have sent: "pipeline_sent w ms (connected t info) e1" by (simp add: wp_def)
  then show "\<exists>bf. distinct bf \<and> set bf = (\<lambda>p. (p, None)) ` waiting_pids 0 (length ms) \<and>
      ep_trans e1 = t @ map (line_of w ep_root) (map (stage_request 0) (enumerate 0 (rev ms)) @
        directory_requests d bf @ read_requests 0 @ read_requests 1)"
    unfolding pipeline_sent_def Let_def c d_def by (simp add: stacked_new_def)
  from sent show "listening 0 d (insert (ProcessId (d + 3)) (waiting_pids 0 (length ms))) [] (ep_trans e1) e1"
    unfolding pipeline_sent_def Let_def c d_def listening_def by (auto simp: stacked_new_def map_insert_def)
qed

lemma heard_pipes:
  "plausible A G evs \<Longrightarrow> G \<subseteq> K \<Longrightarrow> \<forall>g. EvPipeMessage g BeginRead \<in> set evs \<longrightarrow> g \<in> K \<Longrightarrow>
   \<forall>ev\<in>set evs. \<forall>g b off. ev = EvPipeOutput g b off \<or> ev = EvPipeClosed g off \<longrightarrow> g \<in> K"
proof (induction A G evs rule: plausible.induct)
  case (3 A G g evs)
  then show ?case by auto
next
  case (7 A G g off evs)
  then have "G - {g} \<subseteq> K" by auto
  with 7 show ?case by auto
qed auto

lemma plausible_append: "plausible A G (xs @ ys) \<Longrightarrow> plausible A G xs"
  by (induction A G xs rule: plausible.induct) auto

lemma job_run_append: "job_run (xs @ ys) j = Option.bind (job_run xs j) (\<lambda>(j1, rs). map_option (\<lambda>(j2, rs'). (j2, rs @ rs')) (job_run ys j1))"
proof (induction xs arbitrary: j)
  case Nil
  then show ?case by (cases "job_run ys j") auto
next
  case (Cons ev xs)
  show ?case
  proof (cases "job_step ev j")
    case (Some x)
    obtain j1 rs1 where x: "x = (j1, rs1)" by fastforce
    show ?thesis
    proof (cases "job_run xs j1")
      case (Some y)
      obtain j2 rs2 where y: "y = (j2, rs2)" by fastforce
      show ?thesis
        using \<open>job_step ev j = Some x\<close> Some by (cases "job_run ys j2") (auto simp: x y Cons.IH)
    qed (use Some in \<open>auto simp: x Cons.IH\<close>)
  qed simp
qed

definition asked_by :: "exec_event list \<Rightarrow> asked_for" where
  "asked_by evs = (\<Union>ev\<in>set evs. asks ev)"

lemma asked_by_filter: "asked_by (filter asked evs) = asked_by evs"
proof -
  have "asks ev = {}" if "\<not> asked ev" for ev using that by (cases ev) auto
  then show ?thesis by (auto simp: asked_by_def)
qed

definition stage_asked :: "nat \<Rightarrow> nat \<times> command \<Rightarrow> process_id \<times> run_cmd \<times> (process_id \<times> condition) list" where
  "stage_asked n kc = (case kc of (k, c) \<Rightarrow> (stage_pid n k, run_by (n + 3 * k + 2) (pipe_at n (2 * k)) (n + 3 * k + 1) c, []))"

lemma asked_by_pipeline:
  assumes "d = n + 3 * length cs + 1"
  shows "asked_by (pipeline_events n cs bf) = insert (ProcessId (d + 3), run_by (d + 2) d (d + 1) GetDirectory, bf)
     (stage_asked n ` set (enumerate 0 cs))"
proof -
  have "asks (stage_event n kc) = {stage_asked n kc}" for kc
    by (cases kc) (simp add: stage_event_def stage_asked_def)
  then show ?thesis
    unfolding pipeline_events_def assms [symmetric] asked_by_def
    by (auto simp: directory_events_def read_events_def)
qed

text \<open>Only commands of the line are reported, each once.\<close>

lemma reported_among:
  assumes "job_run evs job_new = Some (j, rs)" and "asked_by evs \<subseteq> asked_by (pipeline_events n cs bf)"
    and "d = n + 3 * length cs + 1"
  shows "jb_accounted (asked_by (pipeline_events n cs bf)) j" "distinct (dones rs)" "set (dones rs) = jb_done j"
    "jb_done j \<subseteq> insert (ProcessId (d + 3)) (waiting_pids n (length cs))"
proof -
  let ?S = "asked_by (pipeline_events n cs bf)"
  from run_accounted [OF new_accounted assms(1)] assms(2) have acc: "jb_accounted ?S j" "reported job_new rs j"
    by (auto simp: asked_by_def)
  then show "jb_accounted ?S j" "distinct (dones rs)" "set (dones rs) = jb_done j"
    by (auto simp: reported_def job_new_def)
  have "fst ` ?S \<subseteq> insert (ProcessId (d + 3)) (waiting_pids n (length cs))"
    unfolding asked_by_pipeline [OF assms(3)] by (auto simp: stage_asked_def in_set_enumerate_eq waiting_pids_def)
  moreover from acc(1) have "jb_done j \<subseteq> fst ` ?S" by (simp add: jb_accounted_def)
  ultimately show "jb_done j \<subseteq> insert (ProcessId (d + 3)) (waiting_pids n (length cs))" by (rule subset_trans [rotated])
qed

text \<open>When the directory has been written, every command of the line is done and has been reported.\<close>

lemma all_reported:
  assumes "job_run evs job_new = Some (j, rs)" and "asked_by evs \<subseteq> asked_by (pipeline_events n cs bf)"
    and "d = n + 3 * length cs + 1" and "set bf = (\<lambda>p. (p, None)) ` waiting_pids n (length cs)" and "d \<in> jb_writers j"
  shows "distinct (dones rs) \<and> set (dones rs) = insert (ProcessId (d + 3)) (waiting_pids n (length cs)) \<and> d \<in> jb_told j"
proof -
  let ?S = "asked_by (pipeline_events n cs bf)"
  note S = asked_by_pipeline [OF assms(3), of bf]
  note acc = reported_among [OF assms(1-3)]
  from acc(1) assms(5) obtain p c bf' where known: "(p, c, bf') \<in> ?S" "d \<in> {out_of c, err_of c}" "fst ` set bf' \<subseteq> jb_done j"
    "is_program c \<or> p \<in> jb_done j" "rc_cmd c = GetDirectory \<longrightarrow> out_of c \<in> jb_told j"
    unfolding jb_accounted_def writer_known_def by blast
  have "(p, c, bf') \<notin> stage_asked n ` set (enumerate 0 cs)"
  proof
    assume "(p, c, bf') \<in> stage_asked n ` set (enumerate 0 cs)"
    then obtain k x where k: "k < length cs" "c = run_by (n + 3 * k + 2) (pipe_at n (2 * k)) (n + 3 * k + 1) x"
      by (auto simp: stage_asked_def in_set_enumerate_eq)
    with known(2) assms(3) show False by (auto simp: pipe_at_even split: if_splits)
  qed
  with known(1) S have dir: "p = ProcessId (d + 3)" "c = run_by (d + 2) d (d + 1) GetDirectory" "bf' = bf" by auto
  have "insert (ProcessId (d + 3)) (waiting_pids n (length cs)) \<subseteq> jb_done j"
    using known(3,4) by (simp add: dir assms(4) image_image is_program_def)
  with acc(2-4) show ?thesis using known(5) by (simp add: dir)
qed

lemma session_heard:
  assumes "load (su_home_dir su) (su_open_file su) (su_from_str su) = Ok p"
    and "la_pipe (su_launcher su) t0 = (Inr (rd, wr), t1)" and "la_pipe (su_launcher su) t1 = (Inr (rd', wr'), t2)"
    and "la_read_line (su_launcher su) rd (la_fork (su_launcher su)
      (case backend of Some prog \<Rightarrow> prog | None \<Rightarrow> ''nak-backend'') wr rd' t2) = (Inr handshake, t)"
    and "valid_utf8 line" and "parse_input line = Ok (pipeline_ast c cs)" and "parse_command_simple root_only p line = Ok pl"
    and "logging w" and "carry_plan w pl (connected t info) = (Ok go, e1)" and "absorbs w fo e1 ms e2"
    and "idle e2" and "directories_told e2"
  shows "front_main su w fo typist i save (length (ms @ late) + 3)
     (EvRemote (ready_response info) # map EvRemote (ms @ late)) alive backend (Some line) t0 = (Ok (), ep_trans e2)"
proof -
  note launch = launch_run [OF assms(2-4)]
  have w: "reliable w" using assms(8) by (auto simp: reliable_def logging_def recording_def)
  have "\<forall>h cls. pipeline_ast c cs \<noteq> Sequence h cls" by (simp add: pipeline_ast_def)
  from session_ends [OF assms(5,6) this assms(7) w assms(9-12), of "length late" "map EvRemote late"] obtain s' where
    "remote_run w fo (\<lambda>_. get_command) (ret ()) (length ms + (length late + 3))
      \<lparr>fr_receiver = EvRemote (ready_response info) # map EvRemote ms @ map EvRemote late, fr_open = alive, fr_remote = launched t,
       fr_reader = single_command_reader_new p line\<rparr> = (Ok (), s')" "ep_trans (fr_remote s') = ep_trans e2" by blast
  with assms(1) launch show ?thesis
    by (simp add: front_main_def run_session_def answer_def bnd_def add.assoc)
qed

text \<open>
  C3: The two programs run a pipeline. \<open>nak --command\<close> is given a line of commands joined by pipes;
  the backend's operating system grants pipes and processes. Whatever the order in which the
  programs end and their output arrives among the requests, the executor handles every event
  without a panic, and the frontend, hearing the responses, ends without an error; the terminal
  shows the output that came before the end of the directory's pipe, in the order it came, and
  nothing of what came later, which is lost.
\<close>

theorem pipeline_session:
  assumes "load (su_home_dir su) (su_open_file su) (su_from_str su) = Ok p"
    and "la_pipe (su_launcher su) t0 = (Inr (rd, wr), t1)" and "la_pipe (su_launcher su) t1 = (Inr (rd', wr'), t2)"
    and "la_read_line (su_launcher su) rd (la_fork (su_launcher su)
      (case backend of Some prog \<Rightarrow> prog | None \<Rightarrow> ''nak-backend'') wr rd' t2) = (Inr handshake, t)"
    and "valid_utf8 line" and "parse_input line = Ok (pipeline_ast c cs)"
    and "map (convert_single p) (c # cs) = map Ok ms" and "\<forall>m\<in>set ms. \<forall>path. m \<noteq> Edit path"
    and "logging w" and "answering w" and "faithful (request_string w) from_req" and "faithful (response_string w) from_rsp"
    and "obliging os" and "showing fo put put_err" and d: "d = 3 * length ms + 1"
    and "parse_command_simple root_only p line = Ok pl" and "carry_plan w pl (connected t info) = (Ok go, e1)"
    and "ep_trans e1 = t @ lines" and "nd_exec nd = exec_new b v" and "nd_queue nd = []"
    and "backend_loop w os from_req lines nd = (r, nd1)"
    and "filter asked (before @ EvPipeClosed (GenericPipe d) off # late) = nd_queue nd1"
    and "plausible {} {} (before @ EvPipeClosed (GenericPipe d) off # late)"
    and "\<forall>off'. EvPipeClosed (GenericPipe d) off' \<notin> set before"
    and "run_handler os (exec_handler_impl w) (Suc fuel) before (nd_exec nd1) = (r1, s1)"
    and "chunks d before = written (WritePipe d) (ex_threads s1)" and "chunks d before \<noteq> []"
    and "\<not> nd_ended nd"
  shows "\<exists>s2 sent. run_handler os (exec_handler_impl w) (Suc fuel) (before @ EvPipeClosed (GenericPipe d) off # late)
      (nd_exec nd1) = (Ok (), s2) \<and> bk_trans (ex_handler s2) = bk_trans b @ sent \<and>
    front_main su w fo typist i save (length sent + 3)
      (EvRemote (ready_response info) # map (\<lambda>l. EvRemote (the (from_rsp l))) sent) alive backend (Some line) t0 =
      (Ok (), fold (screen put put_err 0 d) before (ep_trans e1))"
proof -
  let ?evs = "before @ EvPipeClosed (GenericPipe d) off # late"
  have ne: "ms \<noteq> []" using assms(7) by (cases ms) auto
  have "pl = wired_plan (last (stack root_only)) ms"
    using pipeline_converts [OF assms(6) _ assms(7), of root_only] assms(16) by (simp add: root_only_def)
  note sent = line_sent [OF assms(17) [unfolded this] assms(9) ne, folded d]
  from sent(1) assms(18) obtain bf where bf: "distinct bf" "set bf = (\<lambda>p. (p, None)) ` waiting_pids 0 (length (rev ms))"
    and lines: "lines = map (line_of w ep_root) (map (stage_request 0) (enumerate 0 (rev ms)) @
      directory_requests d bf @ read_requests 0 @ read_requests 1)" by auto
  have d': "d = 0 + 3 * length (rev ms) + 1" using d by simp
  have "map event_of (map (stage_request 0) (enumerate 0 (rev ms)) @ directory_requests d bf @ read_requests 0 @
      read_requests 1) = map Some (pipeline_events 0 (rev ms) bf)"
    using request_events [of 0 "rev ms" bf] by (simp add: d)
  from requests_queued [OF assms(11,9) this assms(28), of os] assms(19-21) lines
  have nd1: "nd_queue nd1 = pipeline_events 0 (rev ms) bf" "nd_exec nd1 = exec_new b v" by auto
  have asked: "filter asked ?evs = pipeline_events 0 (rev ms) bf" using assms(22) nd1(1) by simp
  have "fitting {} {} {} {} (filter asked ?evs)"
    unfolding asked by (rule pipeline_fits) (use assms(8) ne bf in auto)
  moreover have "reserved {} {} {} {} job_new" "jb_running job_new = {}" by (simp_all add: reserved_def job_new_def)
  ultimately obtain j2 rs where all: "job_run ?evs job_new = Some (j2, rs)"
    using job_accepts [of "{}" "{}" "{}" "{}" job_new ?evs "{}"] assms(23) by auto
  then obtain j1 rs1 rs2 where run: "job_run before job_new = Some (j1, rs1)"
    and rs: "rs = rs1 @ RsPipe \<lparr>env_id = d, env_msg = Closed off\<rparr> # rs2"
    by (auto simp: job_run_append bind_eq_Some_conv)
  from returnsD [OF run_follows [OF assms(10,13) follows_new all, of fuel b v]] nd1(2) obtain s2 where
    s2: "run_handler os (exec_handler_impl w) (Suc fuel) ?evs (nd_exec nd1) = (Ok (), s2)"
      "bk_trans (ex_handler s2) = bk_trans b @ map (reply_line w) rs" by (auto simp: about_def)
  from returnsD [OF run_follows [OF assms(10,13) follows_new run, of fuel b v]] nd1(2) assms(25)
  have s1: "told os (ex_threads s1) j1" by (simp add: about_def)
  have writer: "d \<in> jb_writers j1" using s1 assms(26,27) by (auto simp: told_def)
  have "asked_by before \<subseteq> asked_by (pipeline_events 0 (rev ms) bf)"
    unfolding asked [symmetric] asked_by_filter by (auto simp: asked_by_def)
  note rep = all_reported [OF run this d' bf(2) writer]
  from s1 rep obtain dir where dir: "answers_dir os dir" "written (WritePipe d) (ex_threads s1) = dir @ newline"
    by (auto simp: told_def)
  have "valid_utf8 dir" using dir(1) assms(13) unfolding answers_dir_def obliging_def grants_def by (metis prod.inject sum.inject(2))
  then have told: "directory_line (chunks d before)"
    using dir(2) assms(26) by (simp add: directory_line_def newline_def)
  have "\<forall>g. EvPipeMessage g BeginRead \<in> set ?evs \<longrightarrow> g \<in> GenericPipe ` {0, 1, d, d + 1}"
  proof (intro allI impI)
    fix g
    assume "EvPipeMessage g BeginRead \<in> set ?evs"
    then have "EvPipeMessage g BeginRead \<in> set (filter asked ?evs)" by simp
    then show "g \<in> GenericPipe ` {0, 1, d, d + 1}"
      unfolding asked pipeline_events_def d' [symmetric]
      by (auto simp: stage_event_def directory_events_def read_events_def)
  qed
  from heard_pipes [OF assms(23) _ this] have known: "\<forall>ev\<in>set before. \<forall>g b off. ev = EvPipeOutput g b off \<or>
      ev = EvPipeClosed g off \<longrightarrow> g \<in> GenericPipe ` {0, 1, d, d + 1}" by auto
  have "hearable 0 d ev" if "ev \<in> set before" for ev
    using known that assms(24) by (cases ev) fastforce+
  then have "list_all (hearable 0 d) before" by (simp add: list_all_iff)
  moreover have "0 + 1 < d" using ne d by (cases ms) auto
  ultimately obtain e2 where e2: "absorbs w fo e1 (map answer_of rs1) e2"
    "listening 0 d {} (chunks d before) (fold (screen put put_err 0 d) before (ep_trans e1)) e2"
    using hears_run [OF assms(14) _ run _ sent(2), of w] rep by auto
  from hears_directory [OF e2(2) told, of w fo off] obtain e3 where
    e3: "receive w fo (answer_of (RsPipe \<lparr>env_id = d, env_msg = Closed off\<rparr>)) e2 = (Ok (), e3)" "idle e3"
      "directories_told e3" "ep_trans e3 = fold (screen put put_err 0 d) before (ep_trans e1)" by blast
  have heard: "absorbs w fo e1 (map answer_of rs1 @ [answer_of (RsPipe \<lparr>env_id = d, env_msg = Closed off\<rparr>)]) e3"
    by (rule absorbs_append [OF e2(1) absorbs_one [OF e2(2) e3(1)]])
  have read_back: "the (from_rsp (reply_line w m)) = answer_of m" for m
  proof -
    from assms(10) obtain str where "response_string w (answer_of m) = Some str" unfolding answering_def by blast
    with assms(12) show ?thesis by (simp add: faithful_def reply_line_def answer_of_def)
  qed
  note session_heard [OF assms(1-6,16,9,17) heard e3(2,3),
    where typist = typist and i = i and save = save and alive = alive and late = "map answer_of rs2"]
  then show ?thesis
    using s2 e3(4) by (intro exI [of _ s2] exI [of _ "map (reply_line w) rs"]) (simp add: rs read_back comp_def)
qed

section \<open>A concrete line\<close>

definition plain_terminal :: "bytes list front_os" where
  "plain_terminal = demo_terminal\<lparr>fo_stderr := (\<lambda>d t. (Inr (), t @ [d]))\<rparr>"

lemma plain_terminal: "showing plain_terminal (\<lambda>b t. t @ [b]) (\<lambda>b t. t @ [b])"
  by (simp add: showing_def plain_terminal_def demo_terminal_def)

definition coded_front :: "bytes list front_endpoint" where
  "coded_front = snd (carry_plan coded_wire piped_plan (connected [] demo_info))"

definition demo_block :: "(process_id \<times> condition) list" where
  "demo_block = [(ProcessId 6, None), (ProcessId 3, None)]"

definition demo_stages :: "command list" where
  "demo_stages = [Unknown ''wc'' [''-l''], Unknown ''ls'' [''x'']]"

definition demo_reqs :: "remote_request list" where
  "demo_reqs = map (stage_request 0) (enumerate 0 demo_stages) @ directory_requests (0 + 3 * length demo_stages + 1) demo_block @
     read_requests 0 @ read_requests (0 + 1)"

lemma wire_coded: "wire_send coded_wire line log = (Inr (), log @ [line])" "request_string coded_wire q = Some (print_request q)"
  by (simp_all add: coded_wire_def)

lemma coded_sent: "carry_plan coded_wire piped_plan (connected [] demo_info) = (Ok True, coded_front)"
proof -
  have "fst (carry_plan coded_wire piped_plan (connected [] demo_info)) = Ok True"
    by (simp add: carry_defs demo_info_def ep_new_def ep_root_def ep_pipe_def ep_command_def Let_def ep_connected_def ep_send_def
      ser_to_endpoint_def ep_next_def ids_next_def ids_new_def wire_coded eff_defs)
  then show ?thesis unfolding coded_front_def by (metis prod.collapse)
qed

lemma demo_reqs: "demo_reqs =
    [RqBeginCommand [] \<lparr>ap_id = ProcessId 3, ap_stdin = 2, ap_stdout = 0, ap_stderr = 1\<rparr> (Unknown ''wc'' [''-l'']),
     RqBeginCommand [] \<lparr>ap_id = ProcessId 6, ap_stdin = 5, ap_stdout = 2, ap_stderr = 4\<rparr> (Unknown ''ls'' [''x'']),
     RqBeginCommand demo_block \<lparr>ap_id = ProcessId 10, ap_stdin = 9, ap_stdout = 7, ap_stderr = 8\<rparr> GetDirectory,
     RqPipe \<lparr>env_id = 7, env_msg = BeginRead\<rparr>, RqPipe \<lparr>env_id = 8, env_msg = BeginRead\<rparr>,
     RqPipe \<lparr>env_id = 7, env_msg = Read max_read\<rparr>, RqPipe \<lparr>env_id = 8, env_msg = Read max_read\<rparr>,
     RqPipe \<lparr>env_id = 0, env_msg = BeginRead\<rparr>, RqPipe \<lparr>env_id = 0, env_msg = Read max_read\<rparr>,
     RqPipe \<lparr>env_id = 1, env_msg = BeginRead\<rparr>, RqPipe \<lparr>env_id = 1, env_msg = Read max_read\<rparr>]"
  by (simp add: demo_reqs_def stage_request_def directory_requests_def read_requests_def demo_stages_def
      stage_pid_def pipe_at_def)

lemma coded_lines: "ep_trans coded_front = [] @ map (line_of coded_wire ep_root) demo_reqs"
  by (simp add: coded_front_def carry_defs demo_info_def ep_new_def ep_root_def ep_pipe_def ep_command_def Let_def
      ep_connected_def ep_send_def ser_to_endpoint_def ep_next_def ids_next_def ids_new_def wire_coded eff_defs
      demo_reqs line_of_def demo_block_def numeral_eq_Suc)

definition demo_events :: "exec_event list" where
  "demo_events = pipeline_events 0 demo_stages demo_block"

definition line_node :: "(nat, bytes list) node" where
  "line_node = node_new [] 10"

lemma demo_queue: "backend_loop coded_wire kind_os parse_request (map (line_of coded_wire ep_root) demo_reqs) line_node =
    (Ok (), line_node\<lparr>nd_queue := demo_events\<rparr>)"
proof -
  have "map event_of demo_reqs = map Some demo_events"
    unfolding demo_reqs_def demo_events_def by (rule request_events)
  from requests_queued [OF coded_wire_laws(4,1) this, of line_node kind_os] show ?thesis
    by (simp add: line_node_def node_new_def)
qed

text \<open>
  \<open>ls\<close> ends before the directory is asked for; \<open>wc\<close> ends later, after a first piece of output; a
  second piece comes when the frontend has heard the directory.
\<close>

definition demo_before :: "exec_event list" where
  "demo_before = take 2 demo_events @ [EvCompleted (ProcessId 6) 0] @ drop 2 demo_events @
     [EvPipeOutput (GenericPipe 0) ''1 1'' 0, EvCompleted (ProcessId 3) 0, EvPipeOutput (GenericPipe 7) ''/'' 0,
      EvPipeOutput (GenericPipe 7) newline 0]"

definition demo_late :: "exec_event list" where
  "demo_late = [EvPipeOutput (GenericPipe 0) ''late'' 0, EvPipeClosed (GenericPipe 0) 0]"

lemmas pipeline_event_defs = demo_events_def demo_stages_def demo_block_def pipeline_events_def stage_event_def directory_events_def
  read_events_def pipe_at_def stage_pid_def run_by_def

lemma demo_plausible: "plausible {} {} (demo_before @ EvPipeClosed (GenericPipe 7) 0 # demo_late)"
  by (simp add: demo_before_def demo_late_def pipeline_event_defs is_program_def)

lemma demo_asked: "filter asked (demo_before @ EvPipeClosed (GenericPipe 7) 0 # demo_late) = demo_events"
  by (simp add: demo_before_def demo_late_def pipeline_event_defs)

lemma demo_run: "\<exists>s1. run_handler kind_os (exec_handler_impl coded_wire) (Suc fuel) demo_before (exec_new b v) = (Ok (), s1) \<and>
    written (WritePipe 7) (ex_threads s1) = ''/'' @ newline"
proof -
  obtain j rs where j: "job_run demo_before job_new = Some (j, rs)" "7 \<in> jb_told j"
    by (auto simp: demo_before_def pipeline_event_defs job_new_def job_enqueue_def job_start_def job_completed_def
        Let_def in_of_def out_of_def err_of_def)
  from returnsD [OF run_follows [OF coded_answering kind_os follows_new j(1), of fuel b v]] j(2) obtain s1 dir where
    "run_handler kind_os (exec_handler_impl coded_wire) (Suc fuel) demo_before (exec_new b v) = (Ok (), s1)"
    "answers_dir kind_os dir" "written (WritePipe 7) (ex_threads s1) = dir @ newline"
    by (auto simp: about_def told_def)
  then show ?thesis by (auto simp: answers_dir_def kind_os_def demo_os_def)
qed

lemma pipeline_session_witness:
  "\<exists>s2 sent. run_handler kind_os (exec_handler_impl coded_wire) (Suc 0)
      (demo_before @ EvPipeClosed (GenericPipe 7) 0 # demo_late) (nd_exec line_node) = (Ok (), s2) \<and>
    bk_trans (ex_handler s2) = bk_trans (bk_new []) @ sent \<and>
    front_main demo_surroundings coded_wire plain_terminal (one_typed ''exit'') 0 (ret ()) (length sent + 3)
      (EvRemote (ready_response demo_info) # map (\<lambda>l. EvRemote (the (parse_response l))) sent) True None (Some piped_line) [] =
      (Ok (), ep_trans coded_front @ [''1 1''])"
proof -
  obtain s1 where s1: "run_handler kind_os (exec_handler_impl coded_wire) (Suc 0) demo_before (exec_new (bk_new []) 10) = (Ok (), s1)"
    "written (WritePipe 7) (ex_threads s1) = ''/'' @ newline" using demo_run by blast
  let ?nd = "line_node\<lparr>nd_queue := demo_events\<rparr>"
  have "\<exists>s2 sent. run_handler kind_os (exec_handler_impl coded_wire) (Suc 0)
      (demo_before @ EvPipeClosed (GenericPipe 7) 0 # demo_late) (nd_exec ?nd) = (Ok (), s2) \<and>
    bk_trans (ex_handler s2) = bk_trans (bk_new []) @ sent \<and>
    front_main demo_surroundings coded_wire plain_terminal (one_typed ''exit'') 0 (ret ()) (length sent + 3)
      (EvRemote (ready_response demo_info) # map (\<lambda>l. EvRemote (the (parse_response l))) sent) True None (Some piped_line) [] =
      (Ok (), fold (screen (\<lambda>b t. t @ [b]) (\<lambda>b t. t @ [b]) 0 7) demo_before (ep_trans coded_front))"
  proof (rule pipeline_session [OF _ _ _ _ piped_valid piped_parse [unfolded piped_ast_def] piped_converts _ coded_wire_laws(1)
        coded_answering coded_wire_laws(4,5) kind_os plain_terminal _ piped_plan coded_sent coded_lines _ _ demo_queue])
    show "load (su_home_dir demo_surroundings) (su_open_file demo_surroundings) (su_from_str demo_surroundings) =
        Ok prefs_default"
      by (simp add: demo_surroundings_def load_def)
    show "filter asked (demo_before @ EvPipeClosed (GenericPipe 7) 0 # demo_late) = nd_queue ?nd"
      unfolding demo_asked by simp
    show "plausible {} {} (demo_before @ EvPipeClosed (GenericPipe 7) 0 # demo_late)" by (rule demo_plausible)
    show "run_handler kind_os (exec_handler_impl coded_wire) (Suc 0) demo_before (nd_exec ?nd) = (Ok (), s1)"
      using s1(1) by (simp add: line_node_def node_new_def)
    show "chunks 7 demo_before = written (WritePipe 7) (ex_threads s1)" "chunks 7 demo_before \<noteq> []"
      "\<forall>off'. EvPipeClosed (GenericPipe 7) off' \<notin> set demo_before"
      by (simp_all add: s1(2) chunks_def demo_before_def pipeline_event_defs newline_def)
  qed (simp_all add: demo_surroundings_def line_node_def node_new_def)
  moreover have "fold (screen (\<lambda>b t. t @ [b]) (\<lambda>b t. t @ [b]) 0 7) demo_before t = t @ [''1 1'']" for t
    by (simp add: demo_before_def pipeline_event_defs)
  ultimately show ?thesis by simp
qed

end
