(* ===== verification/Stuck.thy ===== *)
theory Stuck
  imports Whole_Run
begin

text \<open>
  The two processes when the executor dies. A program the operating system cannot spawn makes the
  executor panic (\<open>backend/src/exec.rs\<close>); the main thread lives on, but the directory is never told,
  and the frontend, which waits for it, never shows another prompt and never ends.
\<close>

section \<open>The executor meets a program that is not there\<close>

definition missing :: "'w os \<Rightarrow> string \<Rightarrow> bool" where
  "missing os path \<longleftrightarrow> (\<forall>oc v. program oc = path \<longrightarrow> (\<exists>e v'. os_spawn os oc v = (Inl e, v')))"

lemma run_missing:
  assumes "grants P os" and "ends s R W" and "rc_cmd c = Unknown path args"
    and "in_of c \<notin> R" and "out_of c \<notin> W" and "err_of c \<notin> W" and "out_of c \<noteq> err_of c" and "missing os path"
  shows "wp (run os eh p c) (\<lambda>_ _. False)
    (\<lambda>_ s'. ends s' (insert (in_of c) R) ({out_of c, err_of c} \<union> W) \<and> same_but_ends s s') (\<lambda>_ _. False) s"
proof (rule run_with_ends [OF assms(1-7)])
  fix oc :: os_command and s3 :: "('a, 'b) exec"
  assume at: "ends s3 (insert (in_of c) R) ({out_of c, err_of c} \<union> W) \<and> same_but_ends s s3" and "program oc = path"
  with assms(8) obtain e v' where "os_spawn os oc (ex_world s3) = (Inl e, v')" unfolding missing_def by blast
  with at show "wp (bnd (on_os (os_spawn os oc)) (\<lambda>handle. thn (spawn_thread (Waiter p handle)) (ret (RunProcess (PsRunning handle)))))
      (\<lambda>_ _. False) (\<lambda>_ s'. ends s' (insert (in_of c) R) ({out_of c, err_of c} \<union> W) \<and> same_but_ends s s') (\<lambda>_ _. False) s3"
    by (simp add: on_os_def wp_simps ends_def same_but_ends_def)
qed

lemma taken_write_panics:
  assumes "ends s R W" and "i \<in> W"
  shows "wp (write_end os (WritePipe i)) (\<lambda>_ _. False) (\<lambda>_ _. False)
    (\<lambda>m s'. m = ''write side taken'' \<and> ex_handler s' = ex_handler s) s"
proof -
  from assms obtain hp where "open_handles s (GenericPipe i) = Some hp" "pair_write hp = None"
    by (auto simp: ends_def dest!: spec [of _ i] split: option.splits)
  then show ?thesis by (simp add: write_end_def put_pair_def wp_simps)
qed

lemma missing_task:
  assumes "grants P os" and s: "about os {p} j log s" and "job_start p c j = Some (j', rs)" and "fresh p j"
    and c: "rc_cmd c = Unknown path args" and "missing os path"
  shows "wp (run_task os eh fuel (Start p c)) (\<lambda>_ _. False) (\<lambda>_ _. False)
    (\<lambda>m s'. m = ''write side taken'' \<and> ex_handler s' = ex_handler s) s"
proof -
  from assms(3) c have free: "in_of c \<notin> jb_readers j" "out_of c \<notin> jb_writers j" "err_of c \<notin> jb_writers j" "out_of c \<noteq> err_of c"
    by (auto simp: job_start_def Let_def split: if_splits)
  from s have at: "ends s (jb_readers j) (jb_writers j)" "sched (ex_machine s) j" "to_run (ex_machine s) = {p}"
    by (simp_all add: about_def)
  have "wp (attempt (run os eh p c)) (\<lambda>r s'. (\<exists>e. r = Inl e) \<and>
      ends s' (insert (in_of c) (jb_readers j)) ({out_of c, err_of c} \<union> jb_writers j) \<and> same_but_ends s s') (\<lambda>_ _. False) (\<lambda>_ _. False) s"
    using run_missing [OF assms(1) at(1) c free assms(6), of eh p] by (auto simp: wp_simps elim: wp_mono)
  then show ?thesis
    unfolding run_task_def task.case
  proof (rule wp_bndI)
    fix r :: "error + run_result" and s1 :: "('a, bytes list backend) exec"
    assume r: "(\<exists>e. r = Inl e) \<and> ends s1 (insert (in_of c) (jb_readers j)) ({out_of c, err_of c} \<union> jb_writers j) \<and> same_but_ends s s1"
    then have m: "sched (ex_machine s1) j" "to_run (ex_machine s1) = {p}" and h: "ex_handler s1 = ex_handler s"
      using at(2,3) by (simp_all add: same_but_ends_def)
    from sched_start_completed [OF m assms(4), of fuel Failure] obtain m' where
      m': "start_completed fuel p Failure (ex_machine s1) = (Ok [], m')" by blast
    have "ends (s1\<lparr>ex_machine := m'\<rparr>) (insert (in_of c) (jb_readers j)) ({out_of c, err_of c} \<union> jb_writers j)"
      using r by simp
    from taken_write_panics [OF this, of "out_of c" os] m' r h show
      "wp (case r of Inl e \<Rightarrow> bnd (on_machine (start_completed fuel p Failure)) (\<lambda>new_tasks.
           thn (pipe_output_and_close os (rc_pipes c) [] (os_debug os e)) (thn (on_handler (h_command_result eh p 1)) (ret new_tasks)))
         | Inr (RunProcess state) \<Rightarrow> thn (on_machine (start p state)) (ret [])
         | Inr (AlreadyDone exit_code) \<Rightarrow> bnd (on_machine (start_completed fuel p (from_exit_code exit_code))) (\<lambda>new_tasks.
           thn (unwrap (on_handler (h_command_result eh p 0))) (ret new_tasks)))
        (\<lambda>_ _. False) (\<lambda>_ _. False) (\<lambda>m s'. m = ''write side taken'' \<and> ex_handler s' = ex_handler s) s1"
      by (auto simp: wp_simps on_machine_def pipe_output_and_close_def out_of_def) (auto simp: wp_def split: prod.splits outcome.splits)
  qed simp_all
qed

lemma missing_panics:
  assumes "grants P os" and s: "follows os j log s" and "job_enqueue p c [] j = Some (j', rs)"
    and "rc_cmd c = Unknown path args" and "missing os path"
  shows "\<exists>s'. handle_event os eh (Suc fuel) (EvEnqueue p c []) s = (Panic ''write side taken'', s') \<and> ex_handler s' = ex_handler s"
proof -
  from assms(3) have new: "fresh p j" and start: "job_start p c j = Some (j', rs)"
    by (auto simp: job_enqueue_def fresh_def split: if_splits)
  from s have m: "sched (ex_machine s) j" "to_run (ex_machine s) = {}" by (simp_all add: about_def)
  let ?s = "s\<lparr>ex_machine := (ex_machine s)\<lparr>to_run := {p}\<rparr>\<rparr>"
  have "sched ((ex_machine s)\<lparr>to_run := {p}\<rparr>) j"
    using m(1) by (simp add: sched_def split: option.splits prod.splits)
  with s have "about os {p} j log ?s" by (simp add: about_def)
  note task = missing_task [OF assms(1) this start new assms(4,5), of eh "Suc fuel"]
  then obtain s' where "run_task os eh (Suc fuel) (Start p c) ?s = (Panic ''write side taken'', s')" "ex_handler s' = ex_handler ?s"
    by (auto simp: wp_def split: prod.splits outcome.splits)
  then show ?thesis
    using sched_enqueue(1) [OF m new, of "[]" c]
    by (simp add: handle_event_def exec_enqueue_def process_tasks_def on_machine_def eff_defs)
qed

section \<open>The frontend waits for ever\<close>

lemma fitting_append: "fitting P Q R W (xs @ ys) \<Longrightarrow> fitting P Q R W xs"
  by (induction P Q R W xs rule: fitting.induct) (auto split: if_splits)

lemma plausible_program: "plausible A G xs \<Longrightarrow> plausible A G (xs @ [EvEnqueue p c bf])"
  by (induction A G xs rule: plausible.induct) auto

text \<open>Before the last program of a line is asked for, no pipe is read.\<close>

lemma before_in_first:
  assumes "xs @ x # late = st @ others" and "x \<notin> set others"
  shows "set xs \<subseteq> set st"
proof -
  from assms(1) consider us where "xs @ us = st" | us where "us @ x # late = others"
    unfolding append_eq_append_conv2 by blast
  then show ?thesis using assms(2) by cases auto
qed

lemma programs_first:
  assumes "filter asked before @ EvEnqueue p c bf # late = pipeline_events n cs bf'" and "is_program c"
  shows "EvPipeMessage g BeginRead \<notin> set before"
proof -
  have "EvEnqueue p c bf \<notin> set (directory_events (n + 3 * length cs + 1) bf' @ read_events n @ read_events (n + 1))"
    using assms(2) by (auto simp: directory_events_def read_events_def is_program_def)
  from before_in_first [OF assms(1) [unfolded pipeline_events_def] this]
  have "set (filter asked before) \<subseteq> set (map (stage_event n) (enumerate 0 cs))" .
  then show ?thesis by (auto simp: stage_event_def)
qed

lemma front_stuck:
  assumes "load (su_home_dir su) (su_open_file su) (su_from_str su) = Ok p"
    and "la_pipe (su_launcher su) t0 = (Inr (rd, wr), t1)" and "la_pipe (su_launcher su) t1 = (Inr (rd', wr'), t2)"
    and "la_read_line (su_launcher su) rd (la_fork (su_launcher su)
      (case backend of Some prog \<Rightarrow> prog | None \<Rightarrow> ''nak-backend'') wr rd' t2) = (Inr handshake, t)"
    and "valid_utf8 line" and "parse_input line = Ok (pipeline_ast c cs)" and "parse_command_simple root_only p line = Ok pl"
    and "logging w" and "carry_plan w pl (connected t info) = (Ok go, e1)" and "absorbs w fo e1 ms e2" and "busy e2"
  shows "fst (front_main su w fo typist i save n
     (EvRemote (ready_response info) # map EvRemote ms) True backend (Some line) t0) = Diverge"
proof -
  note launch = launch_run [OF assms(2-4)]
  have w: "reliable w" using assms(8) by (auto simp: reliable_def logging_def recording_def)
  have "\<forall>h cls. pipeline_ast c cs \<noteq> Sequence h cls" by (simp add: pipeline_ast_def)
  from session_waits [OF assms(5,6) this assms(7) w assms(9-11), of n] obtain s where
    "remote_run w fo (\<lambda>_. get_command) (ret ()) n
      \<lparr>fr_receiver = EvRemote (ready_response info) # map EvRemote ms, fr_open = True, fr_remote = launched t,
       fr_reader = single_command_reader_new p line\<rparr> = (Diverge, s)" by (metis prod.collapse)
  with assms(1) launch show ?thesis
    by (simp add: front_main_def run_session_def answer_def bnd_def)
qed

text \<open>
  C4: A program that does not exist hangs the shell. \<open>nak --command\<close> is given a line of commands joined
  by pipes, the backend's main thread has passed the whole line on, and the operating system
  cannot spawn one of the programs. Whatever came before, the executor panics at that command (it
  wants to report the failure on pipes whose ends it has given away) and sends nothing for it;
  what it sent until then are reports of commands that were found. The frontend, which hears
  these and whose channel stays open since the backend's main thread lives on, waits for the
  directory: it never returns, with no error and no panic either, however long it runs.
\<close>

theorem missing_program_hangs:
  assumes "load (su_home_dir su) (su_open_file su) (su_from_str su) = Ok p"
    and "la_pipe (su_launcher su) t0 = (Inr (rd, wr), t1)" and "la_pipe (su_launcher su) t1 = (Inr (rd', wr'), t2)"
    and "la_read_line (su_launcher su) rd (la_fork (su_launcher su)
      (case backend of Some prog \<Rightarrow> prog | None \<Rightarrow> ''nak-backend'') wr rd' t2) = (Inr handshake, t)"
    and "valid_utf8 line" and "parse_input line = Ok (pipeline_ast c cs)"
    and "map (convert_single p) (c # cs) = map Ok ms" and "\<forall>m\<in>set ms. \<forall>path. m \<noteq> Edit path"
    and "logging w" and "answering w" and "faithful (request_string w) from_req" and "faithful (response_string w) from_rsp"
    and "grants P os" and "missing os path" and "showing fo put put_err"
    and "parse_command_simple root_only p line = Ok pl" and "carry_plan w pl (connected t info) = (Ok go, e1)"
    and "ep_trans e1 = t @ lines" and "nd_exec nd = exec_new b v" and "nd_queue nd = []"
    and "backend_loop w os from_req lines nd = (r, nd1)" and "\<not> nd_ended nd"
    and "filter asked before @ EvEnqueue pid cm bf # late = nd_queue nd1" and "rc_cmd cm = Unknown path args"
    and "plausible {} {} before" and "list_all (starts_found P) before"
  shows "\<exists>s1 s2 sent. run_handler os (exec_handler_impl w) (Suc fuel) before (nd_exec nd1) = (Ok (), s1) \<and>
    bk_trans (ex_handler s1) = bk_trans b @ sent \<and>
    handle_event os (exec_handler_impl w) (Suc fuel) (EvEnqueue pid cm bf) s1 = (Panic ''write side taken'', s2) \<and>
    bk_trans (ex_handler s2) = bk_trans b @ sent \<and>
    (\<forall>n. fst (front_main su w fo typist i save n
      (EvRemote (ready_response info) # map (\<lambda>l. EvRemote (the (from_rsp l))) sent) True backend (Some line) t0) = Diverge)"
proof -
  define d where "d = 3 * length ms + 1"
  let ?ev = "EvEnqueue pid cm bf"
  have ne: "ms \<noteq> []" using assms(7) by (cases ms) auto
  have "pl = wired_plan (last (stack root_only)) ms"
    using pipeline_converts [OF assms(6) _ assms(7), of root_only] assms(16) by (simp add: root_only_def)
  note sent = line_sent [OF assms(17) [unfolded this] assms(9) ne, folded d_def]
  from sent(1) assms(18) obtain bf' where bf': "distinct bf'" "set bf' = (\<lambda>p. (p, None)) ` waiting_pids 0 (length (rev ms))"
    and lines: "lines = map (line_of w ep_root) (map (stage_request 0) (enumerate 0 (rev ms)) @
      directory_requests d bf' @ read_requests 0 @ read_requests 1)" by auto
  have d': "d = 0 + 3 * length (rev ms) + 1" using d_def by simp
  have "map event_of (map (stage_request 0) (enumerate 0 (rev ms)) @ directory_requests d bf' @ read_requests 0 @
      read_requests 1) = map Some (pipeline_events 0 (rev ms) bf')"
    using request_events [of 0 "rev ms" bf'] by (simp add: d_def)
  from requests_queued [OF assms(11,9) this assms(22), of os] assms(19-21) lines
  have nd1: "nd_queue nd1 = pipeline_events 0 (rev ms) bf'" "nd_exec nd1 = exec_new b v" by auto
  have asked: "filter asked before @ ?ev # late = pipeline_events 0 (rev ms) bf'" using assms(23) nd1(1) by simp
  have prog: "is_program cm" using assms(24) by (simp add: is_program_def)
  have "fitting {} {} {} {} (filter asked before @ ?ev # late)"
    unfolding asked by (rule pipeline_fits) (use assms(8) ne bf' in auto)
  then have "fitting {} {} {} {} ((filter asked before @ [?ev]) @ late)" by simp
  then have fits: "fitting {} {} {} {} (filter asked (before @ [?ev]))" by (simp add: fitting_append)
  have "reserved {} {} {} {} job_new" "jb_running job_new = {}" by (simp_all add: reserved_def job_new_def)
  then obtain j2 rs where all: "job_run (before @ [?ev]) job_new = Some (j2, rs)"
    using job_accepts [OF _ fits, of job_new "{}"] plausible_program [OF assms(25)] by auto
  then obtain j1 rs1 rs2 where run: "job_run before job_new = Some (j1, rs1)" and step: "job_step ?ev j1 = Some (j2, rs2)"
    by (auto simp: job_run_append bind_eq_Some_conv)
  have "bf = []"
  proof -
    have "?ev \<in> set (pipeline_events 0 (rev ms) bf')" unfolding asked [symmetric] by simp
    then show ?thesis
      using prog by (auto simp: pipeline_events_def stage_event_def directory_events_def read_events_def is_program_def)
  qed
  note step = step [unfolded this job_step.simps]
  have "waits_found P job_new" by (simp add: waits_found_def job_new_def)
  from returnsD [OF run_follows_found [OF assms(10,13) follows_new run assms(26) this, of fuel b v]] nd1(2) obtain s1 where
    s1: "run_handler os (exec_handler_impl w) (Suc fuel) before (nd_exec nd1) = (Ok (), s1)"
      "follows os j1 (bk_trans b @ map (reply_line w) rs1) s1" by auto
  from missing_panics [OF assms(13) s1(2) step assms(24,14), of "exec_handler_impl w" fuel] \<open>bf = []\<close> obtain s2 where
    s2: "handle_event os (exec_handler_impl w) (Suc fuel) ?ev s1 = (Panic ''write side taken'', s2)"
      "ex_handler s2 = ex_handler s1" by auto
  have told: "bk_trans (ex_handler s1) = bk_trans b @ map (reply_line w) rs1" using s1(2) by (simp add: about_def)
  have "asked_by (filter asked before) \<subseteq> asked_by (pipeline_events 0 (rev ms) bf')"
    unfolding asked [symmetric] asked_by_def by auto
  then have "asked_by before \<subseteq> asked_by (pipeline_events 0 (rev ms) bf')" by (simp only: asked_by_filter)
  note among = reported_among [OF run this d']
  from programs_first [OF asked prog] heard_pipes [OF assms(25), of "{}"]
  have silent: "\<forall>ev\<in>set before. \<forall>g b off. ev \<noteq> EvPipeOutput g b off \<and> ev \<noteq> EvPipeClosed g off" by fastforce
  have "hearable 0 d ev" if "ev \<in> set before" for ev using silent that by (cases ev) auto
  then have able: "list_all (hearable 0 d) before" by (simp add: list_all_iff)
  have "0 + 1 < d" using ne d_def by (cases ms) auto
  note heard_all = hears_run [OF assms(15) this run able sent(2) among(2), of w]
  have "set (dones rs1) \<subseteq> insert (ProcessId (d + 3)) (waiting_pids 0 (length (rev ms)))" using among(3,4) by simp
  with heard_all obtain e2 left out t' where "absorbs w fo e1 (map answer_of rs1) e2" "listening 0 d left out t' e2"
    by (simp only: length_rev) blast
  note e2 = this(1) listening_busy [OF this(2)]
  have read_back: "the (from_rsp (reply_line w m)) = answer_of m" for m
  proof -
    from assms(10) obtain str where "response_string w (answer_of m) = Some str" unfolding answering_def by blast
    with assms(12) show ?thesis by (simp add: faithful_def reply_line_def answer_of_def)
  qed
  let ?sent = "map (reply_line w) rs1"
  have heard: "map (\<lambda>l. EvRemote (the (from_rsp l))) ?sent = map EvRemote (map answer_of rs1)"
    by (simp add: read_back)
  have "\<forall>n. fst (front_main su w fo typist i save n (EvRemote (ready_response info) #
      map (\<lambda>l. EvRemote (the (from_rsp l))) ?sent) True backend (Some line) t0) = Diverge"
    unfolding heard by (intro allI front_stuck [OF assms(1-6,16,9,17) e2])
  then have stuck: "\<forall>n. fst (front_main su w fo typist i save n (EvRemote (ready_response info) #
      map (\<lambda>l. EvRemote (the (from_rsp l))) ?sent) True backend (Some line) t0) = Diverge" .
  have "bk_trans (ex_handler s2) = bk_trans b @ ?sent" using told s2(2) by simp
  then show ?thesis
    by (intro exI conjI) (rule s1(1), rule told, rule s2(1), assumption, rule stuck)
qed

section \<open>A concrete line\<close>

definition no_ls :: "nat os" where
  "no_ls = kind_os\<lparr>os_spawn := (\<lambda>c v. if program c = ''ls'' then (Inl ''not found'', v) else (Inr v, v + 1))\<rparr>"

lemma no_ls: "grants (\<lambda>path. path \<noteq> ''ls'') no_ls" "missing no_ls ''ls''"
  using kind_os by (simp_all add: no_ls_def obliging_def grants_def missing_def)

lemma no_ls_queue: "backend_loop coded_wire no_ls parse_request (map (line_of coded_wire ep_root) demo_reqs) line_node =
    (Ok (), line_node\<lparr>nd_queue := demo_events\<rparr>)"
proof -
  have "map event_of demo_reqs = map Some demo_events"
    unfolding demo_reqs_def demo_events_def by (rule request_events)
  from requests_queued [OF coded_wire_laws(4,1) this, of line_node no_ls] show ?thesis
    by (simp add: line_node_def node_new_def)
qed

text \<open>\<open>wc\<close> is started; \<open>ls\<close>, the writer of the pipe, is not there.\<close>

lemma missing_program_hangs_witness:
  "\<exists>s1 s2 sent. run_handler no_ls (exec_handler_impl coded_wire) (Suc 0) (take 1 demo_events) (nd_exec line_node) = (Ok (), s1) \<and>
    bk_trans (ex_handler s1) = bk_trans (bk_new []) @ sent \<and>
    handle_event no_ls (exec_handler_impl coded_wire) (Suc 0) (demo_events ! 1) s1 = (Panic ''write side taken'', s2) \<and>
    bk_trans (ex_handler s2) = bk_trans (bk_new []) @ sent \<and>
    (\<forall>n. fst (front_main demo_surroundings coded_wire plain_terminal (one_typed ''exit'') 0 (ret ()) n
      (EvRemote (ready_response demo_info) # map (\<lambda>l. EvRemote (the (parse_response l))) sent) True None (Some piped_line) []) =
      Diverge)"
proof -
  let ?nd = "line_node\<lparr>nd_queue := demo_events\<rparr>"
  obtain cm where ev: "demo_events ! 1 = EvEnqueue (ProcessId 6) cm []" and cm: "rc_cmd cm = Unknown ''ls'' [''x'']"
    by (simp add: pipeline_event_defs)
  have "\<exists>s1 s2 sent. run_handler no_ls (exec_handler_impl coded_wire) (Suc 0) (take 1 demo_events) (nd_exec ?nd) = (Ok (), s1) \<and>
    bk_trans (ex_handler s1) = bk_trans (bk_new []) @ sent \<and>
    handle_event no_ls (exec_handler_impl coded_wire) (Suc 0) (EvEnqueue (ProcessId 6) cm []) s1 = (Panic ''write side taken'', s2) \<and>
    bk_trans (ex_handler s2) = bk_trans (bk_new []) @ sent \<and>
    (\<forall>n. fst (front_main demo_surroundings coded_wire plain_terminal (one_typed ''exit'') 0 (ret ()) n
      (EvRemote (ready_response demo_info) # map (\<lambda>l. EvRemote (the (parse_response l))) sent) True None (Some piped_line) []) =
      Diverge)"
  proof (rule missing_program_hangs [OF _ _ _ _ piped_valid piped_parse [unfolded piped_ast_def] piped_converts _ coded_wire_laws(1)
        coded_answering coded_wire_laws(4,5) no_ls plain_terminal piped_plan coded_sent coded_lines _ _ no_ls_queue _ _ cm])
    show "load (su_home_dir demo_surroundings) (su_open_file demo_surroundings) (su_from_str demo_surroundings) =
        Ok prefs_default"
      by (simp add: demo_surroundings_def load_def)
    show "filter asked (take 1 demo_events) @ EvEnqueue (ProcessId 6) cm [] # drop 2 demo_events = nd_queue ?nd"
      unfolding ev [symmetric] by (simp add: pipeline_event_defs)
    show "plausible {} {} (take 1 demo_events)" "list_all (starts_found (\<lambda>path. path \<noteq> ''ls'')) (take 1 demo_events)"
      by (simp_all add: pipeline_event_defs is_program_def found_def)
  qed (simp_all add: demo_surroundings_def line_node_def node_new_def)
  then show ?thesis unfolding ev by simp
qed

end
