(* ===== verification/Node.thy ===== *)
theory Node
  imports Backend
begin

text \<open>
  \<open>backend/src/main.rs\<close>: the whole backend process. Beside the main thread's lines and the
  executor's events there is the socket \<open>setup_editback_socket\<close> opens for the editor program
  \<open>nak-backend editor\<close>: each connection is served by a thread of its own. The states the
  process can be in are those these three reach, in any order.
\<close>

section \<open>The socket for editors\<close>

record edit_request =
  er_file_name :: string
  er_data :: bytes

record edit_response =
  es_data :: bytes

text \<open>
  A connection: its first line is the key of the command the editor runs for, its second one the
  file. The thread registers the sending end of its channel, numbered \<open>sender\<close>, and passes the
  file on; then it waits at the other end for the edited file and writes it back. A channel all
  of whose senders are gone answers \<open>None\<close>. The running commands are looked up under their lock, so
  a key that is not found poisons it and the next connection panics on the lock.
\<close>

definition editback_request :: "'t wire \<Rightarrow> (bytes \<Rightarrow> edit_request option) \<Rightarrow> nat \<Rightarrow> bytes \<Rightarrow> bytes \<Rightarrow>
    (('w, 't) node, unit) eff" where
  "editback_request w from_str sender key line =
     thn (ensure ''assert_eq key'' (key \<noteq> [] \<and> last key = CHR 0x0A))
     (bnd (gets nd_poisoned) (\<lambda>poisoned.
     thn (ensure ''PoisonError'' (\<not> poisoned))
     (bnd (gets (\<lambda>n. nd_running_commands n (butlast key))) (\<lambda>found. case found of
       None \<Rightarrow> thn (upd (\<lambda>n. n\<lparr>nd_poisoned := True\<rparr>)) (panic ''key not found'')
     | Some command_info \<Rightarrow>
         bnd (expect ''unwrap'' (from_str line)) (\<lambda>req.
         thn (upd (\<lambda>n. n\<lparr>nd_waiting_edits := (nd_waiting_edits n)(0 \<mapsto> sender)\<rparr>))
         (unwrap (backtraffic (bk_edit_request w (ci_id command_info) 0 (er_file_name req) (er_data req)))))))))"

definition editback_reply :: "(edit_response \<Rightarrow> bytes option) \<Rightarrow> bytes option \<Rightarrow> bytes outcome" where
  "editback_reply to_str received = (case received of
     None \<Rightarrow> Panic ''unwrap''
   | Some data \<Rightarrow> (case to_str \<lparr>es_data = data\<rparr> of None \<Rightarrow> Panic ''unwrap'' | Some s \<Rightarrow> Ok (s @ newline)))"

section \<open>The states of the backend process\<close>

text \<open>The conditions of a request are a hash map, so a parsed request has each command once.\<close>

definition keyed_request :: "request \<Rightarrow> bool" where
  "keyed_request r \<longleftrightarrow> (case rq_message r of RqBeginCommand bf _ _ \<Rightarrow> distinct (map fst bf) | _ \<Rightarrow> True)"

definition parses_maps :: "(bytes \<Rightarrow> request option) \<Rightarrow> bool" where
  "parses_maps from_str \<longleftrightarrow> (\<forall>line r. from_str line = Some r \<longrightarrow> keyed_request r)"

inductive node_reach :: "'t wire \<Rightarrow> 'w os \<Rightarrow> (bytes \<Rightarrow> request option) \<Rightarrow> (bytes \<Rightarrow> edit_request option) \<Rightarrow>
    ('w, 't) node \<Rightarrow> bool" for w os from_str from_edit where
  node_start: "node_reach w os from_str from_edit (node_new t v)"
| node_line: "node_reach w os from_str from_edit n \<Longrightarrow> backend_line w os from_str line n = (Ok (), n') \<Longrightarrow>
    node_reach w os from_str from_edit n'"
| node_turn: "node_reach w os from_str from_edit n \<Longrightarrow> Suc (held_back (ex_machine (nd_exec n))) < fuel \<Longrightarrow>
    exec_turn w os fuel n = (r, n') \<Longrightarrow> node_reach w os from_str from_edit n'"
| node_report: "node_reach w os from_str from_edit n \<Longrightarrow> keyed ev \<Longrightarrow> send_event ev n = (r, n') \<Longrightarrow>
    node_reach w os from_str from_edit n'"
| node_editor: "node_reach w os from_str from_edit n \<Longrightarrow>
    editback_request w from_edit sender key line n = (r, n') \<Longrightarrow> node_reach w os from_str from_edit n'"
| node_waiter: "node_reach w os from_str from_edit n \<Longrightarrow> waiter_step os (nd_exec n) x \<Longrightarrow>
    node_reach w os from_str from_edit (n\<lparr>nd_exec := x\<rparr>)"
| node_world: "node_reach w os from_str from_edit n \<Longrightarrow>
    node_reach w os from_str from_edit (n\<lparr>nd_exec := (nd_exec n)\<lparr>ex_world := v\<rparr>\<rparr>)"

definition node_inv :: "('w, 't) node \<Rightarrow> bool" where
  "node_inv n \<longleftrightarrow> (if nd_ended n then nd_queue n = [] else settled (nd_exec n) \<and> list_all keyed (nd_queue n)) \<and>
     nd_running_commands n = Map.empty"

text \<open>What the main thread does leaves the executor's scheduler alone and queues events at most.\<close>

definition orderly :: "(('w, 't) node, 'a) eff \<Rightarrow> bool" where
  "orderly m \<longleftrightarrow> (\<forall>n. node_inv n \<longrightarrow> wp m (\<lambda>_. node_inv) (\<lambda>_. node_inv) (\<lambda>_. node_inv) n)"

named_theorems orderly_intros "operations of the backend process that keep its invariant"

lemma orderly_bnd [orderly_intros]:
  fixes m :: "(('w, 't) node, 'a) eff"
  assumes "orderly m" and "\<And>a. orderly (f a)"
  shows "orderly (bnd m f)"
  unfolding orderly_def
proof (intro allI impI)
  fix n :: "('w, 't) node" assume "node_inv n"
  with assms(1) have "wp m (\<lambda>_. node_inv) (\<lambda>_. node_inv) (\<lambda>_. node_inv) n" by (simp add: orderly_def)
  then show "wp (bnd m f) (\<lambda>_. node_inv) (\<lambda>_. node_inv) (\<lambda>_. node_inv) n"
    by (rule wp_bndI) (use assms(2) in \<open>auto simp: orderly_def\<close>)
qed

lemma orderly_thn [orderly_intros]: "orderly m \<Longrightarrow> orderly k \<Longrightarrow> orderly (thn m k)"
  unfolding thn_def by (rule orderly_bnd)

lemma orderly_unwrap [orderly_intros]: "orderly m \<Longrightarrow> orderly (unwrap m)"
  by (auto simp: orderly_def wp_simps elim!: wp_mono)

lemma orderly_ops [orderly_intros]:
  "orderly (ret a)" "orderly (fail e)" "orderly (panic p)" "orderly (gets f)" "orderly (ensure p b)" "orderly (expect p x)"
  by (simp_all add: orderly_def wp_simps split: option.split)

lemma orderly_upd [orderly_intros]:
  "(\<And>n. nd_exec (f n) = nd_exec n \<and> nd_queue (f n) = nd_queue n \<and> nd_running_commands (f n) = nd_running_commands n \<and>
     nd_ended (f n) = nd_ended n) \<Longrightarrow> orderly (upd f)"
  by (simp add: orderly_def wp_simps node_inv_def)

lemma orderly_send_event [orderly_intros]: "keyed ev \<Longrightarrow> orderly (send_event ev)"
  by (simp add: orderly_def send_event_def wp_simps node_inv_def)

lemma orderly_os [orderly_intros]: "orderly (node_os c)"
  by (auto simp: orderly_def node_os_def node_exec_def on_os_def wp_simps node_inv_def settled_def split: prod.split sum.split)

lemma orderly_backtraffic: "(\<And>b. fst (m b) \<noteq> Diverge) \<Longrightarrow> orderly (backtraffic m)"
  by (auto simp: orderly_def backtraffic_def node_exec_def on_handler_def zoom_def wp_def node_inv_def settled_def
      split: prod.split outcome.split) (metis fst_conv)+

lemma orderly_listing [orderly_intros]: "orderly (backtraffic (bk_directory_listing w k items))"
  by (rule orderly_backtraffic) (simp add: bk_directory_listing_def bk_send_answers)

lemma orderly_editing [orderly_intros]: "orderly (backtraffic (bk_edit_request w pid k name data))"
  by (rule orderly_backtraffic) (simp add: bk_edit_request_def bk_send_answers)

lemma orderly_begin_remote [orderly_intros]: "orderly (begin_remote os k c)"
  by (auto simp: begin_remote_def intro!: orderly_intros split: command.split)

lemma orderly_route: "keyed_request r \<Longrightarrow> orderly (request_route (async_handler w os) r)"
  by (auto simp: request_route_def async_handler_def keyed_request_def keyed_def end_remote_def
      list_directory_def intro!: orderly_intros split: remote_request.splits)

lemma orderly_line:
  assumes "parses_maps from_str"
  shows "orderly (backend_line w os from_str line)"
  using assms
  by (auto simp: backend_line_def parses_maps_def intro!: orderly_intros orderly_route split: option.split)

lemma orderly_editback: "orderly (editback_request w from_edit sender key line)"
  unfolding editback_request_def by (auto intro!: orderly_intros split: option.split)

lemma orderly_run: "orderly m \<Longrightarrow> node_inv n \<Longrightarrow> m n = (r, n') \<Longrightarrow> r \<noteq> Diverge \<Longrightarrow> node_inv n'"
  by (cases r) (auto simp: orderly_def wp_def)

lemma turn_keeps:
  assumes "node_inv n" and "Suc (held_back (ex_machine (nd_exec n))) < fuel"
    and "exec_turn w os fuel n = (r, n')"
  shows "node_inv n'"
proof (cases "nd_queue n")
  case Nil
  with assms(1,3) show ?thesis by (simp add: exec_turn_def eff_defs)
next
  case (Cons ev evs)
  with assms(1) have ev: "\<not> nd_ended n" "settled (nd_exec n)" "keyed ev" "list_all keyed evs" "nd_running_commands n = Map.empty"
    by (simp_all add: node_inv_def split: if_splits)
  obtain y x where x: "handle_event os (exec_handler_impl w) fuel ev (nd_exec n) = (y, x)" by fastforce
  from backend_handler.event_settles [OF ev(2,3) assms(2), of os w] x
  have "(y = Ok () \<and> settled x) \<or> (\<exists>p. y = Panic p)" by (cases y) (simp_all add: wp_def)
  then show ?thesis
    using assms(3) Cons x ev
    by (auto simp: exec_turn_def node_exec_def on_panic_def exec_ends_def node_inv_def eff_defs)
qed

lemma editback_answers: "fst (editback_request w from_edit sender key line n) \<noteq> Diverge"
  using bk_send_answers [of w]
  by (auto simp: editback_request_def bk_edit_request_def backtraffic_def node_exec_def on_handler_def eff_defs
      split: option.split prod.split outcome.split dest!: arg_cong [of _ _ fst])

lemma node_reach_inv:
  assumes "parses_maps from_str"
  shows "node_reach w os from_str from_edit n \<Longrightarrow> node_inv n"
proof (induction rule: node_reach.induct)
  case (node_start t v)
  show ?case
    using exec_reach_settled [OF exec_start] by (simp add: node_inv_def node_new_def)
next
  case (node_line n line n')
  then show ?case using orderly_run [OF orderly_line [OF assms]] by blast
next
  case (node_turn n fuel r n')
  then show ?case using turn_keeps by blast
next
  case (node_report n ev r n')
  have "fst (send_event ev n) \<noteq> Diverge" by (simp add: send_event_def eff_defs)
  with node_report show ?case using orderly_run [OF orderly_send_event] by (metis fst_conv)
next
  case (node_editor n sender key line r n')
  with editback_answers [of w from_edit sender key line n] have "r \<noteq> Diverge" by auto
  with node_editor show ?case using orderly_run [OF orderly_editback] by blast
qed (auto simp: node_inv_def settled_def waiter_step_quiet split: if_splits)

lemma route_ended:
  assumes "nd_ended n" and "from_str line = Some rpc \<and> rq_remote_id rpc = 0 \<and> event_of (rq_message rpc) = Some ev"
  shows "backend_line w os from_str line n = (Panic ''SendError'', n)"
  using assms
  by (cases "rq_message rpc") (auto simp: backend_line_def request_route_def async_handler_def send_event_def eff_defs)

section \<open>Properties\<close>

text \<open>
  C23: The backend process keeps its executor consistent. In every state reached by request lines,
  events of the executor, reports of its threads and connections of editors, in any order, the
  executor, as long as it lives, has a consistent scheduler, no command is ready without having been
  started, and while one waits another one runs. A panic ends it for good: its channel stays empty,
  and the next request for it ends the process.
\<close>

theorem node_progress:
  assumes "node_reach w os from_str from_edit n" and "parses_maps from_str"
  shows "if nd_ended n
    then nd_queue n = [] \<and> (\<forall>line rpc ev. from_str line = Some rpc \<and> rq_remote_id rpc = 0 \<and> event_of (rq_message rpc) = Some ev \<longrightarrow>
      backend_line w os from_str line n = (Panic ''SendError'', n))
    else machine_inv (ex_machine (nd_exec n)) \<and> to_run (ex_machine (nd_exec n)) = {} \<and>
      (waiting_on (ex_machine (nd_exec n)) p \<noteq> None \<longrightarrow> (\<exists>q. running (ex_machine (nd_exec n)) q \<noteq> None))"
proof (cases "nd_ended n")
  case True
  with node_reach_inv [OF assms(2,1)] route_ended [OF True] show ?thesis unfolding node_inv_def by (auto simp del: event_of.simps)
next
  case False
  with node_reach_inv [OF assms(2,1)] have inv: "machine_inv (ex_machine (nd_exec n))"
    "to_run (ex_machine (nd_exec n)) = {}" by (simp_all add: node_inv_def settled_def tasks_inv_def)
  with some_active [OF inv(1)] False show ?thesis by auto
qed

text \<open>
  C36: No editor is ever served. Nothing registers a command under its key any more, so in every
  state of the backend process the thread of an editor's connection panics before the file
  reaches the frontend, whatever key the editor sends.
\<close>

theorem editors_never_served:
  assumes "node_reach w os from_str from_edit n" and "parses_maps from_str"
  shows "fst (editback_request w from_edit sender key line n) \<in> {Panic ''assert_eq key'', Panic ''PoisonError'', Panic ''key not found''}"
  using node_reach_inv [OF assms(2,1)] by (simp add: node_inv_def editback_request_def eff_defs)

section \<open>A concrete backend\<close>

definition demo_requests :: "bytes \<Rightarrow> request option" where
  "demo_requests line = parse_one demo_request line"

lemma demo_requests_maps: "parses_maps demo_requests"
  by (simp add: parses_maps_def demo_requests_def parse_one_def demo_request_def keyed_request_def)

definition demo_queued :: "(nat, bytes list) node" where
  "demo_queued = snd (backend_line log_wire demo_os demo_requests (''message'' @ newline) demo_node)"

lemma demo_queued_reach: "node_reach log_wire demo_os demo_requests (\<lambda>_. None) demo_queued"
proof (rule node_line)
  show "node_reach log_wire demo_os demo_requests (\<lambda>_. None) demo_node"
    unfolding demo_node_def by (rule node_start)
  show "backend_line log_wire demo_os demo_requests (''message'' @ newline) demo_node = (Ok (), demo_queued)"
    by (simp add: demo_queued_def backend_line_def demo_requests_def parse_one_def demo_request_def
        request_route_def async_handler_def send_event_def eff_defs demo_node_def node_new_def)
qed

lemma demo_queued_lives: "\<not> nd_ended demo_queued"
  by (simp add: demo_queued_def backend_line_def demo_requests_def parse_one_def demo_request_def demo_node_def node_new_def
      request_route_def async_handler_def send_event_def eff_defs)

lemma node_progress_witness:
  "machine_inv (ex_machine (nd_exec demo_queued)) \<and> to_run (ex_machine (nd_exec demo_queued)) = {}"
  using node_progress [OF demo_queued_reach demo_requests_maps] demo_queued_lives by (metis (full_types))

lemma editors_never_served_witness:
  "fst (editback_request log_wire (\<lambda>_. None) 3 (''secret'' @ newline) ''{}'' demo_queued)
     \<in> {Panic ''assert_eq key'', Panic ''PoisonError'', Panic ''key not found''}"
  by (rule editors_never_served [OF demo_queued_reach demo_requests_maps])

end
