(* ===== verification/Startup.thy ===== *)
theory Startup
  imports Node Session
begin

text \<open>
  \<open>backend/src/main.rs\<close>, the program: \<open>main\<close> with its three roles, the start of \<open>run_backend\<close>, and the
  two clients \<open>run_pager\<close> and \<open>run_editor\<close>, which the programs a user runs start through \<open>PAGER\<close> and
  \<open>EDITOR\<close>; and the program \<open>test_helper\<close>. The world around each is a record of calls.
\<close>

section \<open>The roles of the program\<close>

datatype role = As_Backend | As_Pager | As_Editor string

text \<open>\<open>main\<close>, up to the call of the function of the role; \<open>args\<close> starts with the name of the program.\<close>

definition backend_main :: "string list \<Rightarrow> role outcome" where
  "backend_main args =
     (if length args = 1 then Ok As_Backend
      else if length args = 2 \<and> args ! 1 = ''pager'' then Ok As_Pager
      else if length args = 3 \<and> args ! 1 = ''editor'' then Ok (As_Editor (args ! 2))
      else Panic ''assertion failed: false'')"

section \<open>The start of the backend\<close>

text \<open>
  What \<open>run_backend\<close> asks for before it reads requests: its standard output, random bytes and their
  \<open>base64\<close> text, the environment, its own path (\<open>None\<close> when it is not Unicode), a listening socket, a
  handler for Ctrl-C and the name of the host.
\<close>

record ('w, 't) host =
  ho_print :: "bytes \<Rightarrow> ('t, unit) call"
  ho_random :: "'w \<Rightarrow> bytes \<times> 'w"
  ho_encode :: "bytes \<Rightarrow> string"
  ho_set_var :: "string \<Rightarrow> string \<Rightarrow> 'w \<Rightarrow> 'w"
  ho_current_exe :: "('w, string option) call"
  ho_bind :: "string \<Rightarrow> ('w, unit) call"
  ho_set_handler :: "('w, unit) call"
  ho_hostname :: "('w, string) call"

definition expect_ok :: "string \<Rightarrow> ('s, 'a) eff \<Rightarrow> ('s, 'a) eff" where
  "expect_ok p m = bnd (attempt m) (\<lambda>r. case r of Inl e \<Rightarrow> panic p | Inr a \<Rightarrow> ret a)"

definition random_key :: "('w, 't) host \<Rightarrow> (('w, 't) node, string) eff" where
  "random_key ho = bnd (node_os (\<lambda>v. case ho_random ho v of (bs, v') \<Rightarrow> (Inr bs, v'))) (\<lambda>bs.
     ret (ho_encode ho bs))"

definition set_var :: "('w, 't) host \<Rightarrow> string \<Rightarrow> string \<Rightarrow> (('w, 't) node, unit) eff" where
  "set_var ho key value = node_os (\<lambda>v. (Inr (), ho_set_var ho key value v))"

definition setup_ctrlc_handler :: "('w, 't) host \<Rightarrow> (('w, 't) node, unit) eff" where
  "setup_ctrlc_handler ho = expect_ok ''Error setting CtrlC handler'' (node_os (ho_set_handler ho))"

text \<open>
  The socket; and the connections that get a thread, of those its thread is given: it stops
  listening at the first error.
\<close>

definition setup_editback_socket :: "('w, 't) host \<Rightarrow> string \<Rightarrow> (('w, 't) node, unit) eff" where
  "setup_editback_socket ho socket_path = expect_ok ''bind listen socket'' (node_os (ho_bind ho socket_path))"

fun accepted :: "(error + 'c) list \<Rightarrow> 'c list" where
  "accepted [] = []"
| "accepted (Inr stream # streams) = stream # accepted streams"
| "accepted (Inl err # streams) = []"

definition print_handshake :: "('w, 't) host \<Rightarrow> (('w, 't) node, unit) eff" where
  "print_handshake ho = unwrap (backtraffic (zoom bk_trans (\<lambda>t b. b\<lparr>bk_trans := t\<rparr>)
     (from_call (ho_print ho handshake))))"

definition run_backend :: "'t wire \<Rightarrow> 'w os \<Rightarrow> ('w, 't) host \<Rightarrow> (bytes \<Rightarrow> request option) \<Rightarrow> bytes list \<Rightarrow>
    (('w, 't) node, unit) eff" where
  "run_backend w os ho from_str lines =
     thn (setup_ctrlc_handler ho)
     (thn (print_handshake ho)
     (bnd (random_key ho) (\<lambda>key. let socket_path = ''/tmp/nak-backend-'' @ key in
     thn (set_var ho ''NAK_SOCKET_PATH'' socket_path)
     (thn (set_var ho ''PAGER'' ''nak-backend pager'')
     (bnd (node_os (ho_current_exe ho)) (\<lambda>exe.
     bnd (expect ''current exe'' exe) (\<lambda>exe.
     thn (set_var ho ''EDITOR'' (exe @ '' editor''))
     (thn (setup_editback_socket ho socket_path)
     (bnd (unwrap (node_os (ho_hostname ho))) (\<lambda>host.
     bnd (unwrap (node_os (os_cur_dir os))) (\<lambda>dir.
     thn (ensure ''unwrap'' (valid_utf8 dir))
     (thn (backtraffic (bk_remote_ready w \<lparr>hostname = host, username = ''dummyuser'', working_dir = dir\<rparr>))
     (backend_loop w os from_str lines)))))))))))))"

section \<open>The clients of the socket\<close>

record 'v client_os =
  cl_var :: "string \<Rightarrow> 'v \<Rightarrow> string option"
  cl_connect :: "string \<Rightarrow> ('v, nat) call"
  cl_send :: "nat \<Rightarrow> bytes \<Rightarrow> ('v, unit) call"
  cl_receive :: "nat \<Rightarrow> ('v, bytes) call"
  cl_print :: "bytes \<Rightarrow> ('v, unit) call"
  cl_open :: "string \<Rightarrow> ('v, nat) call"
  cl_read_to_end :: "nat \<Rightarrow> ('v, bytes) call"
  cl_rewind :: "nat \<Rightarrow> ('v, unit) call"
  cl_set_len :: "nat \<Rightarrow> nat \<Rightarrow> ('v, unit) call"
  cl_write_all :: "nat \<Rightarrow> bytes \<Rightarrow> ('v, unit) call"

definition getenv :: "'v client_os \<Rightarrow> string \<Rightarrow> ('v, string) eff" where
  "getenv cl key = bnd (gets (cl_var cl key)) (expect ''unwrap'')"

definition run_pager :: "'v client_os \<Rightarrow> ('v, unit) eff" where
  "run_pager cl =
     bnd (getenv cl ''NAK_SOCKET_PATH'') (\<lambda>socket_path.
     bnd (getenv cl ''NAK_COMMAND_KEY'') (\<lambda>command_key.
     bnd (unwrap (from_call (cl_connect cl socket_path))) (\<lambda>stream.
     thn (unwrap (from_call (cl_send cl stream (command_key @ newline))))
     (bnd (unwrap (from_call (cl_receive cl stream))) (\<lambda>response.
     unwrap (from_call (cl_print cl (''pager_response '' @ response @ newline))))))))"

definition run_editor :: "'v client_os \<Rightarrow> (edit_request \<Rightarrow> bytes option) \<Rightarrow> (bytes \<Rightarrow> edit_response option) \<Rightarrow>
    string \<Rightarrow> ('v, unit) eff" where
  "run_editor cl to_str from_str path =
     bnd (from_call (cl_open cl path)) (\<lambda>handle.
     bnd (from_call (cl_read_to_end cl handle)) (\<lambda>contents.
     thn (unwrap (from_call (cl_rewind cl handle)))
     (bnd (getenv cl ''NAK_SOCKET_PATH'') (\<lambda>socket_path.
     bnd (getenv cl ''NAK_COMMAND_KEY'') (\<lambda>command_key.
     bnd (unwrap (from_call (cl_connect cl socket_path))) (\<lambda>stream.
     thn (unwrap (from_call (cl_send cl stream (command_key @ newline))))
     (bnd (expect ''unwrap'' (to_str \<lparr>er_file_name = path, er_data = contents\<rparr>)) (\<lambda>s.
     thn (unwrap (from_call (cl_send cl stream (s @ newline))))
     (bnd (unwrap (from_call (cl_receive cl stream))) (\<lambda>response.
     bnd (expect ''unwrap'' (from_str response)) (\<lambda>resp.
     thn (unwrap (from_call (cl_set_len cl handle 0)))
     (unwrap (from_call (cl_write_all cl handle (es_data resp)))))))))))))))"

section \<open>The helper of the tests\<close>

record 't helper_os =
  he_stdout :: "bytes \<Rightarrow> ('t, unit) call"
  he_flush_stdout :: "('t, unit) call"
  he_stderr :: "bytes \<Rightarrow> ('t, unit) call"
  he_flush_stderr :: "('t, unit) call"
  he_sleep :: "nat \<Rightarrow> 't \<Rightarrow> 't"

definition helper_command :: "'t helper_os \<Rightarrow> string \<Rightarrow> ('t, unit) eff" where
  "helper_command he a =
     (if a = ''StdoutLine'' then 
        thn (unwrap (from_call (he_stdout he (''test1234teststdout'' @ newline)))) (unwrap (from_call (he_flush_stdout he)))
      else if a = ''StderrLine'' then 
        thn (unwrap (from_call (he_stderr he (''test1234teststderr'' @ newline)))) (unwrap (from_call (he_flush_stderr he)))
      else if a = ''Wait'' then upd (he_sleep he 100)
      else panic (''unknown command '' @ a))"

definition helper_main :: "'t helper_os \<Rightarrow> string list \<Rightarrow> ('t, unit) eff" where
  "helper_main he args = thn (ensure ''assertion failed: args.len() > 1'' (1 < length args))
     (for_each (drop 1 args) (helper_command he))"

section \<open>Starting\<close>

text \<open>
  A host on which everything works, whose standard output keeps the lines it is given, and where the
  directory is Unicode.
\<close>

definition welcoming :: "('w, bytes list) host \<Rightarrow> 'w os \<Rightarrow> string \<Rightarrow> string \<Rightarrow> bool" where
  "welcoming ho os host dir \<longleftrightarrow> ho_print ho = (\<lambda>line lines. (Inr (), lines @ [line])) \<and>
     (\<forall>v. \<exists>v'. ho_set_handler ho v = (Inr (), v')) \<and> (\<forall>v. \<exists>exe v'. ho_current_exe ho v = (Inr (Some exe), v')) \<and>
     (\<forall>path v. \<exists>v'. ho_bind ho path v = (Inr (), v')) \<and> (\<forall>v. \<exists>v'. ho_hostname ho v = (Inr host, v')) \<and>
     (\<forall>v. \<exists>v'. os_cur_dir os v = (Inr dir, v')) \<and> valid_utf8 dir"

definition backend_output :: "('w, 't) node \<Rightarrow> 't" where
  "backend_output n = bk_trans (ex_handler (nd_exec n))"

text \<open>Each step of the start returns, with the output as it was or one line longer.\<close>

lemma node_os_quiet:
  assumes "\<And>v. \<exists>a v'. c v = (Inr a, v') \<and> A a"
  shows "returns (node_os c) (\<lambda>a n'. A a \<and> backend_output n' = backend_output n) n"
proof -
  from assms [of "ex_world (nd_exec n)"] obtain a v' where "c (ex_world (nd_exec n)) = (Inr a, v')" "A a" by blast
  then show ?thesis by (simp add: node_os_def node_exec_def on_os_def backend_output_def wp_simps)
qed

lemma wp_expect_ok: "wp (expect_ok p m) Q E P s = wp m Q (\<lambda>_. P p) P s"
  by (auto simp: expect_ok_def wp_def bnd_def attempt_def ret_def panic_def split: prod.split outcome.split)

lemma print_handshake_run:
  "ho_print ho = (\<lambda>line lines. (Inr (), lines @ [line])) \<Longrightarrow>
   returns (print_handshake ho) (\<lambda>_ n'. backend_output n' = backend_output n @ [handshake]) n"
  by (simp add: print_handshake_def backtraffic_def node_exec_def on_handler_def backend_output_def wp_simps)

lemma remote_ready_run:
  assumes "recording w" and "response_string w (ready_response info) = Some s"
  shows "returns (backtraffic (bk_remote_ready w info)) (\<lambda>_ n'. backend_output n' = backend_output n @ [s @ newline]) n"
  using assms
  by (simp add: bk_remote_ready_def ready_response_def backtraffic_def node_exec_def on_handler_def recording_def
      backend_output_def wp_simps)

lemma start_steps:
  assumes "welcoming ho os host dir"
  shows "returns (setup_ctrlc_handler ho) (\<lambda>_ n'. backend_output n' = backend_output n) n"
    and "returns (random_key ho) (\<lambda>_ n'. backend_output n' = backend_output n) n"
    and "returns (set_var ho k x) (\<lambda>_ n'. backend_output n' = backend_output n) n"
    and "returns (node_os (ho_current_exe ho)) (\<lambda>exe n'. exe \<noteq> None \<and> backend_output n' = backend_output n) n"
    and "returns (setup_editback_socket ho path) (\<lambda>_ n'. backend_output n' = backend_output n) n"
    and "returns (node_os (ho_hostname ho)) (\<lambda>a n'. a = host \<and> backend_output n' = backend_output n) n"
    and "returns (node_os (os_cur_dir os)) (\<lambda>a n'. a = dir \<and> backend_output n' = backend_output n) n"
proof -
  note calls = assms [unfolded welcoming_def]
  show "returns (setup_ctrlc_handler ho) (\<lambda>_ n'. backend_output n' = backend_output n) n"
    unfolding setup_ctrlc_handler_def wp_expect_ok
    by (rule node_os_quiet [where A = "\<lambda>_. True", simplified]) (use calls in blast)
  show "returns (random_key ho) (\<lambda>_ n'. backend_output n' = backend_output n) n"
    by (simp add: random_key_def node_os_def node_exec_def on_os_def backend_output_def wp_simps split: prod.split)
  show "returns (set_var ho k x) (\<lambda>_ n'. backend_output n' = backend_output n) n"
    by (simp add: set_var_def node_os_def node_exec_def on_os_def backend_output_def wp_simps)
  show "returns (node_os (ho_current_exe ho)) (\<lambda>exe n'. exe \<noteq> None \<and> backend_output n' = backend_output n) n"
    by (rule node_os_quiet) (use calls in blast)
  show "returns (setup_editback_socket ho path) (\<lambda>_ n'. backend_output n' = backend_output n) n"
    unfolding setup_editback_socket_def wp_expect_ok
    by (rule node_os_quiet [where A = "\<lambda>_. True", simplified]) (use calls in blast)
  show "returns (node_os (ho_hostname ho)) (\<lambda>a n'. a = host \<and> backend_output n' = backend_output n) n"
    by (rule node_os_quiet) (use calls in blast)
  show "returns (node_os (os_cur_dir os)) (\<lambda>a n'. a = dir \<and> backend_output n' = backend_output n) n"
    by (rule node_os_quiet) (use calls in blast)
qed

text \<open>Running one step and then the others, where the step returns.\<close>

lemma after_step:
  assumes "returns m Q s" and "\<And>a t. Q a t \<Longrightarrow> \<exists>u. f a t = k u \<and> G u"
  shows "\<exists>u. bnd m f s = k u \<and> G u"
  using returnsD [OF assms(1)] assms(2) by (auto simp: bnd_def)

lemma started:
  fixes n :: "('w, bytes list) node"
  assumes "welcoming ho os host dir" and "recording w"
    and "response_string w (ready_response \<lparr>hostname = host, username = ''dummyuser'', working_dir = dir\<rparr>) = Some s"
  shows "\<exists>n'. run_backend w os ho from_req lines n = backend_loop w os from_req lines n' \<and>
     backend_output n' = backend_output n @ [handshake, s @ newline]"
proof -
  note steps = start_steps [OF assms(1)]
  have print: "ho_print ho = (\<lambda>line lines. (Inr (), lines @ [line]))" using assms(1) by (simp add: welcoming_def)
  have hostq: "returns (unwrap (node_os (ho_hostname ho))) (\<lambda>a n'. a = host \<and> backend_output n' = backend_output n) n"
    and dirq: "returns (unwrap (node_os (os_cur_dir os))) (\<lambda>a n'. a = dir \<and> backend_output n' = backend_output n) n"
    for n :: "('w, bytes list) node"
    using steps(6,7) by (simp_all add: wp_unwrap)
  have exeq: "returns (expect ''current exe'' exe) (\<lambda>_ n'. n' = n) n"
    if "exe \<noteq> None" for exe and n :: "('w, bytes list) node"
    using that by (auto simp: wp_simps)
  have dirok: "returns (ensure ''unwrap'' (valid_utf8 dir)) (\<lambda>_ n'. n' = n) n" for n :: "('w, bytes list) node"
    using assms(1) by (simp add: welcoming_def wp_simps)
  show ?thesis
    unfolding run_backend_def Let_def thn_def
    by (rule after_step [OF steps(1)], rule after_step [OF print_handshake_run [OF print]],
        rule after_step [OF steps(2)], rule after_step [OF steps(3)], rule after_step [OF steps(3)],
        rule after_step [OF steps(4)], elim conjE, rule after_step [OF exeq], assumption, rule after_step [OF steps(3)],
        rule after_step [OF steps(5)], rule after_step [OF hostq], rule after_step [OF dirq],
        elim conjE, hypsubst, rule after_step [OF dirok], hypsubst, rule after_step [OF remote_ready_run [OF assms(2,3)]])
      (auto intro!: exI)
qed

text \<open>
  C18: The two programs meet. Where the host allows it, \<open>run_backend\<close> first prints the line
  \<open>launch_backend\<close> waits for and then one more, before it looks at any request; the frontend's
  reading thread takes that line for the report of the backend, and with it the main loop's first
  turn makes the backend the current remote, with its host and directory.
\<close>

theorem programs_meet:
  assumes "welcoming ho os host dir" and "recording w" and "faithful (response_string w) from_str"
    and "info = \<lparr>hostname = host, username = ''dummyuser'', working_dir = dir\<rparr>"
    and "response_string w (ready_response info) \<noteq> None"
  shows "\<exists>n' line. run_backend w os ho from_req lines n = backend_loop w os from_req lines n' \<and>
     backend_output n' = backend_output n @ [handshake, line] \<and>
     reader_turn from_str (Inr line) = Ok [EvRemote (ready_response info)] \<and>
     one_loop w' fo gc \<lparr>fr_receiver = EvRemote (ready_response info) # evs, fr_open = alive, fr_remote = launched t, fr_reader = r\<rparr> =
       (Ok True, \<lparr>fr_receiver = evs, fr_open = alive, fr_remote = connected t info, fr_reader = r\<rparr>)"
proof -
  from assms(5) obtain s where s: "response_string w (ready_response info) = Some s" by blast
  from started [OF assms(1,2), of s from_req lines n] s assms(4) obtain n' where
    "run_backend w os ho from_req lines n = backend_loop w os from_req lines n'"
    "backend_output n' = backend_output n @ [handshake, s @ newline]" by blast
  moreover have "reader_turn from_str (Inr (s @ newline)) = Ok [EvRemote (ready_response info)]"
    using assms(3) s by (simp add: reader_turn_def faithful_def newline_def)
  ultimately show ?thesis by (intro exI conjI) (assumption+, rule turn_connect)
qed

section \<open>Editing\<close>

text \<open>
  What is relied on of the files and sockets of a client: \<open>view\<close> is what the edited file holds and
  where its handle stands, \<open>hist\<close> what there is to tell of the calls made so far: the answers the
  socket gave and the writes to the file that failed. Opening and reading keep the contents; going
  to the start moves the handle there; the socket leaves the file alone; cutting it to nothing does
  not move the handle; a write to an empty file puts the data where the handle stands, after zeros,
  or part of them when it fails. Calls that fail leave the file as it was, the last apart.
\<close>

datatype client_note =
    Answered bytes
  | WriteFailed

definition keeps_view :: "('v \<Rightarrow> bytes \<times> nat) \<Rightarrow> ('v \<Rightarrow> client_note list) \<Rightarrow> ('v, 'a) call \<Rightarrow> bool" where
  "keeps_view view hist c \<longleftrightarrow> (\<forall>v. view (snd (c v)) = view v \<and> hist (snd (c v)) = hist v)"

definition keeps_contents :: "('v \<Rightarrow> bytes \<times> nat) \<Rightarrow> ('v \<Rightarrow> client_note list) \<Rightarrow> ('v, 'a) call \<Rightarrow> bool" where
  "keeps_contents view hist c \<longleftrightarrow> (\<forall>v. fst (view (snd (c v))) = fst (view v) \<and> hist (snd (c v)) = hist v)"

definition file_laws :: "'v client_os \<Rightarrow> ('v \<Rightarrow> bytes \<times> nat) \<Rightarrow> ('v \<Rightarrow> client_note list) \<Rightarrow> bool" where
  "file_laws cl view hist \<longleftrightarrow>
     (\<forall>path. keeps_contents view hist (cl_open cl path)) \<and> (\<forall>h. keeps_contents view hist (cl_read_to_end cl h)) \<and>
     (\<forall>h v. view (snd (cl_rewind cl h v)) = (fst (view v), if isl (fst (cl_rewind cl h v)) then snd (view v) else 0) \<and>
       hist (snd (cl_rewind cl h v)) = hist v) \<and>
     (\<forall>path. keeps_view view hist (cl_connect cl path)) \<and> (\<forall>h d. keeps_view view hist (cl_send cl h d)) \<and>
     (\<forall>h v. view (snd (cl_receive cl h v)) = view v \<and> hist (snd (cl_receive cl h v)) =
       (case fst (cl_receive cl h v) of Inl e \<Rightarrow> hist v | Inr s \<Rightarrow> hist v @ [Answered s])) \<and>
     (\<forall>h v. view (snd (cl_set_len cl h 0 v)) = (if isl (fst (cl_set_len cl h 0 v)) then view v else ([], snd (view v))) \<and>
       hist (snd (cl_set_len cl h 0 v)) = hist v) \<and>
     (\<forall>h d v. hist (snd (cl_write_all cl h d v)) =
       (if isl (fst (cl_write_all cl h d v)) then hist v @ [WriteFailed] else hist v)) \<and>
     (\<forall>h d v n. view v = ([], n) \<longrightarrow> (\<exists>k. fst (view (snd (cl_write_all cl h d v))) =
       (if isl (fst (cl_write_all cl h d v)) then take k (replicate n (CHR 0x00) @ d) else replicate n (CHR 0x00) @ d)))"

lemma wp_kept:
  assumes "keeps_view view hist c" and "\<And>a v'. view v' = view v \<Longrightarrow> hist v' = hist v \<Longrightarrow> c v = (Inr a, v') \<Longrightarrow> Q a v'"
    and "\<And>e v'. view v' = view v \<Longrightarrow> hist v' = hist v \<Longrightarrow> P e v'"
  shows "wp (unwrap (from_call c)) Q E P v"
  using assms(1) [unfolded keeps_view_def, rule_format, of v] assms(2,3)
  by (cases "c v" rule: prod.exhaust) (auto simp: wp_simps split: sum.split)

text \<open>What is left of the file when the editor has answered, from the socket on.\<close>

lemma answered_file:
  assumes "file_laws cl view hist" and "snd (view v) = 0"
  shows "wp (thn (unwrap (from_call (cl_set_len cl h 0))) (unwrap (from_call (cl_write_all cl h d))))
     (\<lambda>_ v'. fst (view v') = d \<and> hist v' = hist v) (\<lambda>_ _. False)
     (\<lambda>_ v'. fst (view v') = fst (view v) \<and> hist v' = hist v \<or>
        (\<exists>k. fst (view v') = take k d) \<and> hist v' = hist v @ [WriteFailed]) v"
proof -
  obtain r v1 where 1: "cl_set_len cl h 0 v = (r, v1)" by fastforce
  from assms(1) have cut: "view (snd (cl_set_len cl h 0 v)) =
      (if isl (fst (cl_set_len cl h 0 v)) then view v else ([], snd (view v)))" "hist (snd (cl_set_len cl h 0 v)) = hist v"
    by (simp_all add: file_laws_def)
  have put: "\<exists>k. fst (view (snd (cl_write_all cl h d v1))) =
      (if isl (fst (cl_write_all cl h d v1)) then take k d else d)" if "view v1 = ([], 0)"
  proof -
    from assms(1) have "\<forall>h d v n. view v = ([], n) \<longrightarrow> (\<exists>k. fst (view (snd (cl_write_all cl h d v))) =
       (if isl (fst (cl_write_all cl h d v)) then take k (replicate n (CHR 0x00) @ d) else replicate n (CHR 0x00) @ d))"
      by (simp add: file_laws_def)
    from this [rule_format, OF that, of h d] show ?thesis by (simp only: replicate_0 append_Nil)
  qed
  have note_it: "hist (snd (cl_write_all cl h d v1)) =
      (if isl (fst (cl_write_all cl h d v1)) then hist v1 @ [WriteFailed] else hist v1)"
    using assms(1) by (simp add: file_laws_def)
  obtain q v2 where 2: "cl_write_all cl h d v1 = (q, v2)" by fastforce
  show ?thesis
  proof (cases r)
    case (Inl e)
    with 1 cut show ?thesis by (simp add: wp_simps)
  next
    case (Inr u)
    with 1 cut assms(2) have "view v1 = ([], 0)" "hist v1 = hist v" by simp_all
    from put [OF this(1)] note_it this(2) 2 have "\<exists>k. fst (view v2) = (if isl q then take k d else d)"
      "hist v2 = (if isl q then hist v @ [WriteFailed] else hist v)" by simp_all
    with 1 2 Inr show ?thesis by (cases q) (auto simp: wp_simps)
  qed
qed

lemma editor_file:
  assumes laws: "file_laws cl view hist"
  shows "wp (run_editor cl to_str from_str path)
     (\<lambda>_ v'. \<exists>s resp. from_str s = Some resp \<and> hist v' = hist v @ [Answered s] \<and> fst (view v') = es_data resp)
     (\<lambda>_ v'. hist v' = hist v \<and> fst (view v') = fst (view v))
     (\<lambda>_ v'. (hist v' = hist v \<or> (\<exists>s. hist v' = hist v @ [Answered s])) \<and> fst (view v') = fst (view v) \<or>
        (\<exists>s resp k. from_str s = Some resp \<and> hist v' = hist v @ [Answered s, WriteFailed] \<and>
           fst (view v') = take k (es_data resp))) v"
    (is "wp _ ?Q ?E ?P v")
proof -
  let ?safe = "\<lambda>m. wp m ?Q ?E ?P"
  let ?held = "\<lambda>v'. fst (view v') = fst (view v) \<and> hist v' = hist v"
  let ?at = "\<lambda>v'. view v' = (fst (view v), 0) \<and> hist v' = hist v"
  have sock: "keeps_view view hist (cl_connect cl p)" "keeps_view view hist (cl_send cl h d)" for p h d
    using laws by (simp_all add: file_laws_def)
  have final: "wp (thn (unwrap (from_call (cl_set_len cl h 0)))
      (unwrap (from_call (cl_write_all cl h (es_data resp))))) ?Q ?E ?P v'"
    if "from_str s = Some resp" "view v' = (fst (view v), 0)" "hist v' = hist v @ [Answered s]" for s resp h v'
    by (rule wp_mono [OF answered_file [OF laws]]) (use that in auto)
  have answered: "wp (bnd (unwrap (from_call (cl_receive cl stream))) (\<lambda>response.
       bnd (expect ''unwrap'' (from_str response)) (\<lambda>resp.
       thn (unwrap (from_call (cl_set_len cl h 0)))
       (unwrap (from_call (cl_write_all cl h (es_data resp))))))) ?Q ?E ?P v'"
    if at: "?at v'" for stream h v'
  proof (cases "cl_receive cl stream v'")
    case (Pair q v'')
    from laws have "view (snd (cl_receive cl stream v')) = view v' \<and> hist (snd (cl_receive cl stream v')) =
       (case fst (cl_receive cl stream v') of Inl e \<Rightarrow> hist v' | Inr s \<Rightarrow> hist v' @ [Answered s])"
      by (simp add: file_laws_def)
    with Pair at have now: "view v'' = (fst (view v), 0)"
      "hist v'' = (case q of Inl e \<Rightarrow> hist v | Inr s \<Rightarrow> hist v @ [Answered s])" by (simp_all split: sum.split)
    show ?thesis
    proof (cases q)
      case (Inl e)
      with Pair now show ?thesis by (simp add: wp_simps)
    next
      case (Inr s)
      have "wp (expect ''unwrap'' (from_str s)) (\<lambda>resp. wp (thn (unwrap (from_call (cl_set_len cl h 0)))
          (unwrap (from_call (cl_write_all cl h (es_data resp))))) ?Q ?E ?P) ?E ?P v''"
        using final [of s _ v'' h] now Inr by (cases "from_str s") (simp_all only: wp_expect option.case sum.case, simp)
      with Pair Inr show ?thesis by (simp add: wp_bnd wp_unwrap wp_from_call)
    qed
  qed
  have sent: "?safe (thn (unwrap (from_call (cl_send cl stream d))) m) v'"
    if "?at v'" "\<And>v''. ?at v'' \<Longrightarrow> ?safe m v''" for stream d v' m
    unfolding wp_thn by (rule wp_kept [OF sock(2)]) (use that in auto)
  have connected: "?safe (bnd (unwrap (from_call (cl_connect cl p))) f) v'"
    if "?at v'" "\<And>stream v''. ?at v'' \<Longrightarrow> ?safe (f stream) v''" for p v' f
    unfolding wp_bnd by (rule wp_kept [OF sock(1)]) (use that in auto)
  have env: "?safe (bnd (getenv cl key) f) v'" if "?at v'" "\<And>x. ?safe (f x) v'" for key v' f
    using that by (auto simp: getenv_def wp_simps split: option.split)
  have printed: "?safe (bnd (expect ''unwrap'' x) f) v'" if "?at v'" "\<And>d. ?safe (f d) v'"
    for x :: "bytes option" and v' f
    using that by (simp add: wp_simps split: option.split)
  have opened: "?safe (bnd (from_call (cl_open cl path)) f) v"
    if "\<And>h v'. ?held v' \<Longrightarrow> ?safe (f h) v'" for f
  proof (cases "cl_open cl path v")
    case (Pair r v')
    from laws have "keeps_contents view hist (cl_open cl path)" by (simp add: file_laws_def)
    with Pair have "?held v'" unfolding keeps_contents_def by (metis snd_conv)
    with that Pair show ?thesis by (cases r) (simp_all add: wp_bnd wp_from_call)
  qed
  have read: "?safe (bnd (from_call (cl_read_to_end cl h)) f) u"
    if u: "?held u" and f: "\<And>d v'. ?held v' \<Longrightarrow> ?safe (f d) v'" for h u f
  proof (cases "cl_read_to_end cl h u")
    case (Pair r v')
    from laws have "keeps_contents view hist (cl_read_to_end cl h)" by (simp add: file_laws_def)
    with Pair u have "?held v'" unfolding keeps_contents_def by (metis snd_conv)
    with f Pair show ?thesis by (cases r) (simp_all add: wp_bnd wp_from_call)
  qed
  have rewound: "?safe (thn (unwrap (from_call (cl_rewind cl h))) m) u"
    if u: "?held u" and m: "\<And>v'. ?at v' \<Longrightarrow> ?safe m v'" for h u m
  proof (cases "cl_rewind cl h u")
    case (Pair r v')
    from laws have "view (snd (cl_rewind cl h u)) =
        (fst (view u), if isl (fst (cl_rewind cl h u)) then snd (view u) else 0)" "hist (snd (cl_rewind cl h u)) = hist u"
      by (simp_all add: file_laws_def)
    with Pair u m show ?thesis by (cases r) (simp_all add: wp_thn wp_unwrap wp_from_call)
  qed
  show ?thesis
    unfolding run_editor_def
    by (intro opened read rewound env connected sent printed answered; assumption)
qed

text \<open>
  C19: The editor never loses the file. When \<open>run_editor\<close> returns, the socket has answered once, the
  answer parsed, and the file holds exactly its data, from its start. When it fails, or panics
  without a write that failed, the file is as it was, also when there was an answer. Only when
  the write of the answered data itself failed is a part of them left.
\<close>

theorem editor_keeps_file:
  assumes "file_laws cl view hist"
  shows "wp (run_editor cl to_str from_str path)
     (\<lambda>_ v'. \<exists>s resp. from_str s = Some resp \<and> hist v' = hist v @ [Answered s] \<and> fst (view v') = es_data resp)
     (\<lambda>_ v'. hist v' = hist v \<and> fst (view v') = fst (view v))
     (\<lambda>_ v'. (hist v' = hist v \<or> (\<exists>s. hist v' = hist v @ [Answered s])) \<and> fst (view v') = fst (view v) \<or>
        (\<exists>s resp k. from_str s = Some resp \<and> hist v' = hist v @ [Answered s, WriteFailed] \<and>
           fst (view v') = take k (es_data resp))) v"
  by (rule editor_file [OF assms])

text \<open>
  As no editor is served, the socket is closed without an answer, and the empty answer does not
  parse: the editor ends with the file as it was.
\<close>

lemma unserved_editor_keeps_file:
  assumes laws: "file_laws cl view hist" and none: "from_str [] = None" and silent: "\<And>v s. Answered s \<in> set (hist v) \<Longrightarrow> s = []"
  shows "wp (run_editor cl to_str from_str path) (\<lambda>_ _. False)
     (\<lambda>_ v'. fst (view v') = fst (view v)) (\<lambda>_ v'. fst (view v') = fst (view v)) v"
proof -
  have "s = []" if "hist v' = hist v @ Answered s # rest" for s v' rest
    using silent [of s v'] that by simp
  with none have no: "\<not> (from_str s = Some resp \<and> hist v' = hist v @ Answered s # rest)" for s resp v' rest
    by force
  show ?thesis by (rule wp_mono [OF editor_file [OF laws]]) (use no in blast)+
qed

section \<open>What the helper prints\<close>

text \<open>The output of a run of the helper, where its standard output and error take everything.\<close>

lemma helper_prints:
  assumes "\<forall>d o' e. he_stdout he d (o', e) = (Inr (), (o' @ d, e))" and "\<forall>d o' e. he_stderr he d (o', e) = (Inr (), (o', e @ d))"
    and "\<forall>v. he_flush_stdout he v = (Inr (), v)" and "\<forall>v. he_flush_stderr he v = (Inr (), v)" and "\<forall>n v. he_sleep he n v = v"
    and "set args \<subseteq> {''StdoutLine'', ''StderrLine'', ''Wait''}" and "args \<noteq> []"
  shows "helper_main he (name # args) (o', e) = (Ok (),
     (o' @ concat (replicate (count_list args ''StdoutLine'') (''test1234teststdout'' @ newline)),
      e @ concat (replicate (count_list args ''StderrLine'') (''test1234teststderr'' @ newline))))"
proof -
  have "for_each args (helper_command he) (o', e) = (Ok (),
     (o' @ concat (replicate (count_list args ''StdoutLine'') (''test1234teststdout'' @ newline)),
      e @ concat (replicate (count_list args ''StderrLine'') (''test1234teststderr'' @ newline))))"
    using assms(6)
  proof (induction args arbitrary: o' e)
    case (Cons a args)
    from Cons.prems have "helper_command he a (o', e) = (Ok (),
       (o' @ (if a = ''StdoutLine'' then ''test1234teststdout'' @ newline else []),
        e @ (if a = ''StderrLine'' then ''test1234teststderr'' @ newline else [])))"
      using assms(1-5) by (auto simp: helper_command_def eff_defs)
    with Cons show ?case by (auto simp: thn_def bnd_def)
  qed (simp add: ret_def)
  with assms(7) show ?thesis by (simp add: helper_main_def ensure_def thn_def bnd_def ret_def)
qed

section \<open>Concrete programs\<close>

definition demo_host :: "(nat, bytes list) host" where
  "demo_host = \<lparr>ho_print = (\<lambda>line lines. (Inr (), lines @ [line])), ho_random = (\<lambda>v. (''0123456789abcdef'', v)),
     ho_encode = (\<lambda>bs. bs), ho_set_var = (\<lambda>_ _ v. v), ho_current_exe = (\<lambda>v. (Inr (Some ''/bin/nak-backend''), v)),
     ho_bind = (\<lambda>_ v. (Inr (), v)), ho_set_handler = (\<lambda>v. (Inr (), v)), ho_hostname = (\<lambda>v. (Inr ''host'', v))\<rparr>"

definition demo_ready :: remote_info where
  "demo_ready = \<lparr>hostname = ''host'', username = ''dummyuser'', working_dir = ''/''\<rparr>"

definition ready_wire :: "bytes list wire" where
  "ready_wire = pair_wire (ready_response demo_ready) (pipe_response (GenericPipe 1) (Closed 0))"

lemma programs_meet_witness:
  "\<exists>n' line. run_backend ready_wire demo_os demo_host demo_requests [] demo_node =
       backend_loop ready_wire demo_os demo_requests [] n' \<and>
     backend_output n' = backend_output demo_node @ [handshake, line] \<and>
     reader_turn (parse_pair (ready_response demo_ready) (pipe_response (GenericPipe 1) (Closed 0))) (Inr line) =
       Ok [EvRemote (ready_response demo_ready)] \<and>
     one_loop log_wire demo_terminal (\<lambda>_. get_command)
       \<lparr>fr_receiver = EvRemote (ready_response demo_ready) # [], fr_open = True, fr_remote = launched [],
        fr_reader = single_command_reader_new prefs_default ''exit''\<rparr> =
       (Ok True, \<lparr>fr_receiver = [], fr_open = True, fr_remote = connected [] demo_ready,
        fr_reader = single_command_reader_new prefs_default ''exit''\<rparr>)"
proof (rule programs_meet)
  have "valid_utf8 ''/''" by code_simp
  then show "welcoming demo_host demo_os ''host'' ''/''"
    by (simp add: welcoming_def demo_host_def demo_os_def)
  show "recording ready_wire" and "faithful (response_string ready_wire)
      (parse_pair (ready_response demo_ready) (pipe_response (GenericPipe 1) (Closed 0)))"
    unfolding ready_wire_def by (rule pair_wire_laws)+
qed (simp_all add: demo_ready_def ready_wire_def pair_wire_def)

text \<open>An editor on a file of its own, whose socket answers each time that the file should be \<open>new\<close>.\<close>

type_synonym desk = "(bytes \<times> nat) \<times> client_note list"

definition demo_client :: "desk client_os" where
  "demo_client = \<lparr>cl_var = (\<lambda>_ _. Some ''value''), cl_connect = (\<lambda>_ v. (Inr 3, v)), cl_send = (\<lambda>_ _ v. (Inr (), v)),
     cl_receive = (\<lambda>_ (f, hist). (Inr ''answer'', f, hist @ [Answered ''answer''])), cl_print = (\<lambda>_ v. (Inr (), v)),
     cl_open = (\<lambda>_ (f, hist). (Inr 4, (fst f, 0), hist)),
     cl_read_to_end = (\<lambda>_ (f, hist). (Inr (fst f), (fst f, length (fst f)), hist)),
     cl_rewind = (\<lambda>_ (f, hist). (Inr (), (fst f, 0), hist)), cl_set_len = (\<lambda>_ n (f, hist). (Inr (), (take n (fst f), snd f), hist)),
     cl_write_all = (\<lambda>_ d (f, hist). (Inr (), (take (snd f) (fst f) @ replicate (snd f - length (fst f)) (CHR 0x00) @ d @
       drop (snd f + length d) (fst f), snd f + length d), hist))\<rparr>"

definition demo_answer :: "bytes \<Rightarrow> edit_response option" where
  "demo_answer s = (if s = ''answer'' then Some \<lparr>es_data = ''new''\<rparr> else None)"

lemma editor_keeps_file_witness:
  "\<exists>v'. run_editor demo_client (\<lambda>_. Some ''request'') demo_answer ''notes'' ((''old'', 0), []) = (Ok (), v') \<and>
     (\<exists>s resp. demo_answer s = Some resp \<and> snd v' = [Answered s] \<and> fst (fst v') = es_data resp)"
proof -
  have "file_laws demo_client fst snd"
    by (simp add: file_laws_def keeps_view_def keeps_contents_def demo_client_def split: prod.split)
  note run = editor_keeps_file [OF this, of "\<lambda>_. Some ''request''" demo_answer "''notes''" "((''old'', 0), [])"]
  moreover have "fst (run_editor demo_client (\<lambda>_. Some ''request'') demo_answer ''notes'' ((''old'', 0), [])) = Ok ()"
    by (simp add: run_editor_def demo_client_def getenv_def demo_answer_def eff_defs)
  ultimately show ?thesis
    by (cases "run_editor demo_client (\<lambda>_. Some ''request'') demo_answer ''notes'' ((''old'', 0), [])") (simp add: wp_def)
qed

end
