(* ===== verification/Recorder.thy ===== *)
theory Recorder
  imports Protocol
begin

text \<open>
  \<open>tools/record/src/main.rs\<close>, the format of a recording: the records of a terminal session, the
  file they are framed in, reading it back, showing it and playing it. The encodings of a record
  (\<open>bincode\<close>) and of a length (\<open>byteorder\<close>) are parameters, the fields of \<open>codec\<close>; so are the
  terminal's colour codes and the printing of a time, the fields of \<open>style\<close>.
\<close>

section \<open>Records\<close>

text \<open>A duration is a number of nanoseconds.\<close>

type_synonym duration = nat

record attrs =
  input_flags :: u64
  output_flags :: u64
  control_flags :: u64
  local_flags :: u64
  control_chars :: bytes

datatype rec_event = Input bytes | Output bytes | Config attrs

record entry =
  ts :: duration
  event :: rec_event

record codec =
  serialize :: "entry \<Rightarrow> bytes option"
  deserialize :: "bytes \<Rightarrow> error + entry"
  put_u32 :: "32 word \<Rightarrow> bytes"
  get_u32 :: "bytes \<Rightarrow> 32 word"

section \<open>The file\<close>

definition disk_accept :: "codec \<Rightarrow> (bytes \<Rightarrow> ('f, unit) call) \<Rightarrow> entry \<Rightarrow> ('f, unit) eff" where
  "disk_accept c write_all item =
     bnd (expect ''unwrap'' (serialize c item)) (\<lambda>data.
     thn (unwrap (from_call (write_all (put_u32 c (word_of_nat (length data))))))
     (unwrap (from_call (write_all data))))"

definition recording_accept :: "entry \<Rightarrow> (entry list, unit) eff" where
  "recording_accept item = upd (\<lambda>records. records @ [item])"

function recording_parse :: "codec \<Rightarrow> bytes \<Rightarrow> entry list \<Rightarrow> entry list outcome" where
  "recording_parse c data records =
     (if length data < 4 then Ok records
      else let len = unat (get_u32 c data); data1 = drop 4 data in
        if length data1 < len then Panic ''slice index''
        else (case deserialize c (take len data1) of
            Inl e \<Rightarrow> Err e
          | Inr r \<Rightarrow> recording_parse c (drop len data1) (records @ [r])))"
  by pat_completeness auto
termination
  by (relation "measure (\<lambda>(c, data, records). length data)") auto

declare recording_parse.simps [simp del]

section \<open>Showing a recording\<close>

record style =
  fg_red :: string
  fg_white :: string
  fg_reset :: string
  seconds :: "duration \<Rightarrow> string"
  debug_attrs :: "attrs \<Rightarrow> string"

definition visible :: "char \<Rightarrow> bool" where
  "visible c \<longleftrightarrow> 0x20 \<le> (of_char c :: nat) \<and> (of_char c :: nat) \<le> 0x7e"

definition hex_digit :: "nat \<Rightarrow> char" where
  "hex_digit n = (if n < 10 then char_of (48 + n) else char_of (87 + n))"

definition hex2 :: "char \<Rightarrow> string" where
  "hex2 c = [hex_digit (of_char c div 16), hex_digit (of_char c mod 16)]"

text \<open>Runs of visible bytes as they are, runs of others in red and in hexadecimal.\<close>

function color_coded :: "style \<Rightarrow> bytes \<Rightarrow> string" where
  "color_coded st [] = []"
| "color_coded st (c # cs) =
     (if visible c then takeWhile visible (c # cs) @ color_coded st (dropWhile visible (c # cs))
      else fg_red st @ concat (map hex2 (takeWhile (\<lambda>c. \<not> visible c) (c # cs))) @ fg_reset st @
        color_coded st (dropWhile (\<lambda>c. \<not> visible c) (c # cs)))"
  by pat_completeness auto
termination
  by (relation "measure (\<lambda>(st, data). length data)") (auto simp: le_imp_less_Suc length_dropWhile_le)

definition display_entry :: "style \<Rightarrow> entry \<Rightarrow> string" where
  "display_entry st r = (case (case event r of
       Input data \<Rightarrow> (''In'', color_coded st data)
     | Output data \<Rightarrow> (''Out'', color_coded st data)
     | Config config \<Rightarrow> (''Config'', debug_attrs st config)) of (name, data) \<Rightarrow>
     fg_white st @ seconds st (ts r) @ fg_reset st @ '' '' @ name @ '': '' @ data @ [CHR 0x0A])"

definition display :: "style \<Rightarrow> entry list \<Rightarrow> string" where
  "display st records = concat (map (display_entry st) records)"

section \<open>Playing a recording\<close>

record 'w player =
  pl_now :: "'w \<Rightarrow> duration \<times> 'w"
  pl_sleep :: "duration \<Rightarrow> 'w \<Rightarrow> 'w"
  pl_write_all :: "bytes \<Rightarrow> ('w, unit) call"
  pl_flush :: "('w, unit) call"

definition clock :: "('w \<Rightarrow> duration \<times> 'w) \<Rightarrow> ('w, duration) eff" where
  "clock now = (\<lambda>v. case now v of (t, v') \<Rightarrow> (Ok t, v'))"

definition play_record :: "'w player \<Rightarrow> duration \<Rightarrow> entry \<Rightarrow> ('w, unit) eff" where
  "play_record pl start r = bnd (clock (pl_now pl)) (\<lambda>now. let elapsed = now - start in
     thn (if elapsed < ts r then upd (pl_sleep pl (ts r - elapsed)) else ret ())
     (case event r of
        Config _ \<Rightarrow> ret ()
      | Input _ \<Rightarrow> ret ()
      | Output data \<Rightarrow> thn (from_call (pl_write_all pl data)) (from_call (pl_flush pl))))"

definition play :: "'w player \<Rightarrow> entry list \<Rightarrow> ('w, unit) eff" where
  "play pl records = bnd (clock (pl_now pl)) (\<lambda>start. for_each records (play_record pl start))"

text \<open>\<open>main\<close> with \<open>--play\<close> and with \<open>--display\<close>, on the contents of the file.\<close>

definition play_file :: "codec \<Rightarrow> 'w player \<Rightarrow> bytes \<Rightarrow> ('w, unit) eff" where
  "play_file c pl contents = bnd (answer (recording_parse c contents [])) (play pl)"

definition display_file :: "codec \<Rightarrow> style \<Rightarrow> bytes \<Rightarrow> string outcome" where
  "display_file c st contents = map_outcome (display st) (recording_parse c contents [])"

section \<open>Framing\<close>

text \<open>
  What is relied on of \<open>bincode\<close> and \<open>byteorder\<close>: a printed record is read back, and a length
  takes four bytes, which are read back whatever follows.
\<close>

definition codec_laws :: "codec \<Rightarrow> bool" where
  "codec_laws c \<longleftrightarrow> (\<forall>r d. serialize c r = Some d \<longrightarrow> deserialize c d = Inr r) \<and>
     (\<forall>n. length (put_u32 c n) = 4) \<and> (\<forall>n d. get_u32 c (put_u32 c n @ d) = n)"

definition appending :: "bytes \<Rightarrow> (bytes, unit) call" where
  "appending d file = (Inr (), file @ d)"

definition framed :: "codec \<Rightarrow> entry \<Rightarrow> bytes" where
  "framed c r = (let d = the (serialize c r) in put_u32 c (word_of_nat (length d)) @ d)"

definition fits_u32 :: "codec \<Rightarrow> entry \<Rightarrow> bool" where
  "fits_u32 c r \<longleftrightarrow> (case serialize c r of None \<Rightarrow> False | Some d \<Rightarrow> length d < 2 ^ 32)"

lemma fits_u32D: "fits_u32 c r \<Longrightarrow> \<exists>d. serialize c r = Some d \<and> length d < 2 ^ 32"
  by (auto simp: fits_u32_def split: option.splits)

lemma accept_appends:
  "serialize c r \<noteq> None \<Longrightarrow> disk_accept c appending r f0 = (Ok (), f0 @ framed c r)"
  by (auto simp: disk_accept_def framed_def appending_def eff_defs)

lemma accept_all:
  "list_all (fits_u32 c) rs \<Longrightarrow>
   for_each rs (disk_accept c appending) f0 = (Ok (), f0 @ concat (map (framed c) rs))"
proof (induction rs arbitrary: f0)
  case (Cons r rs)
  then show ?case using fits_u32D [of c r]
    by (auto simp: accept_appends thn_def bnd_def)
qed (simp add: ret_def)

lemma unat_length: "n < 2 ^ 32 \<Longrightarrow> unat (word_of_nat n :: 32 word) = n"
  by (simp add: unat_of_nat take_bit_nat_def)

lemma parse_step:
  assumes "codec_laws c" and "fits_u32 c r"
  shows "recording_parse c (framed c r @ d) acc = recording_parse c d (acc @ [r])"
proof -
  from fits_u32D [OF assms(2)] obtain s where s: "serialize c r = Some s" "length s < 2 ^ 32" by blast
  let ?p = "put_u32 c (word_of_nat (length s))"
  from assms(1) have p: "length ?p = 4" "get_u32 c (?p @ s @ d) = word_of_nat (length s)"
    "deserialize c s = Inr r" using s by (auto simp: codec_laws_def)
  have "drop 4 (?p @ s @ d) = s @ d" using p(1) by simp
  then show ?thesis
    using p s unat_length [OF s(2)]
    by (subst recording_parse.simps) (simp add: framed_def Let_def)
qed

lemma parse_framed:
  "codec_laws c \<Longrightarrow> list_all (fits_u32 c) rs \<Longrightarrow>
   recording_parse c (concat (map (framed c) rs) @ d) acc = recording_parse c d (acc @ rs)"
  by (induction rs arbitrary: acc) (simp_all add: parse_step)

text \<open>
  C30: A recording is read back. The records written to a file one after another are, when each
  takes less than four gigabytes, exactly the records read from it.
\<close>

theorem recording_roundtrip:
  assumes "codec_laws c" and "list_all (fits_u32 c) rs"
  shows "\<exists>file. for_each rs (disk_accept c appending) [] = (Ok (), file) \<and> recording_parse c file [] = Ok rs"
  using accept_all [OF assms(2), of "[]"] parse_framed [OF assms, of "[]" "[]"]
  by (simp add: recording_parse.simps)

text \<open>
  C40: A recording cut short. Of a file that ends inside a record, the records before it are read
  when fewer than four bytes of the record are there, and reading panics, with no error a caller
  could report, when the length is there and some of the record is missing.
\<close>

theorem recording_cut_short:
  assumes "codec_laws c" and "list_all (fits_u32 c) rs" and "fits_u32 c r" and "n < length (framed c r)"
  shows "recording_parse c (concat (map (framed c) rs) @ take n (framed c r)) [] =
    (if n < 4 then Ok rs else Panic ''slice index'')"
proof -
  from fits_u32D [OF assms(3)] obtain s where s: "serialize c r = Some s" "length s < 2 ^ 32" by blast
  let ?p = "put_u32 c (word_of_nat (length s))"
  from assms(1) have p: "length ?p = 4" "\<And>d. get_u32 c (?p @ d) = word_of_nat (length s)"
    by (auto simp: codec_laws_def)
  have "take n (framed c r) = ?p @ take (n - 4) s" if "4 \<le> n"
    using that p(1) s(1) by (simp add: framed_def Let_def)
  then show ?thesis
    using p s(1) assms(4) unat_length [OF s(2)]
    by (subst parse_framed [OF assms(1,2)], subst recording_parse.simps) (auto simp: framed_def Let_def)
qed

section \<open>What is shown\<close>

text \<open>The same display one byte at a time, knowing whether it is in a red run.\<close>

fun bytewise :: "style \<Rightarrow> bool \<Rightarrow> bytes \<Rightarrow> string" where
  "bytewise st red [] = (if red then fg_reset st else [])"
| "bytewise st red (c # cs) =
     (if visible c then (if red then fg_reset st else []) @ c # bytewise st False cs
      else (if red then [] else fg_red st) @ hex2 c @ bytewise st True cs)"

lemma bytewise_visible:
  "bytewise st False cs = takeWhile visible cs @ bytewise st False (dropWhile visible cs)"
  by (induction cs) auto

lemma bytewise_red:
  "bytewise st True cs = concat (map hex2 (takeWhile (\<lambda>c. \<not> visible c) cs)) @ fg_reset st @
     bytewise st False (dropWhile (\<lambda>c. \<not> visible c) cs)"
  by (induction cs) auto

text \<open>
  Scanning runs shows what going byte by byte would. The two nested loops that look for the
  ends of runs show every byte once, in order: a visible one as it is, any other as two
  hexadecimal digits, with the colour changed exactly where the kind of byte changes.
\<close>

lemma color_coded_bytewise: "color_coded st data = bytewise st False data"
proof (induction st data rule: color_coded.induct)
  case (2 st c cs)
  then show ?case
    using bytewise_visible [of st "c # cs"] bytewise_red [of st cs] by auto
qed simp

section \<open>What is played\<close>

definition outputs :: "entry list \<Rightarrow> bytes list" where
  "outputs rs = concat (map (\<lambda>r. case event r of Output d \<Rightarrow> [d] | _ \<Rightarrow> []) rs)"

definition inputs :: "entry list \<Rightarrow> bytes list" where
  "inputs rs = concat (map (\<lambda>r. case event r of Input d \<Rightarrow> [d] | _ \<Rightarrow> []) rs)"

lemma outputs_simps [simp]: "outputs [] = []" "inputs [] = []"
  "outputs (rs @ rs') = outputs rs @ outputs rs'" "inputs (rs @ rs') = inputs rs @ inputs rs'"
  "outputs (r # rs) = (case event r of Output d \<Rightarrow> [d] | _ \<Rightarrow> []) @ outputs rs"
  "inputs (r # rs) = (case event r of Input d \<Rightarrow> [d] | _ \<Rightarrow> []) @ inputs rs"
  by (simp_all add: outputs_def inputs_def)

text \<open>
  A player's terminal and clock: the time it is and what was written with the time it was. Time
  does not run backwards, a sleep takes at least as long as asked, and a write appends.
\<close>

definition player_laws :: "'w player \<Rightarrow> ('w \<Rightarrow> nat) \<Rightarrow> ('w \<Rightarrow> (nat \<times> bytes) list) \<Rightarrow> bool" where
  "player_laws pl time log \<longleftrightarrow>
     (\<forall>v. \<exists>v'. pl_now pl v = (time v', v') \<and> time v \<le> time v' \<and> log v' = log v) \<and>
     (\<forall>d v. time v + d \<le> time (pl_sleep pl d v) \<and> log (pl_sleep pl d v) = log v) \<and>
     (\<forall>d v. \<exists>v'. pl_write_all pl d v = (Inr (), v') \<and> time v \<le> time v' \<and> log v' = log v @ [(time v, d)]) \<and>
     (\<forall>v. \<exists>v'. pl_flush pl v = (Inr (), v') \<and> time v \<le> time v' \<and> log v' = log v)"

text \<open>The log from \<open>t0\<close> on: every output, not before its time.\<close>

definition timely :: "nat \<Rightarrow> entry list \<Rightarrow> (nat \<times> bytes) list \<Rightarrow> bool" where
  "timely t0 rs l \<longleftrightarrow> map snd l = outputs rs \<and>
     list_all2 (\<lambda>r (t, d). t0 + ts r \<le> t) (filter (\<lambda>r. \<exists>d. event r = Output d) rs) l"

lemma play_record_run:
  assumes "player_laws pl time log" and "start \<le> time v"
  shows "\<exists>v'. play_record pl start r v = (Ok (), v') \<and> start \<le> time v' \<and>
     (\<exists>l. log v' = log v @ l \<and> timely start [r] l)"
proof -
  from assms(1) obtain v1 where v1: "pl_now pl v = (time v1, v1)" "time v \<le> time v1" "log v1 = log v"
    unfolding player_laws_def by blast
  define v2 where "v2 = (if time v1 - start < ts r then pl_sleep pl (ts r - (time v1 - start)) v1 else v1)"
  have sleep: "time v1 + d \<le> time (pl_sleep pl d v1)" "log (pl_sleep pl d v1) = log v1" for d
    using assms(1) by (simp_all add: player_laws_def)
  have v2: "start + ts r \<le> time v2" "start \<le> time v2" "log v2 = log v"
    using sleep [of "ts r - (time v1 - start)"] v1 assms(2) by (auto simp: v2_def)
  have run: "play_record pl start r v = (case event r of
        Config _ \<Rightarrow> ret ()
      | Input _ \<Rightarrow> ret ()
      | Output data \<Rightarrow> thn (from_call (pl_write_all pl data)) (from_call (pl_flush pl))) v2"
    using v1(1) by (simp add: play_record_def clock_def v2_def Let_def eff_defs)
  show ?thesis
  proof (cases "event r")
    case (Output d)
    from assms(1) obtain v3 where v3: "pl_write_all pl d v2 = (Inr (), v3)" "time v2 \<le> time v3"
      "log v3 = log v2 @ [(time v2, d)]" unfolding player_laws_def by blast
    from assms(1) obtain v4 where v4: "pl_flush pl v3 = (Inr (), v4)" "time v3 \<le> time v4" "log v4 = log v3"
      unfolding player_laws_def by blast
    from v2 v3 v4 show ?thesis
      by (simp add: run Output timely_def eff_defs)
  qed (use v2 in \<open>simp_all add: run ret_def timely_def\<close>)
qed

lemma timely_append: "timely t0 [r] l \<Longrightarrow> timely t0 rs l' \<Longrightarrow> timely t0 (r # rs) (l @ l')"
  by (cases "event r") (auto simp: timely_def list_all2_Cons1 list_all2_Nil)

lemma play_records:
  assumes "player_laws pl time log"
  shows "start \<le> time v \<Longrightarrow> \<exists>v' l. for_each rs (play_record pl start) v = (Ok (), v') \<and> log v' = log v @ l \<and>
     timely start rs l"
proof (induction rs arbitrary: v)
  case Nil
  then show ?case by (simp add: ret_def timely_def)
next
  case (Cons r rs)
  from play_record_run [OF assms Cons.prems, of r] obtain v1 l1 where
    v1: "play_record pl start r v = (Ok (), v1)" "start \<le> time v1" "log v1 = log v @ l1" "timely start [r] l1"
    by blast
  from Cons.IH [OF v1(2)] obtain v2 l2 where
    v2: "for_each rs (play_record pl start) v1 = (Ok (), v2)" "log v2 = log v1 @ l2" "timely start rs l2" by blast
  with v1 timely_append [OF v1(4) v2(3)] show ?case by (simp add: thn_def bnd_def)
qed

lemma play_logs:
  assumes "player_laws pl time log"
  shows "\<exists>v' l. play pl rs v = (Ok (), v') \<and> log v' = log v @ l \<and> timely (fst (pl_now pl v)) rs l"
proof -
  from assms obtain v1 where v1: "pl_now pl v = (time v1, v1)" "time v \<le> time v1" "log v1 = log v"
    unfolding player_laws_def by blast
  from play_records [OF assms, of "time v1" v1 rs] v1 show ?thesis
    by (auto simp: play_def clock_def bnd_def)
qed

text \<open>
  Playing a recording writes its outputs. From the file of a recording, \<open>--play\<close> writes exactly
  the data of its output records, in order, none before the time after the start that its record
  has; the inputs and configurations are not written.
\<close>

lemma playing_writes_outputs:
  assumes "codec_laws c" and "list_all (fits_u32 c) rs" and "player_laws pl time log"
  shows "\<exists>v' l. play_file c pl (concat (map (framed c) rs)) v = (Ok (), v') \<and>
     log v' = log v @ l \<and> timely (fst (pl_now pl v)) rs l"
proof -
  have "recording_parse c (concat (map (framed c) rs)) [] = Ok rs"
    using parse_framed [OF assms(1,2), of "[]" "[]"] by (simp add: recording_parse.simps)
  with play_logs [OF assms(3), of rs v] show ?thesis
    by (simp add: play_file_def answer_def bnd_def)
qed

section \<open>A concrete recording\<close>

text \<open>Four bytes, the lowest first, and an encoding that knows two records.\<close>

definition le_bytes :: "nat \<Rightarrow> bytes" where
  "le_bytes n = [char_of n, char_of (n div 256), char_of (n div 65536), char_of (n div 16777216)]"

definition le_value :: "bytes \<Rightarrow> nat" where
  "le_value d = of_char (d ! 0) + 256 * of_char (d ! 1) + 65536 * of_char (d ! 2) + 16777216 * of_char (d ! 3)"

lemma le_value_bytes:
  assumes "n < 2 ^ 32"
  shows "le_value (le_bytes n @ d) = n"
proof -
  have "n = n mod 256 + 256 * (n div 256)" by simp
  moreover have "n div 256 = n div 256 mod 256 + 256 * (n div 65536)"
    using div_mult2_eq [of n 256 256] by simp
  moreover have "n div 65536 = n div 65536 mod 256 + 256 * (n div 16777216)"
    using div_mult2_eq [of n 65536 256] by simp
  moreover have top: "n div 16777216 mod 256 = n div 16777216" using assms by simp
  ultimately have "n mod 256 + 256 * (n div 256 mod 256) + 65536 * (n div 65536 mod 256) +
      16777216 * (n div 16777216 mod 256) = n" by linarith
  then show ?thesis by (simp add: le_value_def le_bytes_def) (use top in linarith)
qed

definition demo_config :: entry where
  "demo_config = \<lparr>ts = 0, event = Config \<lparr>input_flags = 1, output_flags = 0, control_flags = 0,
     local_flags = 0, control_chars = []\<rparr>\<rparr>"

definition demo_output :: entry where
  "demo_output = \<lparr>ts = 40, event = Output ''ok''\<rparr>"

definition demo_codec :: codec where
  "demo_codec = \<lparr>
     serialize = (\<lambda>r. if r = demo_config then Some ''config'' else if r = demo_output then Some ''out'' else None),
     deserialize = (\<lambda>d. if d = ''config'' then Inr demo_config else if d = ''out'' then Inr demo_output
       else Inl ''bincode''),
     put_u32 = (\<lambda>n. le_bytes (unat n)), get_u32 = (\<lambda>d. word_of_nat (le_value d))\<rparr>"

lemma unat_below: "unat (n :: 32 word) < 2 ^ 32"
  using unsigned_less [of n] by simp

lemma demo_codec_laws: "codec_laws demo_codec"
proof -
  have "word_of_nat (le_value (le_bytes (unat n) @ d)) = n" for n :: "32 word" and d
    using le_value_bytes [OF unat_below, of n d] by simp
  then show ?thesis
    by (simp add: codec_laws_def demo_codec_def) (simp add: le_bytes_def)
qed

definition demo_records :: "entry list" where
  "demo_records = [demo_config, demo_output]"

lemma demo_fits: "fits_u32 demo_codec demo_config" "fits_u32 demo_codec demo_output"
  by (simp_all add: fits_u32_def demo_codec_def)

lemma demo_records_fit: "list_all (fits_u32 demo_codec) demo_records"
  by (simp add: demo_records_def demo_fits)

lemma recording_roundtrip_witness:
  "\<exists>file. for_each demo_records (disk_accept demo_codec appending) [] = (Ok (), file) \<and>
     recording_parse demo_codec file [] = Ok demo_records"
  by (rule recording_roundtrip [OF demo_codec_laws demo_records_fit])

lemma recording_cut_short_witness:
  "recording_parse demo_codec (concat (map (framed demo_codec) demo_records) @
     take 6 (framed demo_codec demo_config)) [] = (if (6 :: nat) < 4 then Ok demo_records else Panic ''slice index'')"
  by (rule recording_cut_short [OF demo_codec_laws demo_records_fit demo_fits(1)])
    (simp add: framed_def demo_codec_def le_bytes_def Let_def)

text \<open>A clock that only a sleep moves, and the log of what was written.\<close>

definition demo_player :: "(nat \<times> (nat \<times> bytes) list) player" where
  "demo_player = \<lparr>pl_now = (\<lambda>v. (fst v, v)), pl_sleep = (\<lambda>d (t, l). (t + d, l)),
     pl_write_all = (\<lambda>d (t, l). (Inr (), t, l @ [(t, d)])), pl_flush = (\<lambda>v. (Inr (), v))\<rparr>"

lemma demo_player_laws: "player_laws demo_player fst snd"
  by (simp add: player_laws_def demo_player_def split: prod.split)

lemma playing_writes_outputs_witness:
  "\<exists>v' l. play_file demo_codec demo_player (concat (map (framed demo_codec) demo_records)) (7, []) = (Ok (), v') \<and>
     snd v' = snd (7 :: nat, [] :: (nat \<times> bytes) list) @ l \<and>
     timely (fst (pl_now demo_player (7, []))) demo_records l"
  by (rule playing_writes_outputs [OF demo_codec_laws demo_records_fit demo_player_laws])

end
