(* ===== verification/Piper.thy ===== *)
theory Piper
  imports Recorder
begin

unbundle bit_operations_syntax

text \<open>
  \<open>tools/record/src/main.rs\<close>, the recording of a session: \<open>Piper\<close> passes what one file descriptor
  has to another through a buffer of 4096 bytes, without blocking, and \<open>record\<close> runs two of them
  between the terminal and a program on a pseudo terminal, and records what passes. The system
  calls are the operating system's, the fields of \<open>pty_os\<close>.
\<close>

section \<open>The operating system\<close>

datatype nix_error = Sys string | InvalidPath | InvalidUtf8 | UnsupportedOperation

type_synonym ('w, 'a) nix_call = "'w \<Rightarrow> (nix_error + 'a) \<times> 'w"

record termios =
  tio_input :: u64
  tio_output :: u64
  tio_control :: u64
  tio_local :: u64
  tio_chars :: bytes

record 'w pty_os =
  pt_write :: "nat \<Rightarrow> bytes \<Rightarrow> ('w, nat) nix_call"
  pt_read :: "nat \<Rightarrow> nat \<Rightarrow> ('w, bytes) nix_call"
  pt_tcgetattr :: "nat \<Rightarrow> ('w, termios) nix_call"
  pt_tcsetattr :: "nat \<Rightarrow> termios \<Rightarrow> ('w, unit) nix_call"
  pt_openpty :: "('w, nat \<times> nat) nix_call"
  pt_no_block :: "nat \<Rightarrow> ('w, unit) nix_call"
  pt_select :: "nat set \<Rightarrow> nat set \<Rightarrow> ('w, nat set \<times> nat set) nix_call"
  pt_spawn :: "string \<Rightarrow> string list \<Rightarrow> nat \<Rightarrow> nat \<Rightarrow> ('w, unit) call"
  pt_wait :: "('w, unit) call"
  pt_now :: "'w \<Rightarrow> duration \<times> 'w"
  pt_stdin :: nat
  pt_stdout :: nat
  pt_flag :: "string \<Rightarrow> u64"

fun nix_message :: "nix_error \<Rightarrow> error" where
  "nix_message (Sys errno) = errno"
| "nix_message InvalidPath = ''InvalidPath''"
| "nix_message InvalidUtf8 = ''InvalidUtf8''"
| "nix_message UnsupportedOperation = ''UnsupportedOperation''"

definition from_nix :: "('w, 'a) nix_call \<Rightarrow> ('w, 'a) eff" where
  "from_nix c = (\<lambda>v. case c v of (Inl e, v') \<Rightarrow> (Err (nix_message e), v') | (Inr a, v') \<Rightarrow> (Ok a, v'))"

definition errno :: "nix_error \<Rightarrow> ('s, string) eff" where
  "errno e = (case e of Sys n \<Rightarrow> ret n | _ \<Rightarrow> panic ''explicit panic'')"

section \<open>The terminal\<close>

definition attrs_from :: "termios \<Rightarrow> attrs" where
  "attrs_from t = \<lparr>input_flags = tio_input t, output_flags = tio_output t, control_flags = tio_control t,
     local_flags = tio_local t, control_chars = tio_chars t\<rparr>"

definition raw_mode :: "(string \<Rightarrow> u64) \<Rightarrow> termios \<Rightarrow> termios" where
  "raw_mode flag t = t\<lparr>
     tio_input := fold (\<lambda>f w. w AND NOT (flag f)) [''BRKINT'', ''IXON'', ''ICRNL'', ''IMAXBEL'']
       (tio_input t OR flag ''IGNBRK''),
     tio_local := fold (\<lambda>f w. w AND NOT (flag f))
       [''ECHOE'', ''ECHOK'', ''ECHO'', ''ISIG'', ''ICANON'', ''IEXTEN'', ''PENDIN''] (tio_local t)\<rparr>"

definition setup_master :: "'w pty_os \<Rightarrow> ('w, unit) eff" where
  "setup_master os = bnd (unwrap (from_nix (pt_tcgetattr os (pt_stdin os)))) (\<lambda>attrs.
     unwrap (from_nix (pt_tcsetattr os (pt_stdin os) (raw_mode (pt_flag os) attrs))))"

section \<open>Piping\<close>

text \<open>
  The buffer is the memory allocated for it, of which the first \<open>pp_len\<close> bytes are its contents;
  \<open>set_len\<close> beyond the memory allocated is undefined, here a panic of that name.
\<close>

record piper =
  pp_mem :: bytes
  pp_len :: nat
  pp_read :: nat
  pp_write :: nat

record eof_data =
  eof_bytes :: bytes
  eof_seen :: bool

record 'w piping =
  pg_piper :: piper
  pg_world :: 'w

definition piper_new :: "bytes \<Rightarrow> nat \<Rightarrow> nat \<Rightarrow> piper" where
  "piper_new mem rd wr = \<lparr>pp_mem = mem, pp_len = 0, pp_read = rd, pp_write = wr\<rparr>"

definition pp_buf :: "piper \<Rightarrow> bytes" where
  "pp_buf p = take (pp_len p) (pp_mem p)"

text \<open>The inner loop: the buffer from \<open>offset\<close> on is written; it stops, and what was written is added to \<open>chunk\<close>.\<close>

datatype write_stop = Drained | Failed nix_error | Died string

function write_loop :: "'w pty_os \<Rightarrow> nat \<Rightarrow> bytes \<Rightarrow> nat \<Rightarrow> bytes \<Rightarrow> 'w \<Rightarrow> write_stop \<times> nat \<times> bytes \<times> 'w" where
  "write_loop os fd buf offset chunk v =
     (if offset < length buf then (case pt_write os fd (drop offset buf) v of
          (Inl e, v1) \<Rightarrow> (Failed e, offset, chunk, v1)
        | (Inr n, v1) \<Rightarrow>
            if n = 0 then (Died ''explicit panic'', offset, chunk, v1)
            else if length buf < offset + n then (Died ''slice index'', offset, chunk, v1)
            else write_loop os fd buf (offset + n) (chunk @ take n (drop offset buf)) v1)
      else (Drained, offset, chunk, v))"
  by pat_completeness auto
termination
  by (relation "measure (\<lambda>(os, fd, buf, offset, chunk, v). length buf - offset)") auto

declare write_loop.simps [simp del]

definition write_buf :: "'w pty_os \<Rightarrow> bytes \<Rightarrow> ('w piping, bytes) eff" where
  "write_buf os chunk = (\<lambda>s.
     case write_loop os (pp_write (pg_piper s)) (pp_buf (pg_piper s)) 0 chunk (pg_world s) of
       (Drained, offset, chunk1, v) \<Rightarrow> (Ok chunk1, s\<lparr>pg_world := v\<rparr>)
     | (Died p, offset, chunk1, v) \<Rightarrow> (Panic p, s\<lparr>pg_world := v\<rparr>)
     | (Failed e, offset, chunk1, v) \<Rightarrow>
         let left = drop offset (pp_buf (pg_piper s)) in
         bnd (errno e) (\<lambda>n. if n = ''EAGAIN'' then ret chunk1 else fail (nix_message e))
           (s\<lparr>pg_world := v, pg_piper := (pg_piper s)\<lparr>pp_mem := left, pp_len := length left\<rparr>\<rparr>))"

datatype read_stop = Blocked | Ended | More

definition read_buf :: "'w pty_os \<Rightarrow> ('w piping, read_stop) eff" where
  "read_buf os =
     bnd (gets (\<lambda>s. length (pp_mem (pg_piper s)))) (\<lambda>capacity.
     thn (ensure ''set_len beyond capacity'' (4096 \<le> capacity))
     (thn (upd (\<lambda>s. s\<lparr>pg_piper := (pg_piper s)\<lparr>pp_len := 4096\<rparr>\<rparr>))
     (\<lambda>s. case pt_read os (pp_read (pg_piper s)) 4096 (pg_world s) of
        (Inl e, v) \<Rightarrow>
          bnd (errno e) (\<lambda>n. if n = ''EAGAIN'' then ret Blocked else fail (nix_message e))
            (s\<lparr>pg_world := v, pg_piper := (pg_piper s)\<lparr>pp_len := 0\<rparr>\<rparr>)
      | (Inr data, v) \<Rightarrow>
          if data = [] then (Ok Ended, s\<lparr>pg_world := v\<rparr>)
          else (Ok More, s\<lparr>pg_world := v, pg_piper := (pg_piper s)
            \<lparr>pp_mem := data @ drop (length data) (pp_mem (pg_piper s)), pp_len := length data\<rparr>\<rparr>))))"

text \<open>The outer loop, for at most so many turns.\<close>

primrec pipe_loop :: "'w pty_os \<Rightarrow> nat \<Rightarrow> bytes \<Rightarrow> ('w piping, eof_data) eff" where
  "pipe_loop os 0 chunk = diverge"
| "pipe_loop os (Suc n) chunk = bnd (write_buf os chunk) (\<lambda>chunk1. bnd (read_buf os) (\<lambda>r. case r of
     Blocked \<Rightarrow> ret \<lparr>eof_bytes = chunk1, eof_seen = False\<rparr>
   | Ended \<Rightarrow> ret \<lparr>eof_bytes = chunk1, eof_seen = True\<rparr>
   | More \<Rightarrow> pipe_loop os n chunk1))"

definition pipe_some :: "'w pty_os \<Rightarrow> nat \<Rightarrow> ('w piping, eof_data) eff" where
  "pipe_some os fuel = pipe_loop os fuel []"

section \<open>Recording a session\<close>

record ('k, 'w) session =
  se_input :: piper
  se_output :: piper
  se_config :: attrs
  se_sink :: 'k
  se_world :: 'w

definition on_world :: "('w, 'a) eff \<Rightarrow> (('k, 'w) session, 'a) eff" where
  "on_world m = zoom se_world (\<lambda>v s. s\<lparr>se_world := v\<rparr>) m"

definition on_sink :: "('k, 'a) eff \<Rightarrow> (('k, 'w) session, 'a) eff" where
  "on_sink m = zoom se_sink (\<lambda>k s. s\<lparr>se_sink := k\<rparr>) m"

definition on_input :: "('w piping, 'a) eff \<Rightarrow> (('k, 'w) session, 'a) eff" where
  "on_input m = zoom (\<lambda>s. \<lparr>pg_piper = se_input s, pg_world = se_world s\<rparr>)
     (\<lambda>g s. s\<lparr>se_input := pg_piper g, se_world := pg_world g\<rparr>) m"

definition on_output :: "('w piping, 'a) eff \<Rightarrow> (('k, 'w) session, 'a) eff" where
  "on_output m = zoom (\<lambda>s. \<lparr>pg_piper = se_output s, pg_world = se_world s\<rparr>)
     (\<lambda>g s. s\<lparr>se_output := pg_piper g, se_world := pg_world g\<rparr>) m"

text \<open>A record with the time since the start.\<close>

definition accept_now :: "'w pty_os \<Rightarrow> (entry \<Rightarrow> ('k, unit) eff) \<Rightarrow> duration \<Rightarrow> rec_event \<Rightarrow>
    (('k, 'w) session, unit) eff" where
  "accept_now os accept start ev = bnd (on_world (clock (pt_now os))) (\<lambda>now.
     on_sink (accept \<lparr>ts = now - start, event = ev\<rparr>))"

definition note_config :: "'w pty_os \<Rightarrow> (entry \<Rightarrow> ('k, unit) eff) \<Rightarrow> duration \<Rightarrow> nat \<Rightarrow>
    (('k, 'w) session, unit) eff" where
  "note_config os accept start master =
     bnd (on_world (unwrap (from_nix (pt_tcgetattr os master)))) (\<lambda>t. let new_config = attrs_from t in
     bnd (gets se_config) (\<lambda>config.
     if new_config \<noteq> config then
       thn (accept_now os accept start (Config new_config)) (upd (\<lambda>s. s\<lparr>se_config := new_config\<rparr>))
     else ret ()))"

definition write_interest :: "'w pty_os \<Rightarrow> nat \<Rightarrow> ('k, 'w) session \<Rightarrow> nat set" where
  "write_interest os master s = (if 0 < pp_len (se_input s) then {master} else {}) \<union>
     (if 0 < pp_len (se_output s) then {pt_stdout os} else {})"

definition pump_input :: "'w pty_os \<Rightarrow> nat \<Rightarrow> (entry \<Rightarrow> ('k, unit) eff) \<Rightarrow> duration \<Rightarrow>
    (('k, 'w) session, unit) eff" where
  "pump_input os fuel accept start = bnd (on_input (pipe_some os fuel)) (\<lambda>r.
     thn (accept_now os accept start (Input (eof_bytes r)))
     (if eof_seen r then panic ''explicit panic'' else ret ()))"

definition pump_output :: "'w pty_os \<Rightarrow> nat \<Rightarrow> (entry \<Rightarrow> ('k, unit) eff) \<Rightarrow> duration \<Rightarrow>
    (('k, 'w) session, bool) eff" where
  "pump_output os fuel accept start = bnd (on_output (pipe_some os fuel)) (\<lambda>r.
     thn (accept_now os accept start (Output (eof_bytes r)))
     (ret (\<not> eof_seen r)))"

text \<open>One turn of the loop, which says whether there is a next one; the loop, for at most so many turns.\<close>

definition record_turn :: "'w pty_os \<Rightarrow> nat \<Rightarrow> (entry \<Rightarrow> ('k, unit) eff) \<Rightarrow> duration \<Rightarrow> nat \<Rightarrow>
    (('k, 'w) session, bool) eff" where
  "record_turn os fuel accept start master =
     thn (note_config os accept start master)
     (bnd (gets (write_interest os master)) (\<lambda>writes.
     bnd (on_world (unwrap (from_nix (pt_select os {master, pt_stdin os} writes)))) (\<lambda>(readable, writable).
     thn (if pt_stdin os \<in> readable \<or> master \<in> writable then pump_input os fuel accept start else ret ())
     (if master \<in> readable \<or> pt_stdout os \<in> writable then pump_output os fuel accept start else ret True))))"

primrec record_loop :: "'w pty_os \<Rightarrow> nat \<Rightarrow> (entry \<Rightarrow> ('k, unit) eff) \<Rightarrow> duration \<Rightarrow> nat \<Rightarrow> nat \<Rightarrow>
    (('k, 'w) session, unit) eff" where
  "record_loop os fuel accept start master 0 = diverge"
| "record_loop os fuel accept start master (Suc n) = bnd (record_turn os fuel accept start master) (\<lambda>go.
     if go then record_loop os fuel accept start master n else ret ())"

text \<open>
  \<open>record\<close>: the pseudo terminal, the terminal without echo and line editing, the three descriptors
  without blocking, the first configuration, the program, the two pipers with freshly allocated
  memory, the loop, and the end of the program.
\<close>

definition record_session :: "'w pty_os \<Rightarrow> nat \<Rightarrow> nat \<Rightarrow> (entry \<Rightarrow> ('k, unit) eff) \<Rightarrow> bytes \<Rightarrow> bytes \<Rightarrow>
    string list \<Rightarrow> (('k, 'w) session, unit) eff" where
  "record_session os fuel turns accept mem mem' cmd =
     bnd (on_world (from_nix (pt_openpty os))) (\<lambda>(master, slave).
     bnd (on_world (clock (pt_now os))) (\<lambda>start.
     bnd (expect ''unwrap'' (case cmd of [] \<Rightarrow> None | head # args \<Rightarrow> Some (head, args))) (\<lambda>(head, args).
     thn (on_world (setup_master os))
     (thn (on_world (unwrap (from_nix (pt_no_block os (pt_stdin os)))))
     (thn (on_world (unwrap (from_nix (pt_no_block os (pt_stdout os)))))
     (thn (on_world (unwrap (from_nix (pt_no_block os master))))
     (bnd (on_world (unwrap (from_nix (pt_tcgetattr os master)))) (\<lambda>t.
     thn (upd (\<lambda>s. s\<lparr>se_config := attrs_from t\<rparr>))
     (thn (on_sink (accept \<lparr>ts = start - start, event = Config (attrs_from t)\<rparr>))
     (thn (on_world (from_call (pt_spawn os head args slave master)))
     (thn (upd (\<lambda>s. s\<lparr>se_input := piper_new mem (pt_stdin os) master,
       se_output := piper_new mem' master (pt_stdout os)\<rparr>))
     (thn (record_loop os fuel accept start master turns)
     (on_world (from_call (pt_wait os)))))))))))))))"

section \<open>What is recorded is what is passed on\<close>

text \<open>
  An operating system whose state tells what each descriptor was sent: a write takes a part of
  what it is given from the front, a read gives no more than asked for, and nothing else sends.
\<close>

definition sends_nothing :: "('w \<Rightarrow> 'b) \<Rightarrow> ('w \<Rightarrow> 'a \<times> 'w) \<Rightarrow> bool" where
  "sends_nothing sent c \<longleftrightarrow> (\<forall>v. sent (snd (c v)) = sent v)"

definition honest :: "'w pty_os \<Rightarrow> ('w \<Rightarrow> nat \<Rightarrow> bytes) \<Rightarrow> bool" where
  "honest os sent \<longleftrightarrow>
     (\<forall>fd d v. case pt_write os fd d v of
        (Inl e, v') \<Rightarrow> sent v' = sent v
      | (Inr n, v') \<Rightarrow> n \<le> length d \<and> sent v' = (sent v)(fd := sent v fd @ take n d)) \<and>
     (\<forall>fd n v. case pt_read os fd n v of (Inl e, v') \<Rightarrow> True | (Inr d, v') \<Rightarrow> length d \<le> n) \<and>
     (\<forall>fd n. sends_nothing sent (pt_read os fd n)) \<and> (\<forall>fd. sends_nothing sent (pt_tcgetattr os fd)) \<and>
     (\<forall>fd t. sends_nothing sent (pt_tcsetattr os fd t)) \<and> sends_nothing sent (pt_openpty os) \<and>
     (\<forall>fd. sends_nothing sent (pt_no_block os fd)) \<and> (\<forall>rs ws. sends_nothing sent (pt_select os rs ws)) \<and>
     (\<forall>h as m n. sends_nothing sent (pt_spawn os h as m n)) \<and> sends_nothing sent (pt_wait os) \<and>
     sends_nothing sent (pt_now os)"

lemma honest_write: "honest os sent \<Longrightarrow> pt_write os fd d v = (Inr n, v') \<Longrightarrow>
    n \<le> length d \<and> sent v' = (sent v)(fd := sent v fd @ take n d)"
  unfolding honest_def by (elim conjE) (drule spec [of _ fd], drule spec [of _ d], drule spec [of _ v], simp)

lemma honest_fail: "honest os sent \<Longrightarrow> pt_write os fd d v = (Inl e, v') \<Longrightarrow> sent v' = sent v"
  unfolding honest_def by (elim conjE) (drule spec [of _ fd], drule spec [of _ d], drule spec [of _ v], simp)

lemma honest_read: "honest os sent \<Longrightarrow> pt_read os fd n v = (r, v') \<Longrightarrow> sent v' = sent v"
  by (simp add: honest_def sends_nothing_def) (metis snd_conv)

lemma honest_read_length: "honest os sent \<Longrightarrow> pt_read os fd n v = (Inr d, v') \<Longrightarrow> length d \<le> n"
  unfolding honest_def by (elim conjE) (drule spec [of _ fd], drule spec [of _ n], drule spec [of _ v], simp)

text \<open>The bytes \<open>d\<close> went to descriptor \<open>fd\<close>, and nothing else was sent.\<close>

definition passed :: "('w \<Rightarrow> nat \<Rightarrow> bytes) \<Rightarrow> nat \<Rightarrow> bytes \<Rightarrow> 'w \<Rightarrow> 'w \<Rightarrow> bool" where
  "passed sent fd d v v' \<longleftrightarrow> sent v' = (sent v)(fd := sent v fd @ d)"

lemma passed_nothing: "sent v' = sent v \<Longrightarrow> passed sent fd [] v v'"
  by (simp add: passed_def)

lemma passed_trans: "passed sent fd d v v1 \<Longrightarrow> passed sent fd d' v1 v2 \<Longrightarrow> passed sent fd (d @ d') v v2"
  by (simp add: passed_def)

lemma write_loop_passed:
  "honest os sent \<Longrightarrow> write_loop os fd buf off chunk v = (stop, off', chunk', v') \<Longrightarrow>
   \<exists>d. chunk' = chunk @ d \<and> passed sent fd d v v'"
proof (induction os fd buf off chunk v rule: write_loop.induct)
  case (1 os fd buf off chunk v)
  show ?case
  proof (cases "off < length buf")
    case False
    with 1(3) show ?thesis
      by (auto simp: write_loop.simps [of os fd buf off] intro: passed_nothing)
  next
    case True
    obtain r v1 where w: "pt_write os fd (drop off buf) v = (r, v1)" by fastforce
    show ?thesis
    proof (cases r)
      case (Inl e)
      with True w 1(3) honest_fail [OF 1(2)] show ?thesis
        by (auto simp: write_loop.simps [of os fd buf off] intro: passed_nothing)
    next
      case (Inr n)
      let ?d = "take n (drop off buf)"
      from honest_write [OF 1(2)] w Inr have p: "passed sent fd ?d v v1" by (simp add: passed_def)
      show ?thesis
      proof (cases "n = 0 \<or> length buf < off + n")
        case True
        with \<open>off < length buf\<close> w Inr 1(3) have "chunk' = chunk" "v' = v1"
          by (auto simp: write_loop.simps [of os fd buf off] split: if_splits)
        moreover from True honest_write [OF 1(2) w [unfolded Inr]] \<open>off < length buf\<close> have "n = 0" by auto
        with p have "passed sent fd [] v v1" by simp
        ultimately show ?thesis by auto
      next
        case False
        with \<open>off < length buf\<close> w Inr 1(3) have
          "write_loop os fd buf (off + n) (chunk @ ?d) v1 = (stop, off', chunk', v')"
          by (simp add: write_loop.simps [of os fd buf off])
        from 1(1) [OF \<open>off < length buf\<close> w [symmetric, unfolded Inr] refl] False 1(2) this obtain d where
          "chunk' = (chunk @ ?d) @ d" "passed sent fd d v1 v'" by auto
        with passed_trans [OF p] show ?thesis by auto
      qed
    qed
  qed
qed

text \<open>What a step of a piper does: it stays between the same descriptors, and what it adds to the chunk was passed on.\<close>

definition piped :: "('w \<Rightarrow> nat \<Rightarrow> bytes) \<Rightarrow> 'w piping \<Rightarrow> bytes \<Rightarrow> 'w piping \<Rightarrow> bool" where
  "piped sent s d s' \<longleftrightarrow> pp_read (pg_piper s') = pp_read (pg_piper s) \<and> pp_write (pg_piper s') = pp_write (pg_piper s) \<and>
     passed sent (pp_write (pg_piper s)) d (pg_world s) (pg_world s')"

lemma piped_trans: "piped sent s d s1 \<Longrightarrow> piped sent s1 d' s2 \<Longrightarrow> piped sent s (d @ d') s2"
  by (auto simp: piped_def intro: passed_trans)

lemma write_buf_piped:
  assumes "honest os sent" and "write_buf os chunk s = (Ok chunk', s')"
  shows "\<exists>d. chunk' = chunk @ d \<and> piped sent s d s'"
proof -
  obtain stop off c v where l: "write_loop os (pp_write (pg_piper s)) (pp_buf (pg_piper s)) 0 chunk (pg_world s) = (stop, off, c, v)"
    by (metis prod_cases4)
  with write_loop_passed [OF assms(1) l] assms(2) show ?thesis
    by (cases stop) (auto simp: write_buf_def piped_def Let_def errno_def eff_defs split: nix_error.splits if_splits)
qed

lemma read_buf_run:
  assumes "read_buf os s = (Ok r, s')"
  shows "4096 \<le> length (pp_mem (pg_piper s)) \<and> (\<exists>v answer. pt_read os (pp_read (pg_piper s)) 4096 (pg_world s) = (answer, v) \<and>
    pg_world s' = v \<and> pp_read (pg_piper s') = pp_read (pg_piper s) \<and> pp_write (pg_piper s') = pp_write (pg_piper s) \<and>
    (case r of
       Blocked \<Rightarrow> pp_mem (pg_piper s') = pp_mem (pg_piper s) \<and> pp_len (pg_piper s') = 0 \<and> answer = Inl (Sys ''EAGAIN'')
     | Ended \<Rightarrow> answer = Inr []
     | More \<Rightarrow> \<exists>d. answer = Inr d \<and> d \<noteq> [] \<and> pp_len (pg_piper s') = length d \<and>
         pp_mem (pg_piper s') = d @ drop (length d) (pp_mem (pg_piper s))))"
  using assms
  by (auto simp: read_buf_def errno_def eff_defs split: if_splits prod.splits sum.splits nix_error.splits)

lemma read_buf_piped:
  assumes "honest os sent" and "read_buf os s = (Ok r, s')"
  shows "piped sent s [] s'"
  using read_buf_run [OF assms(2)] honest_read [OF assms(1)]
  by (auto simp: piped_def intro: passed_nothing)

lemma pipe_loop_piped:
  assumes "honest os sent"
  shows "pipe_loop os n chunk s = (Ok r, s') \<Longrightarrow> \<exists>d. eof_bytes r = chunk @ d \<and> piped sent s d s'"
proof (induction n arbitrary: chunk s)
  case 0
  then show ?case by (simp add: diverge_def)
next
  case (Suc n)
  then obtain c1 s1 st s2 where w: "write_buf os chunk s = (Ok c1, s1)" and r: "read_buf os s1 = (Ok st, s2)"
    and k: "(case st of Blocked \<Rightarrow> ret \<lparr>eof_bytes = c1, eof_seen = False\<rparr>
       | Ended \<Rightarrow> ret \<lparr>eof_bytes = c1, eof_seen = True\<rparr> | More \<Rightarrow> pipe_loop os n c1) s2 = (Ok r, s')"
    by (auto dest!: bnd_OkD)
  from write_buf_piped [OF assms w] obtain d where d: "c1 = chunk @ d" "piped sent s d s1" by blast
  from piped_trans [OF d(2) read_buf_piped [OF assms r]] have p: "piped sent s d s2" by simp
  show ?case
  proof (cases st)
    case More
    with k Suc.IH [of c1 s2] obtain d' where "eof_bytes r = c1 @ d'" "piped sent s2 d' s'" by auto
    with piped_trans [OF p] d(1) show ?thesis by auto
  qed (use k d(1) p in \<open>auto simp: ret_def\<close>)
qed

text \<open>
  C28: A piper reports exactly what it passed on. Whatever the writes took and wherever they or the
  reads stopped, the data \<open>pipe_some\<close> answers is what its target was sent in the meantime, in order;
  nothing else was sent anywhere.
\<close>

theorem piper_reports_what_passed:
  assumes "honest os sent" and "pipe_some os fuel s = (Ok r, s')"
  shows "sent (pg_world s') = (sent (pg_world s))(pp_write (pg_piper s) :=
     sent (pg_world s) (pp_write (pg_piper s)) @ eof_bytes r)"
  using pipe_loop_piped [OF assms(1), of fuel "[]" s] assms(2)
  by (auto simp: pipe_some_def piped_def passed_def)

text \<open>What a descriptor gives: these chunks, one at a time, all of each taken by the other, and then nothing more or its end.\<close>

inductive supplies :: "'w pty_os \<Rightarrow> nat \<Rightarrow> nat \<Rightarrow> 'w \<Rightarrow> bytes list \<Rightarrow> bool \<Rightarrow> 'w \<Rightarrow> bool" for os rd wr where
  supplies_blocked: "pt_read os rd 4096 v = (Inl (Sys ''EAGAIN''), v') \<Longrightarrow> supplies os rd wr v [] False v'"
| supplies_end: "pt_read os rd 4096 v = (Inr [], v') \<Longrightarrow> supplies os rd wr v [] True v'"
| supplies_chunk: "pt_read os rd 4096 v = (Inr d, v1) \<Longrightarrow> d \<noteq> [] \<Longrightarrow> length d \<le> 4096 \<Longrightarrow>
    pt_write os wr d v1 = (Inr (length d), v2) \<Longrightarrow> supplies os rd wr v2 ds eof v' \<Longrightarrow>
    supplies os rd wr v (d # ds) eof v'"

lemma write_loop_whole:
  assumes "d \<noteq> []" and "pt_write os fd d v = (Inr (length d), v1)"
  shows "write_loop os fd d 0 chunk v = (Drained, length d, chunk @ d, v1)"
  using assms by (simp add: write_loop.simps [of os fd d 0] write_loop.simps [of os fd d "length d"])

lemma write_buf_empty: "pp_len (pg_piper s) = 0 \<Longrightarrow> write_buf os chunk s = (Ok chunk, s)"
  by (simp add: write_buf_def pp_buf_def write_loop.simps)

lemma write_buf_whole:
  "pp_buf (pg_piper s) = d \<Longrightarrow> d \<noteq> [] \<Longrightarrow>
   pt_write os (pp_write (pg_piper s)) d (pg_world s) = (Inr (length d), v) \<Longrightarrow>
   write_buf os chunk s = (Ok (chunk @ d), s\<lparr>pg_world := v\<rparr>)"
  by (simp add: write_buf_def write_loop_whole)

lemma pipe_loop_supplied:
  assumes "supplies os rd wr v ds eof v'"
  shows "write_buf os chunk s = (Ok chunk1, s1) \<Longrightarrow> pg_world s1 = v \<Longrightarrow> length (pp_mem (pg_piper s1)) = 4096 \<Longrightarrow>
    pp_read (pg_piper s1) = rd \<Longrightarrow> pp_write (pg_piper s1) = wr \<Longrightarrow>
    \<exists>s'. pipe_loop os (Suc (length ds)) chunk s = (Ok \<lparr>eof_bytes = chunk1 @ concat ds, eof_seen = eof\<rparr>, s') \<and>
      pg_world s' = v'"
  using assms
proof (induction arbitrary: chunk chunk1 s s1 rule: supplies.induct)
  case (supplies_blocked v v')
  then show ?case by (simp add: read_buf_def errno_def eff_defs)
next
  case (supplies_end v v')
  then show ?case by (simp add: read_buf_def eff_defs)
next
  case (supplies_chunk v d v1 v2 ds eof v')
  let ?s = "s1\<lparr>pg_world := v1, pg_piper := (pg_piper s1)
     \<lparr>pp_mem := d @ drop (length d) (pp_mem (pg_piper s1)), pp_len := length d\<rparr>\<rparr>"
  have read: "read_buf os s1 = (Ok More, ?s)"
    using supplies_chunk.prems supplies_chunk.hyps(1,2) by (simp add: read_buf_def eff_defs)
  have "write_buf os chunk1 ?s = (Ok (chunk1 @ d), ?s\<lparr>pg_world := v2\<rparr>)"
    by (rule write_buf_whole) (use supplies_chunk in \<open>simp_all add: pp_buf_def\<close>)
  from supplies_chunk.IH [OF this] supplies_chunk.prems supplies_chunk.hyps(3) obtain s' where
    "pipe_loop os (Suc (length ds)) chunk1 ?s =
       (Ok \<lparr>eof_bytes = (chunk1 @ d) @ concat ds, eof_seen = eof\<rparr>, s')" "pg_world s' = v'" by auto
  with supplies_chunk.prems(1) read show ?case by (simp add: bnd_def)
qed

text \<open>
  C29: A piper passes everything on and returns. When its source gives any number of chunks and
  then nothing more or its end, and its target takes each chunk whole, \<open>pipe_some\<close> returns after
  one turn for each chunk and one more, with all of them and with whether the end was seen.
\<close>

theorem piper_returns:
  assumes "supplies os (pp_read (pg_piper s)) (pp_write (pg_piper s)) (pg_world s) ds eof v'"
    and "pp_len (pg_piper s) = 0" and "length (pp_mem (pg_piper s)) = 4096"
  shows "\<exists>s'. pipe_some os (length ds + 1) s = (Ok \<lparr>eof_bytes = concat ds, eof_seen = eof\<rparr>, s') \<and>
    pg_world s' = v'"
  using pipe_loop_supplied [OF assms(1) write_buf_empty [OF assms(2), of os "[]"]] assms(3)
  by (simp add: pipe_some_def)

text \<open>
  A target that would block makes the piper's behaviour undefined. When less than a full buffer
  was read and the target is not ready to take any of it, the rest is moved to memory of just its
  size, and the next \<open>set_len(4096)\<close> goes beyond that memory before the read writes there.
\<close>

lemma blocked_target_undefined:
  assumes "pp_len (pg_piper s) = 0" and "length (pp_mem (pg_piper s)) = 4096"
    and "pt_read os (pp_read (pg_piper s)) 4096 (pg_world s) = (Inr d, v)" and "d \<noteq> []" and "length d < 4096"
    and "pt_write os (pp_write (pg_piper s)) d v = (Inl (Sys ''EAGAIN''), v')"
  shows "fst (pipe_some os (Suc (Suc n)) s) = Panic ''set_len beyond capacity''"
proof -
  let ?s = "s\<lparr>pg_world := v, pg_piper := (pg_piper s)
     \<lparr>pp_mem := d @ drop (length d) (pp_mem (pg_piper s)), pp_len := length d\<rparr>\<rparr>"
  have "read_buf os s = (Ok More, ?s)"
    using assms by (simp add: read_buf_def eff_defs)
  moreover have "write_buf os [] ?s = (Ok [], ?s\<lparr>pg_world := v', pg_piper := (pg_piper ?s)
      \<lparr>pp_mem := d, pp_len := length d\<rparr>\<rparr>)"
    using assms(4,6)
    by (simp add: write_buf_def pp_buf_def write_loop.simps [of os _ d 0] errno_def Let_def eff_defs)
  ultimately show ?thesis
    using assms(5) write_buf_empty [OF assms(1), of os "[]"]
    by (simp add: pipe_some_def bnd_def) (simp add: read_buf_def eff_defs)
qed

section \<open>The pipers of a session\<close>

definition ready :: "piper \<Rightarrow> bool" where
  "ready p \<longleftrightarrow> pp_len p = 0 \<and> length (pp_mem p) = 4096"

lemma write_buf_memory:
  assumes "write_buf os chunk s = (Ok c, s')" and "length (pp_mem (pg_piper s)) \<le> 4096"
  shows "length (pp_mem (pg_piper s')) \<le> 4096"
  using assms
  by (auto simp: write_buf_def errno_def Let_def pp_buf_def eff_defs
      split: prod.splits write_stop.splits nix_error.splits if_splits)

lemma pipe_loop_ready:
  assumes "honest os sent"
  shows "pipe_loop os n chunk s = (Ok r, s') \<Longrightarrow> length (pp_mem (pg_piper s)) \<le> 4096 \<Longrightarrow> \<not> eof_seen r \<Longrightarrow>
    ready (pg_piper s')"
proof (induction n arbitrary: chunk s)
  case 0
  then show ?case by (simp add: diverge_def)
next
  case (Suc n)
  from Suc.prems(1) obtain c1 s1 st s2 where w: "write_buf os chunk s = (Ok c1, s1)" and r: "read_buf os s1 = (Ok st, s2)"
    and k: "(case st of Blocked \<Rightarrow> ret \<lparr>eof_bytes = c1, eof_seen = False\<rparr>
       | Ended \<Rightarrow> ret \<lparr>eof_bytes = c1, eof_seen = True\<rparr> | More \<Rightarrow> pipe_loop os n c1) s2 = (Ok r, s')"
    by (auto dest!: bnd_OkD)
  from write_buf_memory [OF w Suc.prems(2)] read_buf_run [OF r]
  have mem: "length (pp_mem (pg_piper s1)) = 4096" by linarith
  show ?case
  proof (cases st)
    case Blocked
    with k read_buf_run [OF r] mem show ?thesis by (auto simp: ret_def ready_def)
  next
    case Ended
    with k Suc.prems(3) show ?thesis by (auto simp: ret_def)
  next
    case More
    with read_buf_run [OF r] honest_read_length [OF assms] mem have "length (pp_mem (pg_piper s2)) \<le> 4096"
      by fastforce
    with Suc.IH [of c1 s2] k More Suc.prems(3) show ?thesis by simp
  qed
qed

text \<open>The states of a session between turns of its loop.\<close>

inductive sess_reach :: "'w pty_os \<Rightarrow> (entry \<Rightarrow> ('k, unit) eff) \<Rightarrow> duration \<Rightarrow> nat \<Rightarrow> ('k, 'w) session \<Rightarrow> bool"
  for os accept start master where
  sess_start: "length mem = 4096 \<Longrightarrow> length mem' = 4096 \<Longrightarrow> se_input s = piper_new mem (pt_stdin os) master \<Longrightarrow>
    se_output s = piper_new mem' master (pt_stdout os) \<Longrightarrow> sess_reach os accept start master s"
| sess_turn: "sess_reach os accept start master s \<Longrightarrow>
    record_turn os fuel accept start master s = (Ok True, s') \<Longrightarrow> sess_reach os accept start master s'"

text \<open>Steps of a session that leave its pipers alone.\<close>

definition apart :: "('k, 'w) session \<Rightarrow> ('k, 'w) session \<Rightarrow> bool" where
  "apart s s' \<longleftrightarrow> se_input s' = se_input s \<and> se_output s' = se_output s"

lemma on_world_OkD: "on_world m s = (Ok a, s') \<Longrightarrow> m (se_world s) = (Ok a, se_world s') \<and>
    se_input s' = se_input s \<and> se_output s' = se_output s \<and> se_sink s' = se_sink s"
  by (auto simp: on_world_def zoom_def split: prod.splits)

lemma on_sink_OkD: "on_sink m s = (Ok a, s') \<Longrightarrow> m (se_sink s) = (Ok a, se_sink s') \<and>
    se_input s' = se_input s \<and> se_output s' = se_output s \<and> se_world s' = se_world s"
  by (auto simp: on_sink_def zoom_def split: prod.splits)

lemma on_input_OkD: "on_input m s = (Ok a, s') \<Longrightarrow>
    m \<lparr>pg_piper = se_input s, pg_world = se_world s\<rparr> = (Ok a, \<lparr>pg_piper = se_input s', pg_world = se_world s'\<rparr>) \<and>
    se_output s' = se_output s \<and> se_sink s' = se_sink s"
  by (auto simp: on_input_def zoom_def split: prod.splits)

lemma on_output_OkD: "on_output m s = (Ok a, s') \<Longrightarrow>
    m \<lparr>pg_piper = se_output s, pg_world = se_world s\<rparr> = (Ok a, \<lparr>pg_piper = se_output s', pg_world = se_world s'\<rparr>) \<and>
    se_input s' = se_input s \<and> se_sink s' = se_sink s"
  by (auto simp: on_output_def zoom_def split: prod.splits)

lemma on_world_apart: "on_world m s = (Ok a, s') \<Longrightarrow> apart s s'"
  by (auto simp: apart_def dest: on_world_OkD)

lemma accept_apart: "accept_now os accept start ev s = (Ok (), s') \<Longrightarrow> apart s s'"
  by (auto simp: accept_now_def apart_def dest!: bnd_OkD on_world_OkD on_sink_OkD)

lemma note_config_apart: "note_config os accept start master s = (Ok (), s') \<Longrightarrow> apart s s'"
  by (auto simp: note_config_def Let_def ret_def gets_def upd_def dest!: bnd_OkD thn_OkD on_world_apart accept_apart
      split: if_splits) (auto simp: apart_def)

lemma pump_input_ready:
  assumes "honest os sent" and "pump_input os fuel accept start s = (Ok (), s')" and "ready (se_input s)"
  shows "ready (se_input s') \<and> se_output s' = se_output s"
proof -
  from bnd_OkD [OF assms(2) [unfolded pump_input_def]] obtain r s1 where r: "on_input (pipe_some os fuel) s = (Ok r, s1)"
    and "thn (accept_now os accept start (Input (eof_bytes r))) ((if eof_seen r then panic ''explicit panic'' else ret ())) s1 = (Ok (), s')" by blast
  from thn_OkD [OF this(2)] obtain s2 where "accept_now os accept start (Input (eof_bytes r)) s1 = (Ok (), s2)"
    and k: "(if eof_seen r then panic ''explicit panic'' else ret ()) s2 = (Ok (), s')" by auto
  then have "apart s1 s2" "s' = s2" "\<not> eof_seen r"
    using accept_apart by (auto simp: panic_def ret_def split: if_splits)
  moreover from on_input_OkD [OF r] pipe_loop_ready [OF assms(1), of fuel "[]"] assms(3) \<open>\<not> eof_seen r\<close>
  have "ready (se_input s1) \<and> se_output s1 = se_output s"
    by (fastforce simp: pipe_some_def ready_def)
  ultimately show ?thesis by (simp add: apart_def)
qed

lemma pump_output_ready:
  assumes "honest os sent" and "pump_output os fuel accept start s = (Ok True, s')" and "ready (se_output s)"
  shows "ready (se_output s') \<and> se_input s' = se_input s"
proof -
  from bnd_OkD [OF assms(2) [unfolded pump_output_def]] obtain r s1 where r: "on_output (pipe_some os fuel) s = (Ok r, s1)"
    and "thn (accept_now os accept start (Output (eof_bytes r))) (ret (\<not> eof_seen r)) s1 = (Ok True, s')" by blast
  from thn_OkD [OF this(2)] obtain s2 where "accept_now os accept start (Output (eof_bytes r)) s1 = (Ok (), s2)"
    and k: "ret (\<not> eof_seen r) s2 = (Ok True, s')" by auto
  then have "apart s1 s2" "s' = s2" "\<not> eof_seen r"
    using accept_apart by (auto simp: ret_def)
  moreover from on_output_OkD [OF r] pipe_loop_ready [OF assms(1), of fuel "[]"] assms(3) \<open>\<not> eof_seen r\<close>
  have "ready (se_output s1) \<and> se_input s1 = se_input s"
    by (fastforce simp: pipe_some_def ready_def)
  ultimately show ?thesis by (simp add: apart_def)
qed

lemma turn_parts:
  assumes "record_turn os fuel accept start master s = (Ok go, s')"
  shows "\<exists>s1 s2 s3 readable writable. note_config os accept start master s = (Ok (), s1) \<and>
    on_world (unwrap (from_nix (pt_select os {master, pt_stdin os} (write_interest os master s1)))) s1 =
      (Ok (readable, writable), s2) \<and>
    (if pt_stdin os \<in> readable \<or> master \<in> writable then pump_input os fuel accept start else ret ()) s2 = (Ok (), s3) \<and>
    (if master \<in> readable \<or> pt_stdout os \<in> writable then pump_output os fuel accept start else ret True) s3 = (Ok go, s')"
  using assms unfolding record_turn_def
  by (fastforce simp: gets_def dest!: thn_OkD bnd_OkD split: prod.splits)

lemma sess_reach_ready:
  assumes "honest os sent"
  shows "sess_reach os accept start master s \<Longrightarrow> ready (se_input s) \<and> ready (se_output s)"
proof (induction rule: sess_reach.induct)
  case (sess_start mem mem' s)
  then show ?case by (simp add: ready_def piper_new_def)
next
  case (sess_turn s fuel s')
  from turn_parts [OF sess_turn.hyps(2)] obtain s1 s2 s3 readable writable where
    p: "note_config os accept start master s = (Ok (), s1)"
      "on_world (unwrap (from_nix (pt_select os {master, pt_stdin os} (write_interest os master s1)))) s1 =
        (Ok (readable, writable), s2)"
      "(if pt_stdin os \<in> readable \<or> master \<in> writable then pump_input os fuel accept start else ret ()) s2 = (Ok (), s3)"
      "(if master \<in> readable \<or> pt_stdout os \<in> writable then pump_output os fuel accept start else ret True) s3 = (Ok True, s')"
    by blast
  from note_config_apart [OF p(1)] on_world_apart [OF p(2)] sess_turn.IH
  have "ready (se_input s2) \<and> ready (se_output s2)" by (simp add: apart_def)
  with p(3) pump_input_ready [OF assms] have "ready (se_input s3) \<and> ready (se_output s3)"
    by (fastforce simp: ret_def split: if_splits)
  with p(4) pump_output_ready [OF assms] show ?case
    by (fastforce simp: ret_def split: if_splits)
qed

text \<open>
  The recorder never waits for a target to take more. In every state of a session between
  turns of its loop both buffers are empty, so \<open>select\<close> is never asked about writing: what a target
  did not take at once is never retried.
\<close>

lemma never_waits_to_write:
  assumes "honest os sent" and "sess_reach os accept start master s"
  shows "pp_buf (se_input s) = [] \<and> pp_buf (se_output s) = [] \<and> write_interest os master s = {}"
  using sess_reach_ready [OF assms] by (simp add: ready_def pp_buf_def write_interest_def)

section \<open>When it is passed on\<close>

text \<open>
  An operating system whose state also tells the time, and when each byte came to the standard
  output: no call turns time back, the bytes a write brings there have come by the time it returns,
  no other call brings any, and the time asked for is no earlier than the question.
\<close>

definition stamped :: "('w \<Rightarrow> nat list) \<Rightarrow> ('w \<Rightarrow> nat) \<Rightarrow> nat \<Rightarrow> 'w \<Rightarrow> 'w \<Rightarrow> bool" where
  "stamped stamps tm k v v' \<longleftrightarrow> tm v \<le> tm v' \<and>
     (\<exists>ss. stamps v' = stamps v @ ss \<and> length ss = k \<and> (\<forall>s \<in> set ss. s \<le> tm v'))"

definition lasts :: "('w \<Rightarrow> nat list) \<Rightarrow> ('w \<Rightarrow> nat) \<Rightarrow> ('w \<Rightarrow> 'a \<times> 'w) \<Rightarrow> bool" where
  "lasts stamps tm call \<longleftrightarrow> (\<forall>v. stamped stamps tm 0 v (snd (call v)))"

definition dated :: "'w pty_os \<Rightarrow> ('w \<Rightarrow> nat \<Rightarrow> bytes) \<Rightarrow> ('w \<Rightarrow> nat list) \<Rightarrow> ('w \<Rightarrow> nat) \<Rightarrow> bool" where
  "dated os sent stamps tm \<longleftrightarrow> honest os sent \<and>
     (\<forall>fd d v. case pt_write os fd d v of
        (Inl e, v') \<Rightarrow> stamped stamps tm 0 v v'
      | (Inr n, v') \<Rightarrow> stamped stamps tm (if fd = pt_stdout os then n else 0) v v') \<and>
     (\<forall>fd n. lasts stamps tm (pt_read os fd n)) \<and> (\<forall>fd. lasts stamps tm (pt_tcgetattr os fd)) \<and>
     (\<forall>fd t. lasts stamps tm (pt_tcsetattr os fd t)) \<and> lasts stamps tm (pt_openpty os) \<and>
     (\<forall>fd. lasts stamps tm (pt_no_block os fd)) \<and> (\<forall>rs ws. lasts stamps tm (pt_select os rs ws)) \<and>
     (\<forall>h as m n. lasts stamps tm (pt_spawn os h as m n)) \<and> lasts stamps tm (pt_wait os) \<and>
     lasts stamps tm (pt_now os) \<and> (\<forall>v. tm v \<le> fst (pt_now os v))"

lemma dated_honest: "dated os sent stamps tm \<Longrightarrow> honest os sent"
  by (simp add: dated_def)

lemma stamped_refl: "stamped stamps tm 0 v v"
  by (simp add: stamped_def)

lemma stamped_trans:
  "stamped stamps tm k v v1 \<Longrightarrow> stamped stamps tm k' v1 v2 \<Longrightarrow> stamped stamps tm (k + k') v v2"
  unfolding stamped_def by (fastforce intro: order_trans)

lemma dated_fail: "dated os sent stamps tm \<Longrightarrow> pt_write os fd d v = (Inl e, v') \<Longrightarrow> stamped stamps tm 0 v v'"
  unfolding dated_def by (elim conjE) (drule spec [of _ fd], drule spec [of _ d], drule spec [of _ v], simp)

lemma dated_write: "dated os sent stamps tm \<Longrightarrow> pt_write os fd d v = (Inr n, v') \<Longrightarrow>
    stamped stamps tm (if fd = pt_stdout os then n else 0) v v'"
  unfolding dated_def by (elim conjE) (drule spec [of _ fd], drule spec [of _ d], drule spec [of _ v], simp)

text \<open>Of a call that sends nothing: neither what was sent nor when changes.\<close>

definition traffic :: "('w \<Rightarrow> nat \<Rightarrow> bytes) \<Rightarrow> ('w \<Rightarrow> nat list) \<Rightarrow> 'w \<Rightarrow> (nat \<Rightarrow> bytes) \<times> nat list" where
  "traffic sent stamps = (\<lambda>v. (sent v, stamps v))"

lemma no_traffic: "sends_nothing sent call \<Longrightarrow> lasts stamps tm call \<Longrightarrow> sends_nothing (traffic sent stamps) call"
  by (simp add: sends_nothing_def lasts_def stamped_def traffic_def)

lemma dated_quiet:
  assumes "dated os sent stamps tm"
  shows "sends_nothing (traffic sent stamps) (pt_tcgetattr os fd)" "sends_nothing (traffic sent stamps) (pt_tcsetattr os fd t)"
    "sends_nothing (traffic sent stamps) (pt_openpty os)" "sends_nothing (traffic sent stamps) (pt_no_block os fd)"
    "sends_nothing (traffic sent stamps) (pt_select os rs ws)" "sends_nothing (traffic sent stamps) (pt_spawn os h as m n)"
    "sends_nothing (traffic sent stamps) (pt_wait os)" "sends_nothing (traffic sent stamps) (pt_now os)"
  using assms by (simp_all add: dated_def honest_def no_traffic [where tm = tm])

lemma write_loop_stamped:
  "dated os sent stamps tm \<Longrightarrow> write_loop os fd buf off chunk v = (stop, off', chunk', v') \<Longrightarrow>
   stamped stamps tm (if fd = pt_stdout os then length chunk' - length chunk else 0) v v' \<and> length chunk \<le> length chunk'"
proof (induction os fd buf off chunk v rule: write_loop.induct)
  case (1 os fd buf off chunk v)
  show ?case
  proof (cases "off < length buf")
    case False
    with 1(3) show ?thesis
      by (auto simp: write_loop.simps [of os fd buf off] intro: stamped_refl)
  next
    case True
    obtain r v1 where w: "pt_write os fd (drop off buf) v = (r, v1)" by fastforce
    show ?thesis
    proof (cases r)
      case (Inl e)
      with True w 1(3) dated_fail [OF 1(2)] show ?thesis
        by (auto simp: write_loop.simps [of os fd buf off])
    next
      case (Inr n)
      from dated_write [OF 1(2) w [unfolded Inr]] have p: "stamped stamps tm (if fd = pt_stdout os then n else 0) v v1" .
      from honest_write [OF dated_honest [OF 1(2)] w [unfolded Inr]] True have n: "off + n \<le> length buf" by auto
      show ?thesis
      proof (cases "n = 0")
        case True
        with \<open>off < length buf\<close> w Inr 1(3) p show ?thesis
          by (auto simp: write_loop.simps [of os fd buf off] split: if_splits)
      next
        case False
        with \<open>off < length buf\<close> w Inr 1(3) n have
          "write_loop os fd buf (off + n) (chunk @ take n (drop off buf)) v1 = (stop, off', chunk', v')"
          by (simp add: write_loop.simps [of os fd buf off])
        from 1(1) [OF \<open>off < length buf\<close> w [symmetric, unfolded Inr] refl] False n 1(2) this
        have "stamped stamps tm (if fd = pt_stdout os then length chunk' - (length chunk + n) else 0) v1 v'"
          "length chunk + n \<le> length chunk'" by auto
        with stamped_trans [OF p this(1)] show ?thesis by (auto split: if_splits)
      qed
    qed
  qed
qed

lemma write_buf_stamped:
  assumes "dated os sent stamps tm" and "write_buf os chunk s = (Ok chunk', s')"
  shows "stamped stamps tm (if pp_write (pg_piper s) = pt_stdout os then length chunk' - length chunk else 0)
    (pg_world s) (pg_world s')"
proof -
  obtain stop off c v where l: "write_loop os (pp_write (pg_piper s)) (pp_buf (pg_piper s)) 0 chunk (pg_world s) = (stop, off, c, v)"
    by (metis prod_cases4)
  then have "chunk' = c" "pg_world s' = v"
    using assms(2) by (cases stop; auto simp: write_buf_def Let_def errno_def eff_defs split: nix_error.splits if_splits)+
  with write_loop_stamped [OF assms(1) l] show ?thesis by (auto split: if_splits)
qed

lemma read_buf_stamped:
  assumes "dated os sent stamps tm" and "read_buf os s = (Ok r, s')"
  shows "stamped stamps tm 0 (pg_world s) (pg_world s')"
proof -
  have "lasts stamps tm (pt_read os (pp_read (pg_piper s)) 4096)" using assms(1) by (simp add: dated_def)
  with read_buf_run [OF assms(2)] show ?thesis by (metis lasts_def snd_conv)
qed

lemma pipe_loop_stamped:
  assumes "dated os sent stamps tm"
  shows "pipe_loop os n chunk s = (Ok r, s') \<Longrightarrow>
    stamped stamps tm (if pp_write (pg_piper s) = pt_stdout os then length (eof_bytes r) - length chunk else 0)
      (pg_world s) (pg_world s')"
proof (induction n arbitrary: chunk s)
  case 0
  then show ?case by (simp add: diverge_def)
next
  case (Suc n)
  then obtain c1 s1 st s2 where w: "write_buf os chunk s = (Ok c1, s1)" and r: "read_buf os s1 = (Ok st, s2)"
    and k: "(case st of Blocked \<Rightarrow> ret \<lparr>eof_bytes = c1, eof_seen = False\<rparr>
       | Ended \<Rightarrow> ret \<lparr>eof_bytes = c1, eof_seen = True\<rparr> | More \<Rightarrow> pipe_loop os n c1) s2 = (Ok r, s')"
    by (auto dest!: bnd_OkD)
  note h = dated_honest [OF assms]
  from write_buf_piped [OF h w] obtain d where d: "c1 = chunk @ d" "piped sent s d s1" by blast
  from piped_trans [OF d(2) read_buf_piped [OF h r]] have same: "pp_write (pg_piper s2) = pp_write (pg_piper s)"
    by (simp add: piped_def)
  from stamped_trans [OF write_buf_stamped [OF assms w] read_buf_stamped [OF assms r]]
  have p: "stamped stamps tm (if pp_write (pg_piper s) = pt_stdout os then length d else 0) (pg_world s) (pg_world s2)"
    by (auto simp: d(1) split: if_splits)
  show ?case
  proof (cases st)
    case More
    with k have l: "pipe_loop os n c1 s2 = (Ok r, s')" by simp
    from pipe_loop_piped [OF h l] have "length c1 \<le> length (eof_bytes r)" by auto
    with stamped_trans [OF p Suc.IH [OF l]] same d(1) show ?thesis by (auto split: if_splits)
  qed (use k d(1) p in \<open>auto simp: ret_def\<close>)
qed

section \<open>A session and its recording\<close>

text \<open>
  \<open>recorded c sent stamps start m o s rs s'\<close>: from \<open>s\<close> to \<open>s'\<close> the records \<open>rs\<close> were added to the file,
  what was sent to the master \<open>m\<close> and to the standard output \<open>o\<close> is their inputs and outputs, and no
  byte came to the standard output later after \<open>start\<close> than its record says.
\<close>

definition due :: "entry list \<Rightarrow> nat list" where
  "due rs = concat (map (\<lambda>r. case event r of Output d \<Rightarrow> replicate (length d) (ts r) | _ \<Rightarrow> []) rs)"

lemma due_simps [simp]: "due [] = []" "due (rs @ rs') = due rs @ due rs'"
  "due (r # rs) = (case event r of Output d \<Rightarrow> replicate (length d) (ts r) | _ \<Rightarrow> []) @ due rs"
  by (simp_all add: due_def)

definition on_time :: "('w \<Rightarrow> nat list) \<Rightarrow> nat \<Rightarrow> 'w \<Rightarrow> entry list \<Rightarrow> 'w \<Rightarrow> bool" where
  "on_time stamps start v rs v' \<longleftrightarrow> (\<exists>ss. stamps v' = stamps v @ ss \<and> list_all2 (\<lambda>s t. s - start \<le> t) ss (due rs))"

lemma on_time_nothing: "due rs = [] \<Longrightarrow> on_time stamps start v rs v' \<longleftrightarrow> stamps v' = stamps v"
  by (simp add: on_time_def list_all2_Nil2)

lemma on_time_trans: "on_time stamps start v rs v1 \<Longrightarrow> on_time stamps start v1 rs' v2 \<Longrightarrow> on_time stamps start v (rs @ rs') v2"
  unfolding on_time_def by (fastforce intro: list_all2_appendI)

definition printed :: "codec \<Rightarrow> entry \<Rightarrow> bool" where
  "printed c r \<longleftrightarrow> serialize c r \<noteq> None"

definition recorded :: "codec \<Rightarrow> ('w \<Rightarrow> nat \<Rightarrow> bytes) \<Rightarrow> ('w \<Rightarrow> nat list) \<Rightarrow> nat \<Rightarrow> nat \<Rightarrow> nat \<Rightarrow> (bytes, 'w) session \<Rightarrow>
    entry list \<Rightarrow> (bytes, 'w) session \<Rightarrow> bool" where
  "recorded c sent stamps start m out s rs s' \<longleftrightarrow> se_sink s' = se_sink s @ concat (map (framed c) rs) \<and> list_all (printed c) rs \<and>
     sent (se_world s') = (sent (se_world s))(m := sent (se_world s) m @ concat (inputs rs),
       out := sent (se_world s) out @ concat (outputs rs)) \<and> on_time stamps start (se_world s) rs (se_world s')"

definition linked :: "'w pty_os \<Rightarrow> nat \<Rightarrow> ('k, 'w) session \<Rightarrow> bool" where
  "linked os master s \<longleftrightarrow> pp_write (se_input s) = master \<and> pp_write (se_output s) = pt_stdout os"

lemma recorded_refl: "recorded c sent stamps start m out s [] s' \<longleftrightarrow> se_sink s' = se_sink s \<and>
    traffic sent stamps (se_world s') = traffic sent stamps (se_world s)"
  by (auto simp: recorded_def on_time_nothing traffic_def)

lemma recorded_trans:
  "m \<noteq> out \<Longrightarrow> recorded c sent stamps start m out s rs s1 \<Longrightarrow> recorded c sent stamps start m out s1 rs' s2 \<Longrightarrow> recorded c sent stamps start m out s (rs @ rs') s2"
  by (auto simp: recorded_def fun_eq_iff intro: on_time_trans)

lemma quiet_call:
  assumes "sends_nothing (traffic sent stamps) call" and "on_world (unwrap (from_nix call)) s = (Ok a, s')"
  shows "recorded c sent stamps start m out s [] s' \<and> apart s s'"
proof -
  from on_world_OkD [OF assms(2)] have run: "unwrap (from_nix call) (se_world s) = (Ok a, se_world s')"
    and "se_sink s' = se_sink s" by simp_all
  from run have "snd (call (se_world s)) = se_world s'"
    by (auto simp: unwrap_def from_nix_def split: prod.splits sum.splits)
  with assms(1) have "traffic sent stamps (se_world s') = traffic sent stamps (se_world s)"
    unfolding sends_nothing_def by metis
  then show ?thesis
    using \<open>se_sink s' = se_sink s\<close> on_world_apart [OF assms(2)] by (simp add: recorded_refl)
qed

lemma disk_accept_OkD: "disk_accept c appending r f = (Ok (), f') \<Longrightarrow> f' = f @ framed c r \<and> printed c r"
  by (cases "serialize c r") (auto simp: printed_def disk_accept_def framed_def appending_def eff_defs)

lemma accept_recorded:
  assumes "dated os sent stamps tm" and "accept_now os (disk_accept c appending) start ev s = (Ok (), s')"
  shows "\<exists>r. event r = ev \<and> tm (se_world s) - start \<le> ts r \<and> printed c r \<and> se_sink s' = se_sink s @ framed c r \<and>
    traffic sent stamps (se_world s') = traffic sent stamps (se_world s) \<and> apart s s'"
proof -
  from bnd_OkD [OF assms(2) [unfolded accept_now_def]] obtain now s1 where
    1: "on_world (clock (pt_now os)) s = (Ok now, s1)"
    and 2: "on_sink (disk_accept c appending \<lparr>ts = now - start, event = ev\<rparr>) s1 = (Ok (), s')" by blast
  from on_world_OkD [OF 1] have now: "pt_now os (se_world s) = (now, se_world s1)"
    by (auto simp: clock_def split: prod.splits)
  have "tm (se_world s) \<le> fst (pt_now os (se_world s))" using assms(1) by (simp add: dated_def)
  then have "tm (se_world s) \<le> now" by (simp add: now)
  moreover from now dated_quiet(8) [OF assms(1)] have "traffic sent stamps (se_world s1) = traffic sent stamps (se_world s)"
    unfolding sends_nothing_def by (metis snd_conv)
  ultimately show ?thesis
    using on_world_OkD [OF 1] on_sink_OkD [OF 2] disk_accept_OkD [of c _ "se_sink s1" "se_sink s'"]
    by (intro exI [of _ "\<lparr>ts = now - start, event = ev\<rparr>"]) (simp add: apart_def)
qed

lemma accept_config:
  assumes "dated os sent stamps tm" and "accept_now os (disk_accept c appending) start (Config a) s1 = (Ok (), s')"
    and "recorded c sent stamps start m out s [] s1"
  shows "\<exists>rs. recorded c sent stamps start m out s rs s' \<and> apart s1 s'"
proof -
  from accept_recorded [OF assms(1,2)] obtain r where r: "event r = Config a" "printed c r" "se_sink s' = se_sink s1 @ framed c r"
    "traffic sent stamps (se_world s') = traffic sent stamps (se_world s1)" "apart s1 s'" by blast
  with assms(3) have "recorded c sent stamps start m out s [r] s'"
    by (simp add: recorded_def on_time_nothing traffic_def)
  with r(5) show ?thesis by blast
qed

lemma note_config_recorded:
  assumes "dated os sent stamps tm" and "note_config os (disk_accept c appending) start master s = (Ok (), s')"
  shows "\<exists>rs. recorded c sent stamps start m out s rs s' \<and> apart s s'"
proof -
  from bnd_OkD [OF assms(2) [unfolded note_config_def]] obtain t s1 where
    1: "on_world (unwrap (from_nix (pt_tcgetattr os master))) s = (Ok t, s1)"
    and 2: "(if attrs_from t \<noteq> se_config s1 then
       thn (accept_now os (disk_accept c appending) start (Config (attrs_from t)))
         (upd (\<lambda>s. s\<lparr>se_config := attrs_from t\<rparr>)) else ret ()) s1 = (Ok (), s')"
    by (auto simp: Let_def gets_def bnd_def)
  from quiet_call [OF dated_quiet(1) [OF assms(1)] 1] have q: "recorded c sent stamps start m out s [] s1" "apart s s1" by auto
  show ?thesis
  proof (cases "attrs_from t = se_config s1")
    case True
    with 2 q show ?thesis by (auto simp: ret_def)
  next
    case False
    with 2 obtain s2 where 3: "accept_now os (disk_accept c appending) start (Config (attrs_from t)) s1 = (Ok (), s2)"
      and 4: "s' = s2\<lparr>se_config := attrs_from t\<rparr>"
      by (auto simp: upd_def dest!: thn_OkD)
    from accept_config [OF assms(1) 3 q(1)] obtain rs where "recorded c sent stamps start m out s rs s2" "apart s1 s2" by auto
    with 4 q(2) show ?thesis by (auto simp: recorded_def apart_def)
  qed
qed

lemma pump_input_recorded:
  assumes "dated os sent stamps tm" and "pump_input os fuel (disk_accept c appending) start s = (Ok (), s')"
    and "linked os master s" and "master \<noteq> pt_stdout os"
  shows "\<exists>rs. recorded c sent stamps start master (pt_stdout os) s rs s' \<and> linked os master s'"
proof -
  from bnd_OkD [OF assms(2) [unfolded pump_input_def]] obtain r s1 where r: "on_input (pipe_some os fuel) s = (Ok r, s1)"
    and "thn (accept_now os (disk_accept c appending) start (Input (eof_bytes r)))
      (if eof_seen r then panic ''explicit panic'' else ret ()) s1 = (Ok (), s')" by blast
  from thn_OkD [OF this(2)] obtain s2 where
    k: "accept_now os (disk_accept c appending) start (Input (eof_bytes r)) s1 = (Ok (), s2)"
    and s2: "s' = s2" by (auto simp: panic_def ret_def split: if_splits)
  note run = on_input_OkD [OF r]
  from pipe_loop_piped [OF dated_honest [OF assms(1)], of fuel "[]" "\<lparr>pg_piper = se_input s, pg_world = se_world s\<rparr>"] run
  have p: "piped sent \<lparr>pg_piper = se_input s, pg_world = se_world s\<rparr> (eof_bytes r)
      \<lparr>pg_piper = se_input s1, pg_world = se_world s1\<rparr>" by (auto simp: pipe_some_def)
  from pipe_loop_stamped [OF assms(1), of fuel "[]" "\<lparr>pg_piper = se_input s, pg_world = se_world s\<rparr>"] run assms(3,4)
  have stamps: "stamped stamps tm 0 (se_world s) (se_world s1)" by (auto simp: pipe_some_def linked_def)
  from accept_recorded [OF assms(1) k] obtain e where e: "event e = Input (eof_bytes r)" "tm (se_world s1) - start \<le> ts e"
    "printed c e" "se_sink s2 = se_sink s1 @ framed c e"
    "traffic sent stamps (se_world s2) = traffic sent stamps (se_world s1)" "apart s1 s2" by blast
  from stamps e(2,5) have "on_time stamps start (se_world s) [e] (se_world s2)"
    by (simp add: on_time_nothing stamped_def traffic_def e(1))
  with p run e assms(3,4) have "recorded c sent stamps start master (pt_stdout os) s [e] s'"
    by (simp add: s2 recorded_def piped_def passed_def linked_def traffic_def fun_upd_twist)
  moreover from p run e(6) assms(3) have "linked os master s'"
    by (simp add: s2 linked_def piped_def apart_def)
  ultimately show ?thesis by blast
qed

lemma pump_output_recorded:
  assumes "dated os sent stamps tm" and "pump_output os fuel (disk_accept c appending) start s = (Ok go, s')"
    and "linked os master s" and "master \<noteq> pt_stdout os"
  shows "\<exists>rs. recorded c sent stamps start master (pt_stdout os) s rs s' \<and> linked os master s'"
proof -
  from bnd_OkD [OF assms(2) [unfolded pump_output_def]] obtain r s1 where r: "on_output (pipe_some os fuel) s = (Ok r, s1)"
    and "thn (accept_now os (disk_accept c appending) start (Output (eof_bytes r)))
      (ret (\<not> eof_seen r)) s1 = (Ok go, s')" by blast
  from thn_OkD [OF this(2)] obtain s2 where
    k: "accept_now os (disk_accept c appending) start (Output (eof_bytes r)) s1 = (Ok (), s2)"
    and s2: "s' = s2" by (auto simp: ret_def)
  note run = on_output_OkD [OF r]
  from pipe_loop_piped [OF dated_honest [OF assms(1)], of fuel "[]" "\<lparr>pg_piper = se_output s, pg_world = se_world s\<rparr>"] run
  have p: "piped sent \<lparr>pg_piper = se_output s, pg_world = se_world s\<rparr> (eof_bytes r)
      \<lparr>pg_piper = se_output s1, pg_world = se_world s1\<rparr>" by (auto simp: pipe_some_def)
  from pipe_loop_stamped [OF assms(1), of fuel "[]" "\<lparr>pg_piper = se_output s, pg_world = se_world s\<rparr>"] run assms(3,4)
  have stamps: "stamped stamps tm (length (eof_bytes r)) (se_world s) (se_world s1)" by (auto simp: pipe_some_def linked_def)
  from accept_recorded [OF assms(1) k] obtain e where e: "event e = Output (eof_bytes r)" "tm (se_world s1) - start \<le> ts e"
    "printed c e" "se_sink s2 = se_sink s1 @ framed c e"
    "traffic sent stamps (se_world s2) = traffic sent stamps (se_world s1)" "apart s1 s2" by blast
  from stamps e(2,5) have "on_time stamps start (se_world s) [e] (se_world s2)"
    by (auto simp: on_time_def stamped_def traffic_def e(1) list_all2_conv_all_nth) (metis diff_le_mono le_trans nth_mem)
  with p run e assms(3,4) have "recorded c sent stamps start master (pt_stdout os) s [e] s'"
    by (simp add: s2 recorded_def piped_def passed_def linked_def traffic_def fun_upd_twist)
  moreover from p run e(6) assms(3) have "linked os master s'"
    by (simp add: s2 linked_def piped_def apart_def)
  ultimately show ?thesis by blast
qed

lemma turn_recorded:
  assumes "dated os sent stamps tm" and "record_turn os fuel (disk_accept c appending) start master s = (Ok go, s')"
    and "linked os master s" and "master \<noteq> pt_stdout os"
  shows "\<exists>rs. recorded c sent stamps start master (pt_stdout os) s rs s' \<and> linked os master s'"
proof -
  let ?R = "recorded c sent stamps start master (pt_stdout os)"
  from turn_parts [OF assms(2)] obtain s1 s2 s3 readable writable where
    p: "note_config os (disk_accept c appending) start master s = (Ok (), s1)"
      "on_world (unwrap (from_nix (pt_select os {master, pt_stdin os} (write_interest os master s1)))) s1 =
        (Ok (readable, writable), s2)"
      "(if pt_stdin os \<in> readable \<or> master \<in> writable then pump_input os fuel (disk_accept c appending) start
        else ret ()) s2 = (Ok (), s3)"
      "(if master \<in> readable \<or> pt_stdout os \<in> writable then pump_output os fuel (disk_accept c appending) start
        else ret True) s3 = (Ok go, s')"
    by blast
  from note_config_recorded [OF assms(1) p(1)] obtain r1 where r1: "?R s r1 s1" "apart s s1" by blast
  from quiet_call [OF dated_quiet(5) [OF assms(1)] p(2)] have r2: "?R s1 [] s2" "apart s1 s2" by auto
  from r1 r2 assms(3) have l2: "linked os master s2" by (simp add: linked_def apart_def)
  have same: "?R s [] s" for s by (simp add: recorded_refl)
  have "\<exists>r3. ?R s2 r3 s3 \<and> linked os master s3"
  proof (cases "pt_stdin os \<in> readable \<or> master \<in> writable")
    case True
    with p(3) show ?thesis using pump_input_recorded [OF assms(1) _ l2 assms(4)] by auto
  next
    case False
    with p(3) l2 same show ?thesis by (auto simp: ret_def)
  qed
  then obtain r3 where r3: "?R s2 r3 s3" "linked os master s3" by blast
  have "\<exists>r4. ?R s3 r4 s' \<and> linked os master s'"
  proof (cases "master \<in> readable \<or> pt_stdout os \<in> writable")
    case True
    with p(4) show ?thesis using pump_output_recorded [OF assms(1) _ r3(2) assms(4)] by auto
  next
    case False
    with p(4) r3(2) same show ?thesis by (auto simp: ret_def)
  qed
  then obtain r4 where r4: "?R s3 r4 s'" "linked os master s'" by blast
  from recorded_trans [OF assms(4) recorded_trans [OF assms(4) recorded_trans [OF assms(4) r1(1) r2(1)] r3(1)] r4(1)] r4(2)
  show ?thesis by blast
qed

lemma loop_recorded:
  assumes "dated os sent stamps tm" and "master \<noteq> pt_stdout os"
  shows "record_loop os fuel (disk_accept c appending) start master n s = (Ok (), s') \<Longrightarrow> linked os master s \<Longrightarrow>
    \<exists>rs. recorded c sent stamps start master (pt_stdout os) s rs s'"
proof (induction n arbitrary: s)
  case 0
  then show ?case by (simp add: diverge_def)
next
  case (Suc n)
  from Suc.prems(1) obtain go s1 where
    t: "record_turn os fuel (disk_accept c appending) start master s = (Ok go, s1)"
    and k: "(if go then record_loop os fuel (disk_accept c appending) start master n else ret ()) s1 = (Ok (), s')"
    by (auto dest!: bnd_OkD)
  from turn_recorded [OF assms(1) t Suc.prems(2) assms(2)] obtain rs where
    rs: "recorded c sent stamps start master (pt_stdout os) s rs s1" "linked os master s1" by blast
  show ?case
  proof (cases go)
    case True
    with k Suc.IH [of s1] rs(2) obtain rs' where "recorded c sent stamps start master (pt_stdout os) s1 rs' s'" by auto
    with recorded_trans [OF assms(2) rs(1)] show ?thesis by blast
  qed (use k rs(1) in \<open>auto simp: ret_def\<close>)
qed

text \<open>Operations on the world that send nothing, and the steps before the loop.\<close>

definition silent :: "('w \<Rightarrow> 'b) \<Rightarrow> ('w, 'a) eff \<Rightarrow> bool" where
  "silent sent m \<longleftrightarrow> (\<forall>v. sent (snd (m v)) = sent v)"

lemma silent_calls: "sends_nothing sent c \<Longrightarrow> silent sent (from_nix c)"
    "sends_nothing sent d \<Longrightarrow> silent sent (from_call d)" "sends_nothing sent n \<Longrightarrow> silent sent (clock n)"
    "silent sent m \<Longrightarrow> silent sent (unwrap m)"
  by (auto simp: silent_def sends_nothing_def from_nix_def from_call_def clock_def unwrap_def
      split: prod.split sum.split outcome.split) (metis snd_conv)+

lemma silent_setup: "dated os sent stamps tm \<Longrightarrow> silent (traffic sent stamps) (setup_master os)"
  using dated_quiet(1,2) [of os sent stamps tm]
  by (auto simp: sends_nothing_def silent_def setup_master_def from_nix_def unwrap_def bnd_def
      split: prod.split sum.split outcome.split) (metis snd_conv)+

text \<open>\<open>on_ok m Q s\<close>: if the run returns a value, \<open>Q\<close> holds of it and of the state left.\<close>

definition on_ok :: "('s, 'a) eff \<Rightarrow> ('a \<Rightarrow> 's \<Rightarrow> bool) \<Rightarrow> 's \<Rightarrow> bool" where
  "on_ok m Q s \<longleftrightarrow> (\<forall>a s'. m s = (Ok a, s') \<longrightarrow> Q a s')"

lemma world_step:
  assumes "silent (traffic sent stamps) w" and "recorded c sent stamps start m out s0 rs s" and "on_world w s = (Ok a, s1)"
  shows "recorded c sent stamps start m out s0 rs s1"
proof -
  from on_world_OkD [OF assms(3)] have "se_world s1 = snd (w (se_world s))" "se_sink s1 = se_sink s"
    by simp_all
  with assms(1,2) show ?thesis by (simp add: silent_def recorded_def traffic_def on_time_def)
qed

lemma on_ok_bnd:
  "silent (traffic sent stamps) w \<Longrightarrow> recorded c sent stamps start m out s0 rs s \<Longrightarrow>
   (\<And>a s1. recorded c sent stamps start m out s0 rs s1 \<Longrightarrow> on_ok (f a) Q s1) \<Longrightarrow> on_ok (bnd (on_world w) f) Q s"
  unfolding on_ok_def using world_step by (fastforce dest!: bnd_OkD)

lemma on_ok_thn:
  "silent (traffic sent stamps) w \<Longrightarrow> recorded c sent stamps start m out s0 rs s \<Longrightarrow>
   (\<And>s1. recorded c sent stamps start m out s0 rs s1 \<Longrightarrow> on_ok k Q s1) \<Longrightarrow> on_ok (thn (on_world w) k) Q s"
  unfolding thn_def by (rule on_ok_bnd)

lemma on_ok_expect: "(\<And>a. on_ok (f a) Q s) \<Longrightarrow> on_ok (bnd (expect p x) f) Q s"
  by (auto simp: on_ok_def expect_def panic_def ret_def bnd_def split: option.split)

lemma on_ok_accept:
  assumes "recorded c sent stamps start m out s0 [] s" and "(case event r of Config a \<Rightarrow> True | _ \<Rightarrow> False)"
    and "\<And>s1. recorded c sent stamps start m out s0 [r] s1 \<Longrightarrow> on_ok k Q s1"
  shows "on_ok (thn (on_sink (disk_accept c appending r)) k) Q s"
proof -
  have "recorded c sent stamps start m out s0 [r] s1" if "on_sink (disk_accept c appending r) s = (Ok (), s1)" for s1
    using on_sink_OkD [OF that] disk_accept_OkD [of c r "se_sink s" "se_sink s1"] assms(1,2)
    by (auto simp: recorded_def on_time_nothing split: rec_event.splits)
  then show ?thesis using assms(3) by (fastforce simp: on_ok_def dest!: thn_OkD)
qed

lemma on_ok_upd:
  assumes "recorded c sent stamps start m out s0 rs s" and "recorded c sent stamps start m out s0 rs (g s) \<Longrightarrow> on_ok k Q (g s)"
    and "se_sink (g s) = se_sink s" and "se_world (g s) = se_world s"
  shows "on_ok (thn (upd g) k) Q s"
  using assms by (simp add: recorded_def on_ok_def upd_def thn_def bnd_def)

lemma on_ok_loop:
  assumes "dated os sent stamps tm" and "master \<noteq> pt_stdout os" and "linked os master s"
    and "recorded c sent stamps start master (pt_stdout os) s0 rs s"
  shows "on_ok (thn (record_loop os fuel (disk_accept c appending) start master n) (on_world (from_call (pt_wait os))))
     (\<lambda>_ s'. \<exists>rs. recorded c sent stamps start master (pt_stdout os) s0 rs s') s"
proof -
  note wait = world_step [OF silent_calls(2) [OF dated_quiet(7) [OF assms(1)]]]
  show ?thesis
    unfolding on_ok_def
  proof (intro allI impI)
    fix a s'
    assume "thn (record_loop os fuel (disk_accept c appending) start master n) (on_world (from_call (pt_wait os))) s = (Ok a, s')"
    from thn_OkD [OF this] obtain s1 where
      l: "record_loop os fuel (disk_accept c appending) start master n s = (Ok (), s1)"
      and w: "on_world (from_call (pt_wait os)) s1 = (Ok a, s')" by auto
    from loop_recorded [OF assms(1,2) l assms(3)] obtain rs' where
      "recorded c sent stamps start master (pt_stdout os) s rs' s1" by blast
    from wait [OF recorded_trans [OF assms(2,4) this] w]
    show "\<exists>rs. recorded c sent stamps start master (pt_stdout os) s0 rs s'" by blast
  qed
qed

lemma session_recorded:
  assumes h: "dated os sent stamps tm" and pty: "pt_openpty os (se_world s) = (Inr (master, slave), v0)"
    and now: "pt_now os v0 = (start, v1)" and ne: "master \<noteq> pt_stdout os"
  shows "on_ok (record_session os fuel turns (disk_accept c appending) mem mem' cmd)
    (\<lambda>_ s'. \<exists>rs. recorded c sent stamps start master (pt_stdout os) s rs s') s"
proof -
  let ?s = "s\<lparr>se_world := v1\<rparr>"
  note quiet = dated_quiet [OF h]
  have calls: "silent (traffic sent stamps) (unwrap (from_nix (pt_no_block os fd)))"
    "silent (traffic sent stamps) (unwrap (from_nix (pt_tcgetattr os fd)))"
    "silent (traffic sent stamps) (from_call (pt_spawn os a b d e))" for fd a b d e
    using quiet by (simp_all add: silent_calls)
  have "traffic sent stamps v1 = traffic sent stamps (se_world s)"
    using quiet(3,8) pty now unfolding sends_nothing_def by (metis snd_conv)
  then have begun: "recorded c sent stamps start master (pt_stdout os) s [] ?s" by (simp add: recorded_refl)
  have opened: "on_ok (bnd (on_world (from_nix (pt_openpty os))) (\<lambda>(m, n). bnd (on_world (clock (pt_now os))) (f m n))) Q s =
      on_ok (f master slave start) Q ?s"
    for f :: "nat \<Rightarrow> nat \<Rightarrow> nat \<Rightarrow> ((bytes, 'a) session, unit) eff" and Q
    by (simp add: on_ok_def on_world_def zoom_def from_nix_def clock_def pty now bnd_def)
  show ?thesis
    unfolding record_session_def opened
    apply (rule on_ok_expect, simp only: case_prod_beta)
    apply (rule on_ok_thn [OF silent_setup [OF h]], rule begun)
    apply (rule on_ok_thn [OF calls(1)], assumption)
    apply (rule on_ok_thn [OF calls(1)], assumption)
    apply (rule on_ok_thn [OF calls(1)], assumption)
    apply (rule on_ok_bnd [OF calls(2)], assumption)
    apply (rule on_ok_upd, assumption)
      prefer 2 apply simp prefer 2 apply simp
    apply (rule on_ok_accept, assumption, simp)
    apply (rule on_ok_thn [OF calls(3)], assumption)
    apply (rule on_ok_upd, assumption)
      prefer 2 apply simp prefer 2 apply simp
    apply (rule on_ok_loop [OF h ne], simp add: linked_def piper_new_def, assumption)
    done
qed

text \<open>An encoding that prints no record of four gigabytes or more.\<close>

definition small_records :: "codec \<Rightarrow> bool" where
  "small_records c \<longleftrightarrow> (\<forall>r. printed c r \<longrightarrow> fits_u32 c r)"

text \<open>
  A recorded session can be played. When a session that was recorded to a fresh file has ended,
  the file is read back as a list of records; what the program was sent is their inputs, what the
  terminal was sent is their outputs; and playing the file writes the outputs, each at its time, so
  that no byte is written sooner after the start than it came during the session.
\<close>

definition written_at :: "(nat \<times> bytes) list \<Rightarrow> nat list" where
  "written_at l = concat (map (\<lambda>(t, d). replicate (length d) t) l)"

lemma written_due:
  "timely t0 rs l \<Longrightarrow> list_all2 (\<lambda>t d. t0 + d \<le> t) (written_at l) (due rs)"
proof (induction rs arbitrary: l)
  case Nil
  then show ?case by (simp add: timely_def written_at_def)
next
  case (Cons r rs)
  show ?case
  proof (cases "event r")
    case (Output d)
    with Cons.prems obtain t l' where l: "l = (t, d) # l'" "t0 + ts r \<le> t" "timely t0 rs l'"
      by (cases l) (auto simp: timely_def)
    have "list_all2 (\<lambda>t d. t0 + d \<le> t) (replicate (length d) t) (replicate (length d) (ts r))"
      using l(2) by (simp add: list_all2_conv_all_nth)
    with Cons.IH [OF l(3)] show ?thesis
      by (simp add: written_at_def l(1) Output list_all2_appendI)
  qed (use Cons in \<open>simp_all add: timely_def\<close>)
qed

lemma written_on_time:
  assumes "timely t0 rs l" and "on_time stamps start v rs v'"
  shows "list_all2 (\<lambda>t s. t0 + (s - start) \<le> t) (written_at l) (drop (length (stamps v)) (stamps v'))"
proof -
  from assms(2) obtain ss where ss: "stamps v' = stamps v @ ss" "list_all2 (\<lambda>s t. s - start \<le> t) ss (due rs)"
    unfolding on_time_def by blast
  have "list_all2 (\<lambda>t s. t0 + (s - start) \<le> t) (written_at l) ss"
    using written_due [OF assms(1)] ss(2)
    unfolding list_all2_conv_all_nth by (metis add_left_mono le_trans)
  then show ?thesis by (simp add: ss(1))
qed

lemma session_replays:
  assumes "record_session os fuel turns (disk_accept c appending) mem mem' cmd s = (Ok (), s')"
    and "dated os sent stamps tm" and "pt_openpty os (se_world s) = (Inr (master, slave), v0)"
    and "pt_now os v0 = (start, v1)" and "master \<noteq> pt_stdout os"
    and "se_sink s = []" and "codec_laws c" and "small_records c" and "player_laws pl time log"
  shows "\<exists>rs w l. recording_parse c (se_sink s') [] = Ok rs \<and>
     sent (se_world s') master = sent (se_world s) master @ concat (inputs rs) \<and>
     sent (se_world s') (pt_stdout os) = sent (se_world s) (pt_stdout os) @ concat (outputs rs) \<and>
     play_file c pl (se_sink s') w0 = (Ok (), w) \<and> log w = log w0 @ l \<and> timely (fst (pl_now pl w0)) rs l \<and>
     list_all2 (\<lambda>t s. fst (pl_now pl w0) + (s - start) \<le> t) (written_at l)
       (drop (length (stamps (se_world s))) (stamps (se_world s')))"
proof -
  from session_recorded [OF assms(2-5)] assms(1) obtain rs where
    rs: "recorded c sent stamps start master (pt_stdout os) s rs s'" unfolding on_ok_def by blast
  then have fit: "list_all (fits_u32 c) rs" "se_sink s' = concat (map (framed c) rs)"
    using assms(6,8) by (auto simp: recorded_def small_records_def list_all_iff)
  have parse: "recording_parse c (se_sink s') [] = Ok rs"
    using parse_framed [OF assms(7) fit(1), of "[]" "[]"] fit(2) by (simp add: recording_parse.simps)
  from play_logs [OF assms(9), of rs w0] obtain w l where
    p: "play pl rs w0 = (Ok (), w)" "log w = log w0 @ l" "timely (fst (pl_now pl w0)) rs l" by blast
  with parse have "play_file c pl (se_sink s') w0 = (Ok (), w)"
    by (simp add: play_file_def answer_def bnd_def)
  moreover from rs assms(5) have "sent (se_world s') master = sent (se_world s) master @ concat (inputs rs)"
    "sent (se_world s') (pt_stdout os) = sent (se_world s) (pt_stdout os) @ concat (outputs rs)"
    "on_time stamps start (se_world s) rs (se_world s')"
    by (simp_all add: recorded_def)
  ultimately show ?thesis
    using parse p(2,3) written_on_time [OF p(3)] by (intro exI [of _ rs] exI [of _ w] exI [of _ l]) simp
qed

section \<open>A concrete session\<close>

text \<open>A program that prints \<open>ok\<close> and ends, on a terminal where nothing is typed; the master is descriptor 3, the output 5.\<close>

record demo_world =
  dw_out :: "bytes list"
  dw_sent :: "nat \<Rightarrow> bytes"
  dw_stamps :: "nat list"
  dw_time :: nat
  dw_log :: "(nat \<times> bytes) list"

definition demo_termios :: termios where
  "demo_termios = \<lparr>tio_input = 1, tio_output = 0, tio_control = 0, tio_local = 0, tio_chars = []\<rparr>"

definition demo_pty :: "demo_world pty_os" where
  "demo_pty = \<lparr>
     pt_write = (\<lambda>fd d v. (Inr (length d), v\<lparr>dw_sent := (dw_sent v)(fd := dw_sent v fd @ d),
       dw_stamps := dw_stamps v @ (if fd = 5 then replicate (length d) (dw_time v) else [])\<rparr>)),
     pt_read = (\<lambda>fd n v. if fd = 3 then (case dw_out v of [] \<Rightarrow> (Inr [], v)
       | d # ds \<Rightarrow> (Inr (take n d), v\<lparr>dw_out := ds\<rparr>)) else (Inl (Sys ''EAGAIN''), v)),
     pt_tcgetattr = (\<lambda>_ v. (Inr demo_termios, v)), pt_tcsetattr = (\<lambda>_ _ v. (Inr (), v)),
     pt_openpty = (\<lambda>v. (Inr (3, 4), v)), pt_no_block = (\<lambda>_ v. (Inr (), v)),
     pt_select = (\<lambda>_ _ v. (Inr ({3}, {}), v)), pt_spawn = (\<lambda>_ _ _ _ v. (Inr (), v)),
     pt_wait = (\<lambda>v. (Inr (), v)), pt_now = (\<lambda>v. (dw_time v, v\<lparr>dw_time := max (dw_time v) 40\<rparr>)),
     pt_stdin = 0, pt_stdout = 5, pt_flag = (\<lambda>_. 0)\<rparr>"

lemma demo_honest: "honest demo_pty dw_sent"
  by (auto simp: honest_def sends_nothing_def demo_pty_def split: list.split)

lemma demo_dated: "dated demo_pty dw_sent dw_stamps dw_time"
  unfolding dated_def lasts_def
  by (intro conjI allI demo_honest) (simp_all add: stamped_def demo_pty_def split: list.split)

definition demo_memory :: bytes where
  "demo_memory = replicate 4096 (CHR ''?'')"

lemma demo_memory_length [simp]: "length demo_memory = 4096"
  unfolding demo_memory_def by (rule length_replicate)

definition demo_start :: demo_world where
  "demo_start = \<lparr>dw_out = [''ok''], dw_sent = (\<lambda>_. []), dw_stamps = [], dw_time = 0, dw_log = []\<rparr>"

definition demo_session :: "(bytes, demo_world) session" where
  "demo_session = \<lparr>se_input = piper_new demo_memory 0 3, se_output = piper_new demo_memory 3 5,
     se_config = attrs_from demo_termios, se_sink = [], se_world = demo_start\<rparr>"

definition demo_piping :: "demo_world piping" where
  "demo_piping = \<lparr>pg_piper = piper_new demo_memory 3 5, pg_world = demo_start\<rparr>"

lemma demo_supplies: "supplies demo_pty (pp_read (pg_piper demo_piping)) (pp_write (pg_piper demo_piping))
    (pg_world demo_piping) [''ok''] True \<lparr>dw_out = [], dw_sent = (\<lambda>_. [])(5 := ''ok''), dw_stamps = [0, 0], dw_time = 0, dw_log = []\<rparr>"
  unfolding demo_piping_def
  by (rule supplies_chunk, simp_all add: demo_pty_def demo_start_def piper_new_def, rule supplies_end,
      simp add: fun_upd_def)

lemma piper_returns_witness:
  "\<exists>s'. pipe_some demo_pty (length [''ok''] + 1) demo_piping = (Ok \<lparr>eof_bytes = concat [''ok''], eof_seen = True\<rparr>, s') \<and>
     pg_world s' = \<lparr>dw_out = [], dw_sent = (\<lambda>_. [])(5 := ''ok''), dw_stamps = [0, 0], dw_time = 0, dw_log = []\<rparr>"
  by (rule piper_returns [OF demo_supplies]) (simp_all add: demo_piping_def piper_new_def)

lemma demo_piped:
  "pipe_some demo_pty 2 \<lparr>pg_piper = piper_new demo_memory 3 5,
      pg_world = \<lparr>dw_out = [''ok''], dw_sent = f, dw_stamps = ss, dw_time = t, dw_log = l\<rparr>\<rparr> =
   (Ok \<lparr>eof_bytes = ''ok'', eof_seen = True\<rparr>,
    \<lparr>pg_piper = \<lparr>pp_mem = ''ok'' @ drop 2 demo_memory, pp_len = 4096, pp_read = 3, pp_write = 5\<rparr>,
     pg_world = \<lparr>dw_out = [], dw_sent = f(5 := f 5 @ ''ok''), dw_stamps = ss @ [t, t], dw_time = t, dw_log = l\<rparr>\<rparr>)"
proof -
  have buf: "pp_buf \<lparr>pp_mem = ''ok'' @ drop 2 demo_memory, pp_len = 2, pp_read = 3, pp_write = 5\<rparr> = ''ok''"
    by (simp add: pp_buf_def)
  show ?thesis
    using buf
    by (simp add: pipe_some_def numeral_2_eq_2 piper_new_def write_buf_empty bnd_def read_buf_def thn_def gets_def
        ensure_def ret_def upd_def demo_pty_def write_buf_whole [of _ "''ok''"])
qed

lemma piper_reports_what_passed_witness:
  "dw_sent (pg_world (snd (pipe_some demo_pty 2 demo_piping))) = (dw_sent (pg_world demo_piping))
     (pp_write (pg_piper demo_piping) := dw_sent (pg_world demo_piping) (pp_write (pg_piper demo_piping)) @
        eof_bytes \<lparr>eof_bytes = ''ok'', eof_seen = True\<rparr>)"
proof (rule piper_reports_what_passed [OF demo_honest])
  show "pipe_some demo_pty 2 demo_piping =
      (Ok \<lparr>eof_bytes = ''ok'', eof_seen = True\<rparr>, snd (pipe_some demo_pty 2 demo_piping))"
    by (simp add: demo_piping_def demo_start_def demo_piped)
qed

lemma blocked_target_undefined_witness:
  "fst (pipe_some (demo_pty\<lparr>pt_write := (\<lambda>fd d v. (Inl (Sys ''EAGAIN''), v))\<rparr>) (Suc (Suc 0)) demo_piping) =
     Panic ''set_len beyond capacity''"
  by (rule blocked_target_undefined [where d = "''ok''"])
    (simp_all add: demo_pty_def demo_piping_def demo_start_def piper_new_def)

lemma never_waits_to_write_witness:
  "pp_buf (se_input demo_session) = [] \<and> pp_buf (se_output demo_session) = [] \<and>
   write_interest demo_pty 3 demo_session = {}"
  by (rule never_waits_to_write [OF demo_honest, of "disk_accept demo_codec appending" 0], rule sess_start)
    (simp_all add: demo_session_def demo_pty_def)

lemma demo_small: "small_records demo_codec"
  by (simp add: small_records_def printed_def fits_u32_def demo_codec_def)

lemma demo_pty_calls [simp]:
  "pt_openpty demo_pty = (\<lambda>v. (Inr (3, 4), v))" "pt_now demo_pty = (\<lambda>v. (dw_time v, v\<lparr>dw_time := max (dw_time v) 40\<rparr>))"
  "pt_stdin demo_pty = 0" "pt_stdout demo_pty = 5" "pt_tcgetattr demo_pty fd = (\<lambda>v. (Inr demo_termios, v))"
  "pt_tcsetattr demo_pty fd tio = (\<lambda>v. (Inr (), v))" "pt_no_block demo_pty fd = (\<lambda>v. (Inr (), v))"
  "pt_select demo_pty rs ws = (\<lambda>v. (Inr ({3}, {}), v))" "pt_spawn demo_pty h as x y = (\<lambda>v. (Inr (), v))"
  "pt_wait demo_pty = (\<lambda>v. (Inr (), v))"
  by (simp_all add: demo_pty_def)

lemma demo_entries: "\<lparr>ts = 0, event = Config (attrs_from demo_termios)\<rparr> = demo_config"
    "\<lparr>ts = 40, event = Output ''ok''\<rparr> = demo_output"
  by (simp_all add: demo_config_def demo_output_def attrs_from_def demo_termios_def)

lemma demo_accepts: "disk_accept demo_codec appending demo_config f = (Ok (), f @ framed demo_codec demo_config)"
    "disk_accept demo_codec appending demo_output f = (Ok (), f @ framed demo_codec demo_output)"
  by (rule accept_appends, simp add: demo_codec_def)+

lemma demo_session_ends:
  "fst (record_session demo_pty 2 1 (disk_accept demo_codec appending) demo_memory demo_memory [''echo''] demo_session)
    = Ok ()"
  by (simp add: record_session_def record_turn_def note_config_def pump_output_def accept_now_def on_output_def
      on_world_def on_sink_def setup_master_def clock_def from_nix_def write_interest_def demo_session_def
      demo_start_def demo_piped demo_entries demo_accepts Let_def eff_defs)

end
