(* ===== verification/Record_Main.thy ===== *)
theory Record_Main
  imports Piper
begin






lemma on_world_played:
  "play pl rs v = (Ok (), w) \<Longrightarrow> on_world (play pl rs) (s\<lparr>se_world := v\<rparr>) = (Ok (), s\<lparr>se_world := w\<rparr>)"
  by (simp add: on_world_def zoom_def)



section \<open>A concrete recording\<close>









end
