(* ===== verification/Conformance.thy ===== *)
theory Conformance
  imports Convert Machine
begin

text \<open>
  The examples the repository keeps for its own tests, \<open>frontend/tests/parser.json\<close>, \<open>plan.json\<close> and
  the test of \<open>backend/src/machine.rs\<close>, on the definitions here.
\<close>

section \<open>The parser\<close>

lemma parser_example_1:
  "parse_input [] = Ok (Empty)"
  by code_simp

lemma parser_example_2:
  "parse_input ''  '' = Ok (Empty)"
  by code_simp

lemma parser_example_3:
  "parse_input ''a'' = Ok (Cmd (ShellCmd None [Normal ''a'']))"
  by code_simp

lemma parser_example_4:
  "parse_input '' a'' = Ok (Cmd (ShellCmd None [Normal ''a'']))"
  by code_simp

lemma parser_example_5:
  "parse_input ''a '' = Ok (Cmd (ShellCmd None [Normal ''a'']))"
  by code_simp

lemma parser_example_6:
  "parse_input ''a b'' = Ok (Cmd (ShellCmd None [Normal ''a'', Normal ''b'']))"
  by code_simp

lemma parser_example_7:
  "parse_input '' a  b    '' = Ok (Cmd (ShellCmd None [Normal ''a'', Normal ''b'']))"
  by code_simp

lemma parser_example_8:
  "parse_input (''a '' @ [CHR 0x22] @ ''b c'' @ [CHR 0x22] @ ''   '' @ [CHR 0x22] @ ''c    d'' @ [CHR 0x22]) = Ok (Cmd (ShellCmd None [Normal ''a'', Normal ''b c'', Normal ''c    d'']))"
  by code_simp

lemma parser_example_9:
  "parse_input ''a123'' = Ok (Cmd (ShellCmd None [Normal ''a123'']))"
  by code_simp

lemma parser_example_10:
  "parse_input ''abcdefghijklmnopqrstuvwxyzABCDEFGHIJKLMNOPQRSTUVWXYZ012345678.-_/{}$@=,~'' = Ok (Cmd (ShellCmd None [Normal ''abcdefghijklmnopqrstuvwxyzABCDEFGHIJKLMNOPQRSTUVWXYZ012345678.-_/{}$@=,~'']))"
  by code_simp

lemma parser_example_11:
  "parse_input ''a > b'' = Ok (Redirect (Cmd (ShellCmd None [Normal ''a''])) [RedirectClause Stdout (File (Normal ''b''))])"
  by code_simp

lemma parser_example_12:
  "parse_input ''a; b ; c'' = Ok (Sequence (Cmd (ShellCmd None [Normal ''a''])) [SequenceClause Wait (Cmd (ShellCmd None [Normal ''b''])), SequenceClause Wait (Cmd (ShellCmd None [Normal ''c'']))])"
  by code_simp

lemma parser_example_13:
  "parse_input ''a | b | c'' = Ok (Redirect (Cmd (ShellCmd None [Normal ''a''])) [RedirectClause Stdout (Command (Cmd (ShellCmd None [Normal ''b'']))), RedirectClause Stdout (Command (Cmd (ShellCmd None [Normal ''c''])))])"
  by code_simp

lemma parser_example_14:
  "parse_input ''a|b|c ; d|e|f ; g|h|i'' = Ok (Sequence (Redirect (Cmd (ShellCmd None [Normal ''a''])) [RedirectClause Stdout (Command (Cmd (ShellCmd None [Normal ''b'']))), RedirectClause Stdout (Command (Cmd (ShellCmd None [Normal ''c''])))]) [SequenceClause Wait (Redirect (Cmd (ShellCmd None [Normal ''d''])) [RedirectClause Stdout (Command (Cmd (ShellCmd None [Normal ''e'']))), RedirectClause Stdout (Command (Cmd (ShellCmd None [Normal ''f''])))]), SequenceClause Wait (Redirect (Cmd (ShellCmd None [Normal ''g''])) [RedirectClause Stdout (Command (Cmd (ShellCmd None [Normal ''h'']))), RedirectClause Stdout (Command (Cmd (ShellCmd None [Normal ''i''])))])])"
  by code_simp

section \<open>Plans\<close>

lemma plan_example_1:
  "parse_command_simple root_only prefs_default [] = Ok
    \<lparr>steps = [StepPipe, StepPipe],
      plan_stdin = Some 0, gather_count = 0, pager_count = 0, sink_map = [Some SinkStdout, Some SinkStderr]\<rparr>"
  by code_simp

lemma plan_example_2:
  "parse_command_simple root_only prefs_default ''  '' = Ok
    \<lparr>steps = [StepPipe, StepPipe],
      plan_stdin = Some 0, gather_count = 0, pager_count = 0, sink_map = [Some SinkStdout, Some SinkStderr]\<rparr>"
  by code_simp

lemma plan_example_3:
  "parse_command_simple root_only prefs_default ''a'' = Ok
    \<lparr>steps = [StepPipe, StepPipe, StepPipe, StepRemote (RemoteRef 0) (Run (Unknown ''a'' []) \<lparr>proc_id = 0, proc_stdin = 2, proc_stdout = 0, proc_stderr = 1\<rparr>)],
      plan_stdin = Some 2, gather_count = 0, pager_count = 0, sink_map = [Some SinkStdout, Some SinkStderr]\<rparr>"
  by code_simp

lemma plan_example_4:
  "parse_command_simple root_only prefs_default ''a b c'' = Ok
    \<lparr>steps = [StepPipe, StepPipe, StepPipe, StepRemote (RemoteRef 0) (Run (Unknown ''a'' [''b'', ''c'']) \<lparr>proc_id = 0, proc_stdin = 2, proc_stdout = 0, proc_stderr = 1\<rparr>)],
      plan_stdin = Some 2, gather_count = 0, pager_count = 0, sink_map = [Some SinkStdout, Some SinkStderr]\<rparr>"
  by code_simp

lemma plan_example_5:
  "parse_command_simple root_only prefs_default ''a>b'' = Ok
    \<lparr>steps = [StepPipe, StepPipe, StepRemote (RemoteRef 0) (OpenOutputFile ''b''), StepPipe, StepPipe, StepRemote (RemoteRef 0) (Run (Unknown ''a'' []) \<lparr>proc_id = 0, proc_stdin = 4, proc_stdout = 2, proc_stderr = 3\<rparr>)],
      plan_stdin = Some 4, gather_count = 0, pager_count = 0, sink_map = [Some SinkStdout, Some SinkStderr]\<rparr>"
  by code_simp

section \<open>The scheduler\<close>

text \<open>The calls of \<open>test_machine\<close>, in its order; what each answers is collected.\<close>

definition answers_of :: "('s, 'a) eff \<Rightarrow> ('s, 'a list) eff \<Rightarrow> ('s, 'a list) eff" where
  "answers_of m k = bnd m (\<lambda>a. bnd k (\<lambda>as. ret (a # as)))"

definition test_machine :: "(nat \<times> condition) list \<Rightarrow>
    ((nat, string, string) machine, (nat, string) task list list) eff" where
  "test_machine both =
     answers_of (enqueue 0 ''a'' [])
     (answers_of (enqueue 1 ''b'' [(0, None)])
     (thn (start 0 ''waffle'')
     (answers_of (completed 8 0 Success)
     (answers_of (enqueue 2 ''c'' [(0, None)])
     (answers_of (enqueue 3 ''d'' [(0, Some Success)])
     (answers_of (enqueue 4 ''e'' [(0, Some Failure)])
     (answers_of (enqueue 5 ''f'' both)
     (answers_of (enqueue 6 ''g'' [(2, Some Success)])
     (thn (start 2 ''badger'')
     (answers_of (completed 8 2 Success)
     (thn (start 3 ''anthill'')
     (answers_of (completed 8 3 Success) (ret [])))))))))))))"

lemma machine_example:
  "fst (test_machine [(2, Some Success), (3, Some Success)] machine_new) = Ok
     [[Start 0 ''a''], [], [Start 1 ''b''], [Start 2 ''c''], [Start 3 ''d''], [ConditionFailed 4 ''e''], [], [],
      [Start 6 ''g''], [Start 5 ''f'']]"
  by (simp add: test_machine_def answers_of_def machine_ops scan_conditions.simps eff_defs)

text \<open>The two conditions in the other order of the hash map.\<close>

lemma machine_example_swapped:
  "fst (test_machine [(3, Some Success), (2, Some Success)] machine_new) =
   fst (test_machine [(2, Some Success), (3, Some Success)] machine_new)"
  by (simp add: test_machine_def answers_of_def machine_ops scan_conditions.simps eff_defs)

end
