(* ===== verification/Cancel.thy ===== *)
theory Cancel
  imports Node
begin

text \<open>
  \<open>backend/src/exec.rs\<close>: cancelling, one turn of a thread at a time. \<open>cancel\<close> asks for the mutex of the
  child it is to kill, and the thread that waits for the child holds it. What that does to the
  executor depends on the order of their turns, so here they are interleaved: the main thread, the
  executor, which can stand before a mutex, the waiters and the readers of pipes.
\<close>

section \<open>What the executor leaves of the waiters\<close>

text \<open>The executor starts threads, none of which waits yet, and locks no mutex for good.\<close>

definition thread_frame :: "('w, 'h) exec \<Rightarrow> ('w, 'h) exec \<Rightarrow> bool" where
  "thread_frame s t \<longleftrightarrow> ex_locked t = ex_locked s \<and>
     (\<exists>ths. ex_threads t = ex_threads s @ ths \<and> (\<forall>p h. Waiting p h \<notin> set ths))"

interpretation executor: frame "thread_frame :: ('w, 'h) exec \<Rightarrow> ('w, 'h) exec \<Rightarrow> bool"
  by unfold_locales (auto simp: thread_frame_def)

lemma within_parts:
  "within thread_frame (on_os c)" "within thread_frame (on_machine m)" "within thread_frame (on_handler k)"
  "within thread_frame (put_pair g hp)" "(\<And>p h. t \<noteq> Waiting p h) \<Longrightarrow> within thread_frame (spawn_thread t)"
  "within thread_frame (zoom edit_ids (\<lambda>i s. s\<lparr>edit_ids := i\<rparr>) d)"
  by (auto simp: within_def thread_frame_def on_os_def on_machine_def on_handler_def zoom_def put_pair_def spawn_thread_def
      upd_def split: prod.split)

lemmas exec_frames = within_parts executor.within_intros

lemma within_ends: "within thread_frame (read_end os rp)" "within thread_frame (write_end os wp')"
  by (auto simp: read_end_def write_end_def intro!: exec_frames split: option.split)

lemma within_output: "within thread_frame (pipe_output_and_close os ps out err)"
  by (auto simp: pipe_output_and_close_def pipe_and_close_def intro!: exec_frames within_ends)

lemma within_run: "within thread_frame (run os eh p c)"
  unfolding run_def begin_edit_request_def
  by (auto intro!: exec_frames within_ends within_output simp: thread_frame_def split: command.split sum.split)

lemma within_task: "within thread_frame (run_task os eh fuel t)"
  unfolding run_task_def
  by (auto intro!: exec_frames within_run within_output split: task.split sum.split run_result.split)

lemma within_tasks: "within thread_frame (run_tasks os eh fuel ts new)"
  by (induction ts arbitrary: new) (auto intro!: exec_frames within_task)

lemma within_rounds: "within thread_frame (process_rounds os eh fuel k ts)"
  by (induction k arbitrary: ts) (auto intro!: exec_frames within_tasks)

lemma within_requests:
  "within thread_frame (exec_enqueue os eh fuel p c bf)" "within thread_frame (exec_completed os eh fuel p e)"
  "within thread_frame (exec_open_output_file os wp' path)" "within thread_frame (exec_open_input_file os rp path)"
  "within thread_frame (exec_pipe_message os g msg)"
  by (auto simp: exec_enqueue_def exec_completed_def process_tasks_def exec_open_output_file_def exec_open_input_file_def
      exec_pipe_message_def Let_def thread_frame_def intro!: exec_frames within_rounds within_ends split: pipe_message.split)

lemma within_finish_edit: "within thread_frame (exec_finish_edit os eh fuel k d)"
  by (auto simp: exec_finish_edit_def thread_frame_def intro!: exec_frames within_requests)

lemma within_event: "(\<And>pid. ev \<noteq> EvCancelExec pid) \<Longrightarrow> within thread_frame (handle_event os eh fuel ev)"
  unfolding handle_event_def
  by (cases ev) (auto intro!: exec_frames within_requests within_finish_edit)

lemma within_target: "within thread_frame (cancel_target pid)"
  by (auto simp: cancel_target_def intro!: exec_frames split: task_status.split process_st.split)

section \<open>What the main thread leaves of the executor\<close>

definition line_frame :: "('w, 't) node \<Rightarrow> ('w, 't) node \<Rightarrow> bool" where
  "line_frame n n' \<longleftrightarrow> (\<exists>evs. nd_queue n' = nd_queue n @ evs) \<and> ex_machine (nd_exec n') = ex_machine (nd_exec n) \<and>
     ex_threads (nd_exec n') = ex_threads (nd_exec n) \<and> ex_locked (nd_exec n') = ex_locked (nd_exec n)"

interpretation main_thread: frame "line_frame :: ('w, 't) node \<Rightarrow> ('w, 't) node \<Rightarrow> bool"
  by unfold_locales (auto simp: line_frame_def)

lemma within_node: "within line_frame (node_os c)" "within line_frame (backtraffic m)" "within line_frame (send_event ev)"
  by (auto simp: within_def line_frame_def node_os_def backtraffic_def node_exec_def on_os_def on_handler_def zoom_def
      send_event_def eff_defs split: prod.split)

lemmas node_frames = within_node main_thread.within_intros

lemma within_line: "within line_frame (backend_line w os from_str line)"
  unfolding backend_line_def request_route_def async_handler_def begin_remote_def end_remote_def list_directory_def
  by (auto intro!: node_frames simp: line_frame_def split: option.split remote_request.split command.split)

section \<open>Turns\<close>

text \<open>The backend, and the child before whose mutex the executor stands when it is about to kill it.\<close>

record ('w, 't) config =
  cf_node :: "('w, 't) node"
  cf_locking :: "nat option"

abbreviation cf_exec :: "('w, 't) config \<Rightarrow> ('w, 't backend) exec" where
  "cf_exec c \<equiv> nd_exec (cf_node c)"

datatype turn =
    Received bytes
  | Locked nat
  | WaitOver nat
  | Sent exec_event
  | Took exec_event
  | Killed nat
  | Outside

definition thread_ends :: "thread \<Rightarrow> (('w, 'h) exec, unit) eff" where
  "thread_ends t = upd (\<lambda>s. s\<lparr>ex_threads := filter (\<lambda>u. u \<noteq> t) (ex_threads s)\<rparr>)"

text \<open>
  The executor takes an event only when it does not stand before a mutex, and passes a mutex only
  when it is free. A waiter locks the mutex, waits, unlocks it, and sends its event.
\<close>

inductive live_turn :: "'t wire \<Rightarrow> 'w os \<Rightarrow> (bytes \<Rightarrow> request option) \<Rightarrow> nat \<Rightarrow>
    ('w, 't) config \<Rightarrow> turn \<Rightarrow> ('w, 't) config \<Rightarrow> bool" for w os from_str fuel where
  turn_line: "backend_line w os from_str line (cf_node c) = (Ok (), n) \<Longrightarrow>
    live_turn w os from_str fuel c (Received line) (c\<lparr>cf_node := n\<rparr>)"
| turn_lock: "Waiter pid h \<in> set (ex_threads (cf_exec c)) \<Longrightarrow> h \<notin> ex_locked (cf_exec c) \<Longrightarrow>
    node_exec (waiter_locks pid h) (cf_node c) = (Ok (), n) \<Longrightarrow>
    live_turn w os from_str fuel c (Locked h) (c\<lparr>cf_node := n\<rparr>)"
| turn_wait: "Waiting pid h \<in> set (ex_threads (cf_exec c)) \<Longrightarrow> node_exec (waiter_waits os pid h) (cf_node c) = (Ok (), n) \<Longrightarrow>
    live_turn w os from_str fuel c (WaitOver h) (c\<lparr>cf_node := n\<rparr>)"
| turn_report: "Ended pid st \<in> set (ex_threads (cf_exec c)) \<Longrightarrow>
    thn (send_event (waiter_event pid st)) (node_exec (thread_ends (Ended pid st))) (cf_node c) = (Ok (), n) \<Longrightarrow>
    live_turn w os from_str fuel c (Sent (waiter_event pid st)) (c\<lparr>cf_node := n\<rparr>)"
| turn_read: "Reader g h \<in> set (ex_threads (cf_exec c)) \<Longrightarrow> ev \<in> {EvPipeOutput g d 0, EvPipeClosed g 0} \<Longrightarrow>
    send_event ev (cf_node c) = (Ok (), n) \<Longrightarrow>
    live_turn w os from_str fuel c (Sent ev) (c\<lparr>cf_node := n\<rparr>)"
| turn_event: "cf_locking c = None \<Longrightarrow> nd_queue (cf_node c) = ev # evs \<Longrightarrow> (\<And>pid. ev \<noteq> EvCancelExec pid) \<Longrightarrow>
    exec_turn w os fuel (cf_node c) = (r, n) \<Longrightarrow>
    live_turn w os from_str fuel c (Took ev) (c\<lparr>cf_node := n\<rparr>)"
| turn_cancel: "cf_locking c = None \<Longrightarrow> nd_queue (cf_node c) = EvCancelExec pid # evs \<Longrightarrow>
    node_exec (cancel_target pid) ((cf_node c)\<lparr>nd_queue := evs\<rparr>) = (Ok target, n) \<Longrightarrow>
    live_turn w os from_str fuel c (Took (EvCancelExec pid)) \<lparr>cf_node = n, cf_locking = target\<rparr>"
| turn_kill: "cf_locking c = Some h \<Longrightarrow> h \<notin> ex_locked (cf_exec c) \<Longrightarrow>
    on_panic exec_ends (node_exec (unwrap (on_os (os_kill os h)))) (cf_node c) = (r, n) \<Longrightarrow>
    live_turn w os from_str fuel c (Killed h) \<lparr>cf_node = n, cf_locking = None\<rparr>"
| turn_outside: "live_turn w os from_str fuel c Outside
    (c\<lparr>cf_node := (cf_node c)\<lparr>nd_exec := (cf_exec c)\<lparr>ex_world := v\<rparr>\<rparr>\<rparr>)"

inductive live_run :: "'t wire \<Rightarrow> 'w os \<Rightarrow> (bytes \<Rightarrow> request option) \<Rightarrow> nat \<Rightarrow>
    ('w, 't) config \<Rightarrow> turn list \<Rightarrow> ('w, 't) config \<Rightarrow> bool" for w os from_str fuel where
  run_start: "live_run w os from_str fuel c [] c"
| run_turn: "live_run w os from_str fuel c acts c1 \<Longrightarrow> live_turn w os from_str fuel c1 a c2 \<Longrightarrow>
    live_run w os from_str fuel c (acts @ [a]) c2"

definition started_config :: "'t \<Rightarrow> 'w \<Rightarrow> ('w, 't) config" where
  "started_config t v = \<lparr>cf_node = node_new t v, cf_locking = None\<rparr>"

text \<open>Who waits for a child holds its mutex, and nobody else waits for it.\<close>

definition lock_inv :: "('w, 'h) exec \<Rightarrow> bool" where
  "lock_inv s \<longleftrightarrow> (\<forall>p h. Waiting p h \<in> set (ex_threads s) \<longrightarrow>
     h \<in> ex_locked s \<and> (\<forall>q. Waiting q h \<in> set (ex_threads s) \<longrightarrow> q = p))"

lemma lock_inv_framed: "thread_frame s t \<Longrightarrow> lock_inv s \<Longrightarrow> lock_inv t"
  by (auto simp: thread_frame_def lock_inv_def)

lemma waiting_framed: "thread_frame s t \<Longrightarrow> Waiting p h \<in> set (ex_threads t) \<longleftrightarrow> Waiting p h \<in> set (ex_threads s)"
  by (auto simp: thread_frame_def)

lemma node_exec_run: "node_exec m n = (r, n') \<Longrightarrow> \<exists>x. m (nd_exec n) = (r, x) \<and> n' = n\<lparr>nd_exec := x\<rparr>"
  by (auto simp: node_exec_def zoom_def split: prod.splits)

lemma locks_run: "waiter_locks pid h s = (r, t) \<Longrightarrow> ex_locked t = insert h (ex_locked s) \<and> ex_machine t = ex_machine s \<and>
   set (ex_threads t) = (\<lambda>u. if u = Waiter pid h then Waiting pid h else u) ` set (ex_threads s)"
  by (auto simp: waiter_locks_def thread_becomes_def eff_defs)

lemma waits_run: "waiter_waits os pid h s = (Ok (), t) \<Longrightarrow> \<exists>st. ex_locked t = ex_locked s - {h} \<and> ex_machine t = ex_machine s \<and>
   set (ex_threads t) = (\<lambda>u. if u = Waiting pid h then Ended pid st else u) ` set (ex_threads s)"
  by (auto simp: waiter_waits_def thread_becomes_def on_os_def eff_defs simp del: if_image_distrib split: prod.splits sum.splits)
    (rule exI, rule refl)

lemma lock_inv_locks:
  assumes "waiter_locks pid h s = (Ok (), t)" and "h \<notin> ex_locked s" and "lock_inv s"
  shows "lock_inv t" "Waiting p g \<in> set (ex_threads s) \<Longrightarrow> Waiting p g \<in> set (ex_threads t)"
proof -
  from locks_run [OF assms(1)] have t: "ex_locked t = insert h (ex_locked s)"
    "set (ex_threads t) = (\<lambda>u. if u = Waiter pid h then Waiting pid h else u) ` set (ex_threads s)" by auto
  have new: "Waiting q g \<in> set (ex_threads t) \<Longrightarrow> Waiting q g \<in> set (ex_threads s) \<or> q = pid \<and> g = h" for q g
    by (auto simp: t(2) split: if_splits)
  have none: "Waiting q h \<notin> set (ex_threads s)" for q using assms(2,3) by (auto simp: lock_inv_def)
  show "lock_inv t"
    unfolding lock_inv_def
  proof (intro allI impI conjI)
    fix q g assume q: "Waiting q g \<in> set (ex_threads t)"
    show "g \<in> ex_locked t" using new [OF q] assms(3) by (auto simp: t(1) lock_inv_def)
    fix q' assume "Waiting q' g \<in> set (ex_threads t)"
    with new [OF q] new [OF this] none assms(3) show "q' = q" by (auto simp: lock_inv_def)
  qed
  show "Waiting p g \<in> set (ex_threads s) \<Longrightarrow> Waiting p g \<in> set (ex_threads t)" by (force simp: t(2))
qed

lemma lock_inv_waits:
  assumes "waiter_waits os pid h s = (Ok (), t)" and "Waiting pid h \<in> set (ex_threads s)" and "lock_inv s"
  shows "lock_inv t" "Waiting p g \<in> set (ex_threads s) \<Longrightarrow> g \<noteq> h \<Longrightarrow> Waiting p g \<in> set (ex_threads t)"
proof -
  from waits_run [OF assms(1)] obtain st where t: "ex_locked t = ex_locked s - {h}"
    "set (ex_threads t) = (\<lambda>u. if u = Waiting pid h then Ended pid st else u) ` set (ex_threads s)" by auto
  have old: "Waiting q g \<in> set (ex_threads t) \<Longrightarrow> Waiting q g \<in> set (ex_threads s) \<and> g \<noteq> h" for q g
    using assms(2,3) by (auto simp: t(2) lock_inv_def split: if_splits)
  show "lock_inv t" using assms(3) old unfolding lock_inv_def t(1) by blast
  show "Waiting p g \<in> set (ex_threads s) \<Longrightarrow> g \<noteq> h \<Longrightarrow> Waiting p g \<in> set (ex_threads t)" by (force simp: t(2))
qed

text \<open>Which turns leave the waiters of other children alone, and who holds a mutex.\<close>

lemma turn_event_frame:
  assumes "nd_queue n = ev # evs" and "\<And>pid. ev \<noteq> EvCancelExec pid" and "exec_turn w os fuel n = (r, n')"
  shows "thread_frame (nd_exec n) (nd_exec n')"
proof -
  obtain q x where x: "handle_event os (exec_handler_impl w) fuel ev (nd_exec n) = (q, x)" by fastforce
  from withinD [OF within_event [OF assms(2)] x] have "thread_frame (nd_exec n) x" .
  with x assms(1,3) show ?thesis
    by (cases q) (auto simp: exec_turn_def node_exec_def on_panic_def exec_ends_def eff_defs)
qed

lemma turn_keeps_locks:
  assumes "live_turn w os from_str fuel c a c'" and "lock_inv (cf_exec c)"
  shows "lock_inv (cf_exec c') \<and>
    (\<forall>p h. Waiting p h \<in> set (ex_threads (cf_exec c)) \<longrightarrow> a \<noteq> WaitOver h \<longrightarrow> Waiting p h \<in> set (ex_threads (cf_exec c')))"
  using assms
proof (induction rule: live_turn.induct)
  case (turn_line line c n)
  from withinD [OF within_line turn_line.hyps] turn_line.prems show ?case by (simp add: line_frame_def lock_inv_def)
next
  case (turn_lock pid h c n)
  from node_exec_run [OF turn_lock.hyps(3)] obtain x where "waiter_locks pid h (cf_exec c) = (Ok (), x)" "nd_exec n = x" by auto
  with lock_inv_locks [OF this(1) turn_lock.hyps(2) turn_lock.prems] show ?case by simp
next
  case (turn_wait pid h c n)
  from node_exec_run [OF turn_wait.hyps(2)] obtain x where "waiter_waits os pid h (cf_exec c) = (Ok (), x)" "nd_exec n = x" by auto
  with lock_inv_waits [OF this(1) turn_wait.hyps(1) turn_wait.prems] show ?case by auto
next
  case (turn_report pid st c n)
  have "nd_exec n = (cf_exec c)\<lparr>ex_threads := filter (\<lambda>u. u \<noteq> Ended pid st) (ex_threads (cf_exec c))\<rparr>"
    using turn_report.hyps(2) by (auto simp: thread_ends_def send_event_def node_exec_def zoom_def eff_defs split: if_splits)
  with turn_report.prems show ?case by (auto simp: lock_inv_def)
next
  case (turn_read g h c ev d n)
  from withinD [OF within_node(3) turn_read.hyps(3)] turn_read.prems show ?case by (simp add: line_frame_def lock_inv_def)
next
  case (turn_event c ev evs r n)
  note f = turn_event_frame [OF turn_event.hyps(2-4)]
  from lock_inv_framed [OF f turn_event.prems] waiting_framed [OF f] show ?case by simp
next
  case (turn_cancel c pid evs target n)
  from node_exec_run [OF turn_cancel.hyps(3)] obtain x where "cancel_target pid (cf_exec c) = (Ok target, x)" "nd_exec n = x" by auto
  with withinD [OF within_target this(1)] have f: "thread_frame (cf_exec c) (nd_exec n)" by simp
  from lock_inv_framed [OF f turn_cancel.prems] waiting_framed [OF f] show ?case by simp
next
  case (turn_kill c h r n)
  obtain q x where x: "unwrap (on_os (os_kill os h)) (cf_exec c) = (q, x)" by fastforce
  from withinD [OF executor.within_same(1) [OF within_parts(1)] x] have f: "thread_frame (cf_exec c) x" .
  have "nd_exec n = x"
    using turn_kill.hyps(3) x by (cases q) (auto simp: on_panic_def exec_ends_def node_exec_def zoom_def)
  with lock_inv_framed [OF f turn_kill.prems] waiting_framed [OF f] show ?case by simp
next
  case (turn_outside c v)
  then show ?case by (simp add: lock_inv_def)
qed

lemma run_keeps_locks: "live_run w os from_str fuel c acts c' \<Longrightarrow> lock_inv (cf_exec c) \<Longrightarrow> lock_inv (cf_exec c')"
  by (induction rule: live_run.induct) (auto dest: turn_keeps_locks)

section \<open>Cancelling waits\<close>

definition taken :: "turn list \<Rightarrow> exec_event list" where
  "taken acts = concat (map (\<lambda>a. case a of Took ev \<Rightarrow> [ev] | _ \<Rightarrow> []) acts)"

text \<open>Before the mutex of \<open>h\<close>, or about to get there: the executor, and the events after the request.\<close>

definition before_lock :: "process_id \<Rightarrow> nat \<Rightarrow> exec_event list \<Rightarrow> turn list \<Rightarrow> ('w, 't) config \<Rightarrow> bool" where
  "before_lock pid h late acts c \<longleftrightarrow>
     (\<exists>more. cf_locking c = None \<and> taken acts = [] \<and> nd_queue (cf_node c) = EvCancelExec pid # late @ more \<or>
        cf_locking c = Some h \<and> taken acts = [EvCancelExec pid] \<and> nd_queue (cf_node c) = late @ more) \<and>
     (\<forall>g. Killed g \<notin> set acts)"

lemma before_lock_turn:
  assumes "live_turn w os from_str fuel c1 a c2" and "lock_inv (cf_exec c1)" and "a \<noteq> WaitOver h"
    and "Waiting pid h \<in> set (ex_threads (cf_exec c1))" and "running (ex_machine (cf_exec c1)) pid = Some (PsRunning h)"
    and "before_lock pid h late acts c1"
  shows "before_lock pid h late (acts @ [a]) c2 \<and> ex_machine (cf_exec c2) = ex_machine (cf_exec c1)"
proof -
  have held: "h \<in> ex_locked (cf_exec c1)" using assms(2,4) by (auto simp: lock_inv_def)
  have quiet: ?thesis if "cf_locking c2 = cf_locking c1" "nd_queue (cf_node c2) = nd_queue (cf_node c1) @ evs"
    "ex_machine (cf_exec c2) = ex_machine (cf_exec c1)" "\<And>ev. a \<noteq> Took ev" "\<And>g. a \<noteq> Killed g" for evs
  proof -
    from that(4) have "taken (acts @ [a]) = taken acts" by (cases a) (auto simp: taken_def)
    with assms(6) that show ?thesis unfolding before_lock_def by auto
  qed
  show ?thesis
    using assms(1)
  proof (cases rule: live_turn.cases)
    case (turn_line line n)
    from withinD [OF within_line turn_line(3)] obtain evs where "nd_queue n = nd_queue (cf_node c1) @ evs"
      "ex_machine (nd_exec n) = ex_machine (cf_exec c1)" by (auto simp: line_frame_def)
    with turn_line show ?thesis by (intro quiet) auto
  next
    case (turn_lock q g n)
    from node_exec_run [OF turn_lock(5)] obtain x where "waiter_locks q g (cf_exec c1) = (Ok (), x)"
      and n: "n = (cf_node c1)\<lparr>nd_exec := x\<rparr>" by auto
    with locks_run [OF this(1)] turn_lock(1,2) show ?thesis by (intro quiet [of "[]"]) simp_all
  next
    case (turn_wait q g n)
    from node_exec_run [OF turn_wait(4)] obtain x where "waiter_waits os q g (cf_exec c1) = (Ok (), x)"
      and n: "n = (cf_node c1)\<lparr>nd_exec := x\<rparr>" by auto
    with waits_run [OF this(1)] turn_wait(1,2) show ?thesis by (intro quiet [of "[]"]) auto
  next
    case (turn_report q st n)
    then show ?thesis
      by (intro quiet [of "[waiter_event q st]"])
        (auto simp: thread_ends_def send_event_def node_exec_def zoom_def eff_defs split: if_splits)
  next
    case (turn_read g k ev d n)
    then show ?thesis by (intro quiet [of "[ev]"]) (auto simp: send_event_def eff_defs split: if_splits)
  next
    case (turn_event ev evs r n)
    with assms(6) show ?thesis by (auto simp: before_lock_def)
  next
    case (turn_cancel q evs target n)
    with assms(6) obtain more where q: "q = pid" "evs = late @ more" "taken acts = []" "\<forall>g. Killed g \<notin> set acts"
      by (auto simp: before_lock_def)
    from node_exec_run [OF turn_cancel(5)] assms(5) q(1) have "target = Some h" "nd_queue n = evs"
      "ex_machine (nd_exec n) = ex_machine (cf_exec c1)"
      by (auto simp: cancel_target_def on_machine_def status_def zoom_def eff_defs split: prod.splits)
    with q turn_cancel(1,2) show ?thesis by (auto simp: before_lock_def taken_def)
  next
    case (turn_kill g r n)
    with assms(6) held show ?thesis by (auto simp: before_lock_def)
  next
    case (turn_outside v)
    then show ?thesis by (intro quiet [of "[]"]) auto
  qed
qed

text \<open>
  C39: Cancelling a running command does not interrupt it. Take any state the backend reaches in which
  the waiter of a command waits and the executor's next event is the request to cancel that
  command, and let everybody go on in any order. As long as the wait is not over, the executor
  takes that request and nothing after it, kills nothing, and the events that follow and those that
  are sent meanwhile stay in its channel: the command ends by itself, and only then is its child
  killed.
\<close>

theorem cancel_waits_for_end:
  assumes "live_run w os from_str fuel (started_config t v) before c" and "cf_locking c = None"
    and "Waiting pid h \<in> set (ex_threads (cf_exec c))" and "running (ex_machine (cf_exec c)) pid = Some (PsRunning h)"
    and "nd_queue (cf_node c) = EvCancelExec pid # late"
    and "live_run w os from_str fuel c acts c'" and "WaitOver h \<notin> set acts"
  shows "before_lock pid h late acts c' \<and> ex_machine (cf_exec c') = ex_machine (cf_exec c) \<and>
    Waiting pid h \<in> set (ex_threads (cf_exec c'))"
proof -
  have "lock_inv (cf_exec (started_config t v))"
    by (simp add: started_config_def node_new_def exec_new_def lock_inv_def)
  with run_keeps_locks [OF assms(1)] have inv: "lock_inv (cf_exec c)" by simp
  show ?thesis
    using assms(6) inv assms(2-5,7)
  proof (induction rule: live_run.induct)
    case (run_start c)
    then show ?case by (auto simp: before_lock_def taken_def)
  next
    case (run_turn c acts c1 a c2)
    from run_turn.IH run_turn.prems have IH: "before_lock pid h late acts c1" "ex_machine (cf_exec c1) = ex_machine (cf_exec c)"
      "Waiting pid h \<in> set (ex_threads (cf_exec c1))" by simp_all
    from run_keeps_locks [OF run_turn.hyps(1)] run_turn.prems(1) have inv: "lock_inv (cf_exec c1)" by simp
    from run_turn.prems have a: "a \<noteq> WaitOver h" by auto
    from before_lock_turn [OF run_turn.hyps(2) inv a IH(3) _ IH(1)] IH(2) run_turn.prems(4)
      turn_keeps_locks [OF run_turn.hyps(2) inv] IH(3) a show ?case by simp
  qed
qed

text \<open>When the wait is over, the child is killed at the executor's next turn.\<close>

lemma cancel_goes_on:
  assumes "cf_locking c = Some h" and "Waiting pid h \<in> set (ex_threads (cf_exec c))"
    and "os_wait os h (ex_world (cf_exec c)) = (Inr st, v)"
  shows "\<exists>c'. live_run w os from_str fuel c [WaitOver h, Killed h] c' \<and> cf_locking c' = None"
proof -
  obtain x where x: "waiter_waits os pid h (cf_exec c) = (Ok (), x)"
    using assms(3) by (simp add: waiter_waits_def thread_becomes_def on_os_def eff_defs)
  let ?c1 = "c\<lparr>cf_node := (cf_node c)\<lparr>nd_exec := x\<rparr>\<rparr>"
  have t1: "live_turn w os from_str fuel c (WaitOver h) ?c1"
    by (rule turn_wait [OF assms(2)]) (simp add: node_exec_def zoom_def x)
  obtain r n where "on_panic exec_ends (node_exec (unwrap (on_os (os_kill os h)))) (cf_node ?c1) = (r, n)" by fastforce
  from turn_kill [OF _ _ this] assms(1) waits_run [OF x] have
    t2: "live_turn w os from_str fuel ?c1 (Killed h) \<lparr>cf_node = n, cf_locking = None\<rparr>" by auto
  have "live_run w os from_str fuel c (([] @ [WaitOver h]) @ [Killed h]) \<lparr>cf_node = n, cf_locking = None\<rparr>"
    by (rule run_turn [OF run_turn [OF run_start t1] t2])
  then show ?thesis by force
qed

section \<open>A concrete backend\<close>

text \<open>A command is started, its waiter waits, and the request to cancel it arrives.\<close>

definition sleep_requests :: "bytes \<Rightarrow> request option" where
  "sleep_requests line =
     (if line = ''start'' then Some \<lparr>rq_remote_id = 0, rq_message =
        RqBeginCommand [] \<lparr>ap_id = ProcessId 3, ap_stdin = 0, ap_stdout = 1, ap_stderr = 2\<rparr> (Unknown ''sleep'' [])\<rparr>
      else if line = ''cancel'' then Some \<lparr>rq_remote_id = 0, rq_message = RqCancelCommand (ProcessId 3)\<rparr> else None)"

definition sleep_event :: exec_event where
  "sleep_event = EvEnqueue (ProcessId 3) \<lparr>rc_cmd = Unknown ''sleep'' [],
     rc_pipes = \<lparr>w_stdin = ReadPipe 0, w_stdout = WritePipe 1, w_stderr = WritePipe 2\<rparr>\<rparr> []"

definition asleep :: "(nat, bytes list) node" where
  "asleep = snd (exec_turn log_wire demo_os 2 ((node_new [] 10)\<lparr>nd_queue := [sleep_event]\<rparr>))"

lemma asleep: "exec_turn log_wire demo_os 2 ((node_new [] 10)\<lparr>nd_queue := [sleep_event]\<rparr>) = (Ok (), asleep)"
  "nd_queue asleep = []" "nd_ended asleep = False" "ex_threads (nd_exec asleep) = [Waiter (ProcessId 3) 16]"
  "ex_locked (nd_exec asleep) = {}" "running (ex_machine (nd_exec asleep)) (ProcessId 3) = Some (PsRunning 16)"
proof -
  have run: "exec_turn log_wire demo_os 2 ((node_new [] 10)\<lparr>nd_queue := [sleep_event]\<rparr>) = (Ok (), asleep) \<and>
    nd_queue asleep = [] \<and> nd_ended asleep = False \<and> ex_threads (nd_exec asleep) = [Waiter (ProcessId 3) 16] \<and>
    ex_locked (nd_exec asleep) = {} \<and> running (ex_machine (nd_exec asleep)) (ProcessId 3) = Some (PsRunning 16)"
    by (simp add: asleep_def exec_turn_def on_panic_def node_exec_def handle_event_def sleep_event_def exec_enqueue_def
        process_tasks_def numeral_2_eq_2 run_task_def run_def exec_new_def node_new_def demo_os_def read_end_def write_end_def
        put_pair_def on_os_def on_machine_def spawn_thread_def enqueue_def start_def os_command_new_def
        assign_stdin_def assign_stdout_def assign_stderr_def machine_new_def eff_defs)
  then show "exec_turn log_wire demo_os 2 ((node_new [] 10)\<lparr>nd_queue := [sleep_event]\<rparr>) = (Ok (), asleep)"
    "nd_queue asleep = []" "nd_ended asleep = False" "ex_threads (nd_exec asleep) = [Waiter (ProcessId 3) 16]"
    "ex_locked (nd_exec asleep) = {}" "running (ex_machine (nd_exec asleep)) (ProcessId 3) = Some (PsRunning 16)" by simp_all
qed

definition cancelled :: "(nat, bytes list) config" where
  "cancelled = \<lparr>cf_node = asleep\<lparr>nd_queue := [EvCancelExec (ProcessId 3)],
     nd_exec := (nd_exec asleep)\<lparr>ex_locked := {16}, ex_threads := [Waiting (ProcessId 3) 16]\<rparr>\<rparr>, cf_locking = None\<rparr>"

lemma cancelled_reached: "live_run log_wire demo_os sleep_requests 2 (started_config [] 10)
   [Received ''start'', Took sleep_event, Locked 16, Received ''cancel''] cancelled"
proof -
  let ?turn = "live_turn log_wire demo_os sleep_requests 2"
  let ?asked = "(node_new [] 10)\<lparr>nd_queue := [sleep_event]\<rparr>"
  let ?locked = "asleep\<lparr>nd_exec := (nd_exec asleep)\<lparr>ex_locked := {16}, ex_threads := [Waiting (ProcessId 3) 16]\<rparr>\<rparr>"
  have 1: "?turn (started_config [] 10) (Received ''start'') ((started_config [] 10)\<lparr>cf_node := ?asked\<rparr>)"
    by (rule turn_line) (simp add: started_config_def backend_line_def sleep_requests_def request_route_def async_handler_def
        send_event_def sleep_event_def node_new_def eff_defs)
  have 2: "?turn ((started_config [] 10)\<lparr>cf_node := ?asked\<rparr>) (Took sleep_event) ((started_config [] 10)\<lparr>cf_node := asleep\<rparr>)"
    using turn_event [of "(started_config [] 10)\<lparr>cf_node := ?asked\<rparr>" sleep_event "[]" log_wire demo_os 2 "Ok ()" asleep] asleep(1)
    by (simp add: started_config_def sleep_event_def)
  have 3: "?turn ((started_config [] 10)\<lparr>cf_node := asleep\<rparr>) (Locked 16) ((started_config [] 10)\<lparr>cf_node := ?locked\<rparr>)"
    using turn_lock [of "ProcessId 3" 16 "(started_config [] 10)\<lparr>cf_node := asleep\<rparr>" ?locked] asleep(4,5)
    by (simp add: node_exec_def zoom_def waiter_locks_def thread_becomes_def eff_defs)
  have 4: "?turn ((started_config [] 10)\<lparr>cf_node := ?locked\<rparr>) (Received ''cancel'') cancelled"
    using turn_line [of log_wire demo_os sleep_requests "''cancel''" "(started_config [] 10)\<lparr>cf_node := ?locked\<rparr>" "cf_node cancelled" 2]
      asleep(2,3)
    by (simp add: cancelled_def started_config_def backend_line_def sleep_requests_def request_route_def async_handler_def
        send_event_def eff_defs)
  from run_turn [OF run_turn [OF run_turn [OF run_turn [OF run_start 1] 2] 3] 4] show ?thesis by simp
qed

lemma cancel_waits_for_end_witness:
  "\<exists>c'. live_run log_wire demo_os sleep_requests 2 cancelled [Took (EvCancelExec (ProcessId 3)), Received ''start''] c' \<and>
     cf_locking c' = Some 16 \<and> nd_queue (cf_node c') = [sleep_event] \<and> Waiting (ProcessId 3) 16 \<in> set (ex_threads (cf_exec c'))"
proof -
  let ?turn = "live_turn log_wire demo_os sleep_requests 2"
  let ?c1 = "\<lparr>cf_node = (cf_node cancelled)\<lparr>nd_queue := []\<rparr>, cf_locking = Some 16\<rparr>"
  let ?c2 = "?c1\<lparr>cf_node := (cf_node cancelled)\<lparr>nd_queue := [sleep_event]\<rparr>\<rparr>"
  have 1: "?turn cancelled (Took (EvCancelExec (ProcessId 3))) ?c1"
    using turn_cancel [of cancelled "ProcessId 3" "[]" "Some 16" "(cf_node cancelled)\<lparr>nd_queue := []\<rparr>"] asleep(6)
    by (simp add: cancelled_def node_exec_def zoom_def cancel_target_def on_machine_def status_def eff_defs)
  have 2: "?turn ?c1 (Received ''start'') ?c2"
    by (rule turn_line) (simp add: cancelled_def backend_line_def sleep_requests_def request_route_def async_handler_def
        send_event_def sleep_event_def asleep(3) eff_defs)
  from run_turn [OF run_turn [OF run_start 1] 2]
  have run: "live_run log_wire demo_os sleep_requests 2 cancelled [Took (EvCancelExec (ProcessId 3)), Received ''start''] ?c2" by simp
  have state: "cf_locking cancelled = None" "Waiting (ProcessId 3) 16 \<in> set (ex_threads (cf_exec cancelled))"
    "running (ex_machine (cf_exec cancelled)) (ProcessId 3) = Some (PsRunning 16)"
    "nd_queue (cf_node cancelled) = EvCancelExec (ProcessId 3) # []"
    by (simp_all add: cancelled_def asleep(6))
  from cancel_waits_for_end [OF cancelled_reached state run] run show ?thesis by (auto simp: before_lock_def)
qed

end
