(* ===== verification/Spec2Isabelle.thy ===== *)
theory Spec2Isabelle
  imports Stuck Startup Record_Main Conformance Cancel
begin

text \<open>
  Nak is a shell in two programs. The frontend (\<open>src/frontend\<close>) reads a line, turns it into a plan and
  carries the plan out by requests; the backend (\<open>src/backend\<close>) runs the commands and answers with
  responses. Both speak a protocol of lines (\<open>src/protocol\<close>). A third program records terminal
  sessions (\<open>src/tools/record\<close>). This development models all four crates and proves what makes each
  part correct and what the parts do together. It contains no assumptions of its own: what is
  relied on of code outside the repository is a hypothesis of the theorem that needs it.

  \<^bold>\<open>How the code is modelled.\<close> An operation is a function from a state to an outcome and the state it
  leaves (\<open>Prelude\<close>): a value, an \<open>Err\<close>, a panic with its message, or \<open>Diverge\<close> when a model runs out of
  fuel. \<open>within\<close> and the locale \<open>frame\<close> say what an operation leaves alone. Structs are records and enums datatypes with the names of the source; \<open>u64\<close> is a 64-bit word;
  strings are lists of bytes, and slicing one inside a character panics as in Rust (\<open>Rust_String\<close>, which
  also has the lossy reading of bytes that are not Unicode). Hash maps are maps, or association lists
  where the code iterates over them; so are hash sets, as lists whose order is one the code may see. The operating
  system, \<open>serde_json\<close>, \<open>bincode\<close>, \<open>byteorder\<close>, \<open>base64\<close>, the line editor and the terminal are records of
  calls with a state of their own, which answer an error or a value.

  \<^bold>\<open>The parts.\<close>

  \<^item> \<open>Protocol\<close>: \<open>protocol/src/lib.rs\<close>, the messages, the numbers of processes, pipes and remotes, and \<open>Ids\<close>.
    The locale \<open>id_source\<close> says that an operation draws fresh numbers.

  \<^item> \<open>Endpoint\<close>: \<open>protocol/src/comm.rs\<close>, \<open>Endpoint\<close> and \<open>Backend\<close>, every operation with its assertions. Each
    operation keeps the bookkeeping consistent (the locale \<open>endpoint_op\<close>, interpreted for all of them).

  \<^item> \<open>Machine\<close> and \<open>Scheduler\<close>: \<open>backend/src/machine.rs\<close>, the scheduler of commands that wait for others. Its
    invariant; an abstract scheduler of phases it refines; that commands start after what they
    wait for; that it never stalls; and, as the locale \<open>task_scheduler\<close>, that the rounds of starting
    what has become ready end.

  \<^item> \<open>Exec\<close>: \<open>backend/src/exec.rs\<close>, the executor. The ends of pipes, spawning, builtins, cancelling, edits.
    A child is behind a mutex (\<open>ex_locked\<close>), which its waiter locks (\<open>waiter_locks\<close>) and holds until the
    child has ended (\<open>waiter_waits\<close>); where the executor cancels, it stands still until then. \<open>reader_thread\<close> is the thread that reads a
    pipe. The locale \<open>handler_total\<close> is what the executor needs of the handler it reports to.

  \<^item> \<open>Backend\<close>, \<open>Node\<close>, \<open>Startup\<close>: \<open>backend/src/main.rs\<close>. The handlers and the loop over request lines; the
    socket that serves editors, and every state the process reaches when the main thread, the
    executor, its threads and editors take turns in any order; the roles of the program, the start
    of \<open>run_backend\<close>, \<open>run_pager\<close> and \<open>run_editor\<close>. A panic of the executor ends its thread only
    (\<open>nd_ended\<close>): the main thread goes on until its next request for the executor. \<open>Startup\<close> also holds \<open>frontend/src/bin/test_helper.rs\<close>.

    What a client and its editors told each other is a ghost history (\<open>client_note\<close>): which answer came,
    and whether a write failed.

  \<^item> \<open>Cancel\<close>: the same process one turn of a thread at a time, for what becomes of a request to cancel:
    the main thread, the executor, which can stand before the mutex of a child, the waiters and the
    readers (\<open>live_turn\<close>). A wait that fails, which poisons the mutex, is no turn there.

  \<^item> \<open>Parse\<close>, \<open>Grammar\<close>, \<open>Printer\<close>: \<open>frontend/src/parse.rs\<close>, the parser over byte positions; a grammar over
    tokens it is equal to; a printer it inverts, and the shape of what it answers.

  \<^item> \<open>Prefs\<close>: \<open>frontend/src/prefs.rs\<close>, loading, and the expansion of aliases: total, and the first rule
    that fits.

  \<^item> \<open>Plan\<close>, \<open>Convert\<close>: \<open>frontend/src/plan.rs\<close> and \<open>edit.rs\<close>, plans, their builder (the locale \<open>builder_op\<close>) and
    the conversion of a line, with the readers. Every plan can be replayed: each end of a pipe is
    taken once, after the pipe was made. The plan of a pipeline is given in full.

  \<^item> \<open>Front\<close>, \<open>Requests\<close>, \<open>Session\<close>, \<open>Programs\<close>: \<open>frontend/src/comm.rs\<close> and \<open>main.rs\<close>. \<open>StackedRemotes\<close>, carrying a
    plan out, the main loop with its channel of events, which it waits on while a sender is alive
    (\<open>fr_open\<close>) and whose closing is an error, \<open>launch_backend\<close>; the requests a typed pipeline leads to; the invariant of
    the loop and how a session ends; \<open>main\<close> with its two readers.

  \<^item> \<open>Delivery\<close>: the way back, from the executor's output through the line protocol to the terminal and
    to the prompt, and Ctrl-C.

  \<^item> \<open>Job\<close>, \<open>Job_Run\<close>, \<open>Whole_Run\<close>, \<open>Stuck\<close>: the composition. \<open>Job\<close> is what the executor promises its client, as an
    abstract machine of running and finished commands, one waiting command and the ends of pipes
    that are taken, and the simulation by \<open>exec.rs\<close>; \<open>Job_Run\<close> shows that requests that fit together are
    served in every interleaving with the ends of programs and the output of pipes; \<open>Whole_Run\<close> joins
    the frontend, the line protocol, the backend's loop and the executor for a typed pipeline;
    \<open>Stuck\<close> does so for a pipeline with a program that does not exist.

  \<^item> \<open>Codec\<close>: a printer and a parser of the messages, which show that what is relied on of \<open>serde_json\<close> can
    hold; they model no code of the repository.

  \<^item> \<open>Recorder\<close>, \<open>Piper\<close>, \<open>Record_Main\<close>: \<open>tools/record/src/main.rs\<close>. The format of a recording, its display and
    the player; copying between descriptors with the memory of the buffer, and the recording loop;
    the program. The operating system's state tells what each descriptor was sent (\<open>honest\<close>), the time,
    and when each byte came to the terminal (\<open>dated\<close>), so that the play can be compared with the session.

  \<^item> \<open>Conformance\<close>: the examples of \<open>frontend/tests\<close> and the unit test of the scheduler, evaluated on the
    definitions.

  \<^bold>\<open>How they meet.\<close> \<open>programs_meet\<close>: what the backend prints first is what the frontend waits for.
  \<open>pipeline_requests\<close>: a typed line becomes these requests, in this order. \<open>command_reaches_executor\<close>: a
  request becomes one event of the executor, unchanged. \<open>executor_event_settles\<close>: the event is handled
  to its end. \<open>stdout_reaches_terminal\<close> and \<open>working_directory_roundtrip\<close>: what the command prints comes
  back, byte for byte. \<open>command_line_ends\<close>: a program given one line ends. \<open>pipeline_session\<close> joins them:
  from the line of \<open>nak --command\<close> to the end of both programs' work and what the terminal shows. It also
  shows a flaw: the frontend waits for the end of the directory's pipe only, so output that arrives
  later is never shown. \<open>cancel_waits_for_end\<close> shows another: the thread that waits for a child holds
  its mutex, so a request to cancel the command stops the executor, which handles nothing more and
  kills nothing until the command has ended by itself.
  \<open>missing_program_hangs\<close> is the other end a line can come to: when one of its programs cannot be
  spawned the executor dies, and the frontend waits for ever.

  \<^bold>\<open>Bounds.\<close> \<open>completed\<close> nests no deeper than one call into the next before it panics, so fuel 2 is enough
  for any caller, and the theorems hold for every larger one. \<open>process_tasks\<close> takes at most as many
  rounds as commands are held back, and one more (\<open>executor_event_settles\<close>); for requests that fit
  together one round is enough (\<open>requests_served\<close>). A session takes as many
  turns as responses arrive, and three (\<open>command_line_ends\<close>); that the frontend waits for ever is stated
  for every number of turns. \<open>pipe_some\<close> takes as many rounds as chunks
  are read, and one (\<open>piper_returns\<close>). The frontend numbers its objects by \<open>usize\<close>, modelled as a natural
  number: it would wrap after more objects than a process can create.

  \<^bold>\<open>Not modelled.\<close> The parsing of arguments (\<open>structopt\<close>), whose result is a parameter of the programs; the
  parts for systems that are not Unix, which are empty or unimplemented; \<open>PrintPerformer\<close> of the
  recorder, whose methods are empty and which nothing constructs; the line editor \<open>liner\<close> and the
  decoding of keys, of which the answer is a parameter; messages printed for debugging; the
  poisoning of the mutex of \<open>backtraffic\<close>, which needs a panic while a response is printed (one that
  cannot be written as JSON) and would make the next response panic as well; the forked child of \<open>launch_backend\<close>, of
  which the frontend sees the pipes. Output that the relay thread prints without the mutex can
  mix with other lines; its lines are modelled one at a time.
\<close>

end
